(* ===== verification/Prelude.thy ===== *)
theory Prelude
  imports Main "HOL-Library.Word" "HOL-Library.Code_Target_Nat" "HOL-Library.Multiset" "HOL-Library.Disjoint_Sets"
begin

text \<open>
  The vocabulary shared by every component of the development.

  Machine integers. A \<open>usize\<close> or \<open>u64\<close> that the kernel uses as an address, an index or a
  counter is a \<open>nat\<close>; where the Rust expression can leave the 64-bit range the operation is
  one of \<open>wadd64\<close>, \<open>wsub64\<close>, \<open>checked_add64\<close>, \<open>saturating_add64\<close> below, which write the
  wrap-around out (the release profile of \<open>Cargo.toml\<close> leaves overflow checks off, so a plain
  \<open>+\<close> wraps). A \<open>u64\<close> used as a set of bits is a \<open>64 word\<close>.

  Errors. A \<open>Result<T, E>\<close> is \<open>E + T\<close> with \<open>Inl\<close> for \<open>Err\<close>; an \<open>Option<T>\<close> is
  \<open>T option\<close>. Mutation is explicit state passing, and a method that changes \<open>self\<close> and
  returns a value returns the pair of both.

  Arrays of fixed length are functions on \<open>nat\<close> next to their length, so that a model of a
  64 Ki-entry table stays executable.
\<close>

unbundle bit_operations_syntax

subsection \<open>Named collections of facts\<close>

named_theorems u64_defs \<open>definitions of the 64-bit arithmetic\<close>
named_theorems inv_defs \<open>definitions of the well-formedness invariants\<close>
named_theorems inv_intros \<open>preservation of the well-formedness invariants\<close>

subsection \<open>Types\<close>

type_synonym usize = nat
type_synonym u64 = nat
type_synonym u32 = nat
type_synonym u8 = "8 word"
type_synonym DomainId = nat
type_synonym bits64 = "64 word"

subsection \<open>64-bit arithmetic\<close>

definition U64_MOD :: nat where
  "U64_MOD = 2 ^ 64"

definition wadd64 :: "nat \<Rightarrow> nat \<Rightarrow> nat" where
  "wadd64 a b = (a + b) mod U64_MOD"

definition wsub64 :: "nat \<Rightarrow> nat \<Rightarrow> nat" where
  "wsub64 a b = (a + U64_MOD - b) mod U64_MOD"

definition checked_add64 :: "nat \<Rightarrow> nat \<Rightarrow> nat option" where
  "checked_add64 a b = (if a + b < U64_MOD then Some (a + b) else None)"

definition saturating_add64 :: "nat \<Rightarrow> nat \<Rightarrow> nat" where
  "saturating_add64 a b = min (a + b) (U64_MOD - 1)"

definition saturating_sub64 :: "nat \<Rightarrow> nat \<Rightarrow> nat" where
  "saturating_sub64 a b = a - b"

definition U32_MOD :: nat where
  "U32_MOD = 2 ^ 32"

definition checked_add32 :: "nat \<Rightarrow> nat \<Rightarrow> nat option" where
  "checked_add32 a b = (if a + b < U32_MOD then Some (a + b) else None)"

definition checked_sub32 :: "nat \<Rightarrow> nat \<Rightarrow> nat option" where
  "checked_sub32 a b = (if b \<le> a then Some (a - b) else None)"

lemmas [u64_defs] = wadd64_def wsub64_def checked_add64_def saturating_add64_def
  saturating_sub64_def checked_add32_def checked_sub32_def

lemma U64_MOD_pos [simp]: "0 < U64_MOD"
  by (simp add: U64_MOD_def)

lemma wadd64_less [simp]: "wadd64 a b < U64_MOD"
  by (simp add: wadd64_def)

lemma wadd64_exact: "a + b < U64_MOD \<Longrightarrow> wadd64 a b = a + b"
  by (simp add: wadd64_def)

lemma wsub64_exact: "b \<le> a \<Longrightarrow> a < U64_MOD \<Longrightarrow> wsub64 a b = a - b"
  by (simp add: wsub64_def mod_if)

lemma wsub64_wadd64:
  assumes "a < U64_MOD" and "k < U64_MOD"
  shows "wsub64 (wadd64 a k) a = k"
proof (cases "a + k < U64_MOD")
  case True
  then show ?thesis using assms by (simp add: wadd64_exact wsub64_def)
next
  case False
  then have "wadd64 a k = a + k - U64_MOD"
    using assms by (simp add: wadd64_def mod_if)
  then show ?thesis using False assms by (simp add: wsub64_def)
qed

text \<open>The wrapping operations are the operations of the integers modulo \<open>2 ^ 64\<close>.\<close>

lemma wadd64_wsub64: "a < U64_MOD \<Longrightarrow> b < U64_MOD \<Longrightarrow> wadd64 b (wsub64 a b) = a"
  by (simp add: wadd64_def wsub64_def mod_simps)

lemma wadd64_assoc: "wadd64 (wadd64 a b) c = wadd64 a (b + c)"
  by (simp add: wadd64_def mod_simps ac_simps)

lemma wsub64_wadd64_both:
  assumes "r < U64_MOD" and "n \<le> l" and "l < U64_MOD"
  shows "wsub64 (wadd64 r l) (wadd64 r n) = l - n"
  using wsub64_wadd64 [of "wadd64 r n" "l - n"] assms by (simp add: wadd64_assoc)

lemma wadd64_mod: "c dvd U64_MOD \<Longrightarrow> wadd64 a i mod c = (a + i) mod c"
  by (simp add: wadd64_def mod_mod_cancel)

lemma mod_add_inj:
  assumes "(r + i) mod c = (r + j) mod c" and "i < c" and "j < (c::nat)"
  shows "i = j"
proof -
  have "a = b" if "a \<le> b" "b < c" "(r + b) mod c = (r + a) mod c" for a b
  proof -
    have "c dvd b - a" using that mod_eq_dvd_iff_nat [of "r + a" "r + b" c] by simp
    then have "b - a = 0" using that(2) dvd_imp_le [of c "b - a"] by (cases "b - a = 0") auto
    with that(1) show ?thesis by simp
  qed
  from this [of i j] this [of j i] assms show ?thesis by (cases "i \<le> j") simp_all
qed

lemma int_wadd64: "int (wadd64 a b) = (int a + int b) mod int U64_MOD"
  by (simp add: wadd64_def of_nat_mod)

lemma int_wsub64: "b \<le> U64_MOD \<Longrightarrow> int (wsub64 a b) = (int a - int b) mod int U64_MOD"
  using mod_add_self2 [of "int a - int b" "int U64_MOD"]
  by (simp add: wsub64_def of_nat_mod of_nat_diff algebra_simps)

lemma wsub64_less: "wsub64 a b < U64_MOD"
  by (simp add: wsub64_def)

subsection \<open>Powers of two: the address and block arithmetic of the allocators\<close>

text \<open>\<open>usize::trailing_zeros\<close>: 64 on zero.\<close>

function ctz :: "nat \<Rightarrow> nat" where
  "ctz n = (if n = 0 then 64 else if odd n then 0 else Suc (ctz (n div 2)))"
  by pat_completeness auto
termination
  by (relation "measure id") auto

text \<open>The number of significant bits, \<open>usize::BITS - leading_zeros\<close>.\<close>

function bit_width :: "nat \<Rightarrow> nat" where
  "bit_width n = (if n = 0 then 0 else Suc (bit_width (n div 2)))"
  by pat_completeness auto
termination
  by (relation "measure id") auto

declare ctz.simps [simp del] bit_width.simps [simp del]

lemma ctz_dvd: "n \<noteq> 0 \<Longrightarrow> 2 ^ ctz n dvd n"
proof (induction n rule: ctz.induct)
  case (1 n)
  show ?case
  proof (cases "odd n")
    case True
    then show ?thesis by (simp add: ctz.simps)
  next
    case False
    with "1" have "2 ^ ctz (n div 2) dvd n div 2" by auto
    then have "2 * 2 ^ ctz (n div 2) dvd 2 * (n div 2)" by (rule mult_dvd_mono [OF dvd_refl])
    with False "1.prems" show ?thesis by (simp add: ctz.simps [of n])
  qed
qed

lemma ctz_le_dvd: "k \<le> ctz n \<Longrightarrow> 2 ^ k dvd n"
  by (cases "n = 0") (auto intro: dvd_trans [OF le_imp_power_dvd ctz_dvd])

lemma bit_width_bounds: "n \<noteq> 0 \<Longrightarrow> 2 ^ (bit_width n - 1) \<le> n \<and> n < 2 ^ bit_width n"
proof (induction n rule: bit_width.induct)
  case (1 n)
  show ?case
  proof (cases "n div 2 = 0")
    case True
    with "1.prems" have "n = 1" by linarith
    then show ?thesis by (simp add: bit_width.simps)
  next
    case False
    with "1" have IH: "2 ^ (bit_width (n div 2) - 1) \<le> n div 2" "n div 2 < 2 ^ bit_width (n div 2)"
      by auto
    obtain m where m: "bit_width (n div 2) = Suc m"
      using False by (simp add: bit_width.simps [of "n div 2"])
    from IH m "1.prems" show ?thesis by (simp add: bit_width.simps [of n]) linarith
  qed
qed

lemma bit_width_pos: "n \<noteq> 0 \<Longrightarrow> 0 < bit_width n"
  by (simp add: bit_width.simps)

lemma le_bit_width_power: "n \<noteq> 0 \<Longrightarrow> k \<le> bit_width n - 1 \<Longrightarrow> 2 ^ k \<le> n"
proof -
  assume "n \<noteq> 0" and "k \<le> bit_width n - 1"
  from this(2) have "(2::nat) ^ k \<le> 2 ^ (bit_width n - 1)" by (rule power_increasing) simp
  also have "\<dots> \<le> n" using bit_width_bounds [OF \<open>n \<noteq> 0\<close>] by (rule conjunct1)
  finally show ?thesis .
qed

lemma bit_width_le: "n < 2 ^ k \<Longrightarrow> bit_width n \<le> k"
proof (rule ccontr)
  assume "n < 2 ^ k" and "\<not> bit_width n \<le> k"
  then have "n \<noteq> 0" by (metis bit_width.simps le0)
  moreover from \<open>\<not> bit_width n \<le> k\<close> have "k \<le> bit_width n - 1" by linarith
  ultimately have "2 ^ k \<le> n" by (rule le_bit_width_power)
  with \<open>n < 2 ^ k\<close> show False by simp
qed

subsection \<open>Single bits of a word\<close>

lemma test_bit_zero_iff:
  fixes w :: "'a::len word"
  shows "w AND 2 ^ n = 0 \<longleftrightarrow> \<not> bit w n"
  by (rule and_exp_eq_0_iff_not_bit)

lemma bit_clear_iff:
  fixes w :: "'a::len word"
  shows "bit (w AND NOT (2 ^ n)) k \<longleftrightarrow> bit w k \<and> (k = n \<longrightarrow> LENGTH('a) \<le> n)"
  by (auto simp: bit_simps dest: bit_imp_le_length)

lemma bit_set_iff:
  fixes w :: "'a::len word"
  shows "bit (w OR 2 ^ n) k \<longleftrightarrow> bit w k \<or> (k = n \<and> n < LENGTH('a))"
  by (auto simp: bit_simps)

definition trailing_zeros64 :: "bits64 \<Rightarrow> nat" where
  "trailing_zeros64 w = (case find (bit w) [0..<64] of Some i \<Rightarrow> i | None \<Rightarrow> 64)"

lemma find_upt_Some:
  "find P [0..<n] = Some i \<longleftrightarrow> i < n \<and> P i \<and> (\<forall>j < i. \<not> P j)"
  by (auto simp: find_Some_iff)

lemma trailing_zeros64_le: "bit w i \<Longrightarrow> trailing_zeros64 w \<le> i"
  by (auto simp: trailing_zeros64_def find_upt_Some find_None_iff split: option.splits
      dest: bit_imp_le_length intro: leI)

lemma trailing_zeros64_bit:
  assumes "w \<noteq> 0"
  shows "bit w (trailing_zeros64 w)" and "trailing_zeros64 w < 64"
proof -
  from assms obtain i where "bit w i" by (auto simp: bit_eq_iff)
  then have "i < 64" using bit_imp_le_length [of w i] by simp
  with \<open>bit w i\<close> have "find (bit w) [0..<64] \<noteq> None" by (auto simp: find_None_iff)
  then obtain k where k: "find (bit w) [0..<64] = Some k" by blast
  then have "trailing_zeros64 w = k" by (simp add: trailing_zeros64_def)
  with k show "bit w (trailing_zeros64 w)" and "trailing_zeros64 w < 64"
    by (simp_all add: find_upt_Some)
qed

text \<open>Clearing the low bits rounds down to a multiple of the power of two.\<close>

lemma and_not_mask_shift:
  fixes w :: "'a::len word"
  shows "w AND NOT (mask n) = push_bit n (drop_bit n w)"
  by (rule bit_eqI) (auto simp: bit_simps dest: bit_imp_le_length)

lemma unat_and_not_mask:
  fixes w :: "'a::len word"
  shows "unat (w AND NOT (mask n)) = unat w div 2 ^ n * 2 ^ n"
proof -
  have "unat w div 2 ^ n * 2 ^ n \<le> unat w" by (rule div_times_less_eq_dividend)
  also have "unat w < 2 ^ LENGTH('a)" by (rule unsigned_less)
  finally have "unat w div 2 ^ n * 2 ^ n < 2 ^ LENGTH('a)" .
  then show ?thesis unfolding and_not_mask_shift unsigned_push_bit_eq unsigned_drop_bit_eq
    by (simp add: push_bit_eq_mult drop_bit_eq_div take_bit_eq_mod)
qed

lemma unat_word64: "x < U64_MOD \<Longrightarrow> unat (word_of_nat x :: bits64) = x"
  by (simp add: unsigned_of_nat take_bit_nat_eq_self U64_MOD_def)

text \<open>The idiom \<open>(a + align - 1) & !(align - 1)\<close> on \<open>u64\<close> values.\<close>

definition round_up64 :: "nat \<Rightarrow> nat \<Rightarrow> nat" where
  "round_up64 a align =
     unat ((word_of_nat a + word_of_nat align - 1) AND NOT (word_of_nat align - 1 :: bits64))"

lemma round_up64:
  assumes "a + 2 ^ k < U64_MOD"
  shows "round_up64 a (2 ^ k) = (a + 2 ^ k - 1) div 2 ^ k * 2 ^ k"
proof -
  have m: "(word_of_nat (2 ^ k) - 1 :: bits64) = mask k" by (simp add: mask_eq_exp_minus_1)
  have le: "1 \<le> a + (2::nat) ^ k" by (simp add: trans_le_add2)
  have "(word_of_nat a + word_of_nat (2 ^ k) - 1 :: bits64) = word_of_nat (a + 2 ^ k - 1)"
    by (simp only: of_nat_diff [OF le] of_nat_add of_nat_1)
  moreover have "unat (word_of_nat (a + 2 ^ k - 1) :: bits64) = a + 2 ^ k - 1"
    using assms by (intro unat_word64) simp
  ultimately show ?thesis unfolding round_up64_def m unat_and_not_mask by (simp only:)
qed

lemma round_up64_bounds:
  assumes "a + 2 ^ k < U64_MOD"
  shows "a \<le> round_up64 a (2 ^ k)" and "round_up64 a (2 ^ k) < a + 2 ^ k" and "2 ^ k dvd round_up64 a (2 ^ k)"
proof -
  let ?d = "(2::nat) ^ k"
  have e: "(a + ?d - 1) div ?d * ?d + (a + ?d - 1) mod ?d = a + ?d - 1" by (rule div_mult_mod_eq)
  have "(a + ?d - 1) mod ?d < ?d" by simp
  moreover have "0 < ?d" by simp
  ultimately show "a \<le> round_up64 a (2 ^ k)" and "round_up64 a (2 ^ k) < a + 2 ^ k"
    unfolding round_up64 [OF assms] using e by linarith+
  show "2 ^ k dvd round_up64 a (2 ^ k)" unfolding round_up64 [OF assms] by simp
qed

lemma div_mod_64_eq: "x div 64 = y div 64 \<Longrightarrow> x mod 64 = y mod (64::nat) \<Longrightarrow> x = y"
  by (metis div_mult_mod_eq)

subsection \<open>Decimal printing\<close>

text \<open>\<open>format!("{}", n)\<close> of an unsigned number.\<close>

fun decimal :: "nat \<Rightarrow> string" where
  "decimal n = (if n < 10 then [char_of (48 + n)] else decimal (n div 10) @ [char_of (48 + n mod 10)])"

declare decimal.simps [simp del]

subsection \<open>Lists\<close>

lemma distinct_filter_neq_length:
  "distinct xs \<Longrightarrow> x \<in> set xs \<Longrightarrow> Suc (length (filter (\<lambda>y. y \<noteq> x) xs)) = length xs"
  by (induction xs) (auto intro!: arg_cong [where f = length] filter_True)

lemma distinct_sorted_wrt:
  "distinct xs \<Longrightarrow> (\<And>a b. a \<in> set xs \<Longrightarrow> b \<in> set xs \<Longrightarrow> a \<noteq> b \<Longrightarrow> P a b) \<Longrightarrow> sorted_wrt P xs"
  by (induction xs) auto

lemma sorted_wrt_remove1: "sorted_wrt P xs \<Longrightarrow> sorted_wrt P (remove1 x xs)"
  by (induction xs) (auto dest: set_remove1_subset [THEN subsetD])

lemma remove1_disjoint:
  assumes "sorted_wrt (\<lambda>b b'. e b \<inter> e b' = {}) xs" and "x \<in> set xs" and "y \<in> set (remove1 x xs)"
  shows "e x \<inter> e y = {}"
  using assms by (induction xs) (auto split: if_splits dest: set_remove1_subset [THEN subsetD])

lemma mset_swap_remove:
  assumes "k < length xs"
  shows "mset (butlast (xs[k := last xs])) = mset xs - {#xs ! k#}"
proof -
  let ?ys = "xs[k := last xs]"
  have ne: "?ys \<noteq> []" using assms by auto
  have last: "last ?ys = last xs" using assms by (cases "xs = []") (auto simp: last_list_update)
  have "mset ?ys = mset (butlast ?ys @ [last ?ys])" using ne by simp
  then have "mset (butlast ?ys) = mset ?ys - {#last xs#}" by (simp add: last)
  also have "mset ?ys = add_mset (last xs) (mset xs - {#xs ! k#})" using assms by (rule mset_update)
  finally show ?thesis by simp
qed

end
