(* ===== verification/BTreeMap.thy ===== *)
theory BTreeMap
  imports Prelude
begin

text \<open>
  \<open>alloc::collections::BTreeMap\<close> as the kernel uses it: the list of its entries in ascending
  order of the keys, which is the order \<open>iter\<close>, \<open>values\<close> and \<open>range\<close> produce.
  \<open>keyed_store\<close> states the contract the components rely on (what a lookup returns after an
  insertion or a removal, that every operation keeps the order) and \<open>keyed_map\<close> adds the update
  in place; the interpretation at the end discharges both for the sorted list.
\<close>

subsection \<open>The operations\<close>

type_synonym ('k, 'v) btree = "('k \<times> 'v) list"

definition bt_wf :: "('k::linorder, 'v) btree \<Rightarrow> bool" where
  "bt_wf m = sorted_wrt (<) (map fst m)"

abbreviation bt_get :: "('k, 'v) btree \<Rightarrow> 'k \<Rightarrow> 'v option" where
  "bt_get \<equiv> map_of"

fun bt_insert :: "'k::linorder \<Rightarrow> 'v \<Rightarrow> ('k, 'v) btree \<Rightarrow> ('k, 'v) btree" where
  "bt_insert k v [] = [(k, v)]"
| "bt_insert k v ((k', v') # m) =
     (if k < k' then (k, v) # (k', v') # m
      else if k = k' then (k, v) # m
      else (k', v') # bt_insert k v m)"

definition bt_remove :: "'k \<Rightarrow> ('k, 'v) btree \<Rightarrow> ('k, 'v) btree" where
  "bt_remove k m = filter (\<lambda>e. fst e \<noteq> k) m"

text \<open>\<open>get_mut\<close> followed by an assignment through the reference.\<close>

definition bt_modify :: "'k \<Rightarrow> ('v \<Rightarrow> 'v) \<Rightarrow> ('k, 'v) btree \<Rightarrow> ('k, 'v) btree" where
  "bt_modify k f m = map (\<lambda>(k', v). (k', if k' = k then f v else v)) m"

text \<open>\<open>entry(k).or_insert_with(Vec::new).push(x)\<close>, and the list under a key, empty by default.\<close>

definition bt_list :: "('k, 'v list) btree \<Rightarrow> 'k \<Rightarrow> 'v list" where
  "bt_list m k = (case bt_get m k of None \<Rightarrow> [] | Some xs \<Rightarrow> xs)"

definition bt_push :: "'k::linorder \<Rightarrow> 'v \<Rightarrow> ('k, 'v list) btree \<Rightarrow> ('k, 'v list) btree" where
  "bt_push k x m = bt_insert k (bt_list m k @ [x]) m"

text \<open>\<open>range(..end)\<close>, and the last entry of \<open>range(..=k)\<close>, that is \<open>.rev().take(1)\<close>.\<close>

definition bt_range_lt :: "'k::linorder \<Rightarrow> ('k, 'v) btree \<Rightarrow> ('k, 'v) btree" where
  "bt_range_lt b m = filter (\<lambda>e. fst e < b) m"

definition bt_last_le :: "'k::linorder \<Rightarrow> ('k, 'v) btree \<Rightarrow> ('k \<times> 'v) option" where
  "bt_last_le k m =
     (case rev (filter (\<lambda>e. fst e \<le> k) m) of [] \<Rightarrow> None | e # _ \<Rightarrow> Some e)"

subsection \<open>The contract\<close>

locale keyed_store =
  fixes empty :: 'm
    and lookup :: "'m \<Rightarrow> 'k \<Rightarrow> 'v option"
    and insert :: "'k \<Rightarrow> 'v \<Rightarrow> 'm \<Rightarrow> 'm"
    and remove :: "'k \<Rightarrow> 'm \<Rightarrow> 'm"
    and invar :: "'m \<Rightarrow> bool"
  assumes lookup_empty: "lookup empty k = None"
    and lookup_insert: "invar m \<Longrightarrow> lookup (insert k v m) = (lookup m)(k \<mapsto> v)"
    and lookup_remove: "invar m \<Longrightarrow> lookup (remove k m) = (lookup m)(k := None)"
    and invar_empty: "invar empty"
    and invar_insert: "invar m \<Longrightarrow> invar (insert k v m)"
    and invar_remove: "invar m \<Longrightarrow> invar (remove k m)"
begin

lemma dom_insert: "invar m \<Longrightarrow> dom (lookup (insert k v m)) = Set.insert k (dom (lookup m))"
  by (simp add: lookup_insert)

lemma dom_remove: "invar m \<Longrightarrow> dom (lookup (remove k m)) = dom (lookup m) - {k}"
  by (simp add: lookup_remove)

text \<open>Inserting under a fresh key and removing it again leaves the map as it was.\<close>

lemma remove_insert:
  "invar m \<Longrightarrow> lookup m k = None \<Longrightarrow> lookup (remove k (insert k v m)) = lookup m"
  by (auto simp: lookup_remove invar_insert lookup_insert)

end

locale keyed_map = keyed_store +
  fixes modify :: "'b \<Rightarrow> ('c \<Rightarrow> 'c) \<Rightarrow> 'a \<Rightarrow> 'a"
  assumes lookup_modify: "lookup (modify k f m) = (lookup m)(k := map_option f (lookup m k))"
    and invar_modify: "invar m \<Longrightarrow> invar (modify k f m)"
begin

lemma dom_modify: "dom (lookup (modify k f m)) = dom (lookup m)"
  by (auto simp: lookup_modify split: if_splits)

end

subsection \<open>The sorted entry list satisfies it\<close>

lemma bt_wf_Nil [simp]: "bt_wf []"
  by (simp add: bt_wf_def)

lemma bt_wf_Cons [simp]: "bt_wf ((k, v) # m) \<longleftrightarrow> (\<forall>k' \<in> fst ` set m. k < k') \<and> bt_wf m"
  by (auto simp: bt_wf_def)

lemma bt_wf_distinct: "bt_wf m \<Longrightarrow> distinct (map fst m)"
  by (simp add: bt_wf_def strict_sorted_iff)

lemma map_of_insert: "map_of (bt_insert k v m) = (map_of m)(k \<mapsto> v)"
  by (induction k v m rule: bt_insert.induct) auto

lemma keys_insert: "fst ` set (bt_insert k v m) = Set.insert k (fst ` set m)"
  by (induction k v m rule: bt_insert.induct) auto

lemma wf_insert: "bt_wf m \<Longrightarrow> bt_wf (bt_insert k v m)"
proof (induction k v m rule: bt_insert.induct)
  case (1 k v)
  then show ?case by simp
next
  case (2 k v k' v' m)
  then show ?case by (auto simp: keys_insert)
qed

lemma map_of_remove: "map_of (bt_remove k m) = (map_of m)(k := None)"
  by (induction m) (auto simp: bt_remove_def)

lemma wf_remove: "bt_wf m \<Longrightarrow> bt_wf (bt_remove k m)"
  by (induction m) (auto simp: bt_remove_def)

lemma map_of_modify: "map_of (bt_modify k f m) = (map_of m)(k := map_option f (map_of m k))"
  by (induction m) (auto simp: bt_modify_def)

lemma keys_modify [simp]: "map fst (bt_modify k f m) = map fst m"
  by (induction m) (auto simp: bt_modify_def)

lemma wf_modify: "bt_wf m \<Longrightarrow> bt_wf (bt_modify k f m)"
  by (simp add: bt_wf_def)

interpretation bt: keyed_map "[]" map_of bt_insert bt_remove bt_wf bt_modify
  by unfold_locales
    (simp_all add: map_of_insert map_of_remove map_of_modify wf_insert wf_remove wf_modify)

lemmas bt_lookup_simps [simp] = bt.lookup_insert bt.lookup_remove bt.lookup_modify
lemmas [inv_intros] = bt.invar_empty bt.invar_insert bt.invar_remove bt.invar_modify

lemma bt_list_upd [simp]:
  "bt_wf m \<Longrightarrow> bt_list (bt_push k x m) j = (if j = k then bt_list m k @ [x] else bt_list m j)"
  "bt_list (bt_modify k f m) j = (if j = k \<and> bt_get m k \<noteq> None then f (bt_list m k) else bt_list m j)"
  "bt_wf m \<Longrightarrow> bt_list (bt_remove k m) j = (if j = k then [] else bt_list m j)"
  "bt_list [] j = []"
  by (auto simp: bt_list_def bt_push_def split: option.splits)

lemma bt_list_retain:
  "bt_list (bt_modify k (filter P) m) j = (if j = k then filter P (bt_list m k) else bt_list m j)"
  by (auto simp: bt_list_def map_of_modify split: option.splits)

lemma wf_push: "bt_wf m \<Longrightarrow> bt_wf (bt_push k x m)"
  by (simp add: bt_push_def wf_insert)

lemma bt_get_push: "bt_wf m \<Longrightarrow> bt_get (bt_push k x m) = (bt_get m)(k \<mapsto> bt_list m k @ [x])"
  by (simp add: bt_push_def)

subsection \<open>Entries, ranges and neighbours\<close>

lemma bt_mem_iff: "bt_wf m \<Longrightarrow> (k, v) \<in> set m \<longleftrightarrow> map_of m k = Some v"
  by (rule map_of_eq_Some_iff [symmetric]) (rule bt_wf_distinct)

lemma length_insert_fresh: "map_of m k = None \<Longrightarrow> length (bt_insert k v m) = Suc (length m)"
  by (induction k v m rule: bt_insert.induct) (auto split: if_splits)

lemma length_remove_present:
  "bt_wf m \<Longrightarrow> map_of m k = Some v \<Longrightarrow> Suc (length (bt_remove k m)) = length m"
proof (induction m)
  case Nil
  then show ?case by simp
next
  case (Cons e m)
  obtain k' v' where e: "e = (k', v')" by (cases e)
  show ?case
  proof (cases "k' = k")
    case True
    with Cons.prems(1) e have "\<forall>x \<in> set m. fst x \<noteq> k" by auto
    then have "filter (\<lambda>x. fst x \<noteq> k) m = m" by simp
    with True e show ?thesis by (simp add: bt_remove_def)
  next
    case False
    with Cons e show ?thesis by (auto simp: bt_remove_def)
  qed
qed

text \<open>The entry \<open>range(..=k).rev().take(1)\<close> yields is the one with the greatest key up to \<open>k\<close>.\<close>

lemma bt_last_le_None: "bt_last_le k m = None \<longleftrightarrow> (\<forall>e \<in> set m. \<not> fst e \<le> k)"
proof -
  have "bt_last_le k m = None \<longleftrightarrow> rev (filter (\<lambda>e. fst e \<le> k) m) = []"
    by (cases "rev (filter (\<lambda>e. fst e \<le> k) m)") (simp_all add: bt_last_le_def)
  then show ?thesis by (simp add: filter_empty_conv)
qed

lemma bt_last_le_Some:
  assumes "bt_wf m" and "bt_last_le k m = Some (k', v)"
  shows "map_of m k' = Some v" and "k' \<le> k" and "\<forall>j \<in> dom (map_of m). j \<le> k \<longrightarrow> j \<le> k'"
proof -
  let ?f = "filter (\<lambda>e. fst e \<le> k) m"
  from assms(2) obtain r where r: "rev ?f = (k', v) # r"
    by (auto simp: bt_last_le_def split: list.splits)
  then have f: "?f = rev r @ [(k', v)]" by (metis rev.simps(2) rev_rev_ident)
  then have mem: "(k', v) \<in> set ?f" by simp
  then show "k' \<le> k" by simp
  from mem have "(k', v) \<in> set m" by simp
  with assms(1) show "map_of m k' = Some v" by (simp add: bt_mem_iff)
  have "sorted_wrt (<) (map fst ?f)"
    using assms(1) by (induction m) (auto simp: bt_wf_def)
  then have "\<forall>e \<in> set r. fst e < k'" by (simp add: f sorted_wrt_append)
  then have "\<forall>e \<in> set ?f. fst e \<le> k'" by (auto simp: f)
  then have le: "j \<le> k'" if "(j, w) \<in> set m" and "j \<le> k" for j w using that by auto
  show "\<forall>j \<in> dom (map_of m). j \<le> k \<longrightarrow> j \<le> k'"
  proof (intro ballI impI)
    fix j assume "j \<in> dom (map_of m)" and "j \<le> k"
    then obtain w where "(j, w) \<in> set m" by (auto dest: map_of_SomeD)
    then show "j \<le> k'" using \<open>j \<le> k\<close> by (rule le)
  qed
qed

lemma bt_last_le_mem: "bt_wf m \<Longrightarrow> map_of m k = Some v \<Longrightarrow> bt_last_le k m = Some (k, v)"
proof -
  assume wf: "bt_wf m" and v: "map_of m k = Some v"
  show ?thesis
  proof (cases "bt_last_le k m")
    case None
    with map_of_SomeD [OF v] show ?thesis by (fastforce simp: bt_last_le_None)
  next
    case (Some e)
    obtain k' v' where e: "e = (k', v')" by (cases e)
    note k' = bt_last_le_Some [OF wf Some [unfolded e]]
    from v have "k \<in> dom (map_of m)" by blast
    with k'(3) have "k \<le> k'" by simp
    with k'(2) have "k' = k" by (rule antisym)
    with k'(1) v Some e show ?thesis by simp
  qed
qed

end
