(* ===== verification/FramePool.thy ===== *)
theory FramePool
  imports Prelude
begin

text \<open>
  What the kernel's clients rely on in an allocator, stated once for the buddy allocator, the
  unified frame allocator, the exchange heap and the slab caches: an allocation hands out frames
  or bytes that were free, and a release gives back only those of the released block. What an
  allocator loses to padding is allowed to disappear. \<open>pool_run\<close> drives an allocator
  by a sequence of requests and keeps the ledger of what is handed out; the lemmas of the locale
  show that the ledger never holds two overlapping blocks.
\<close>

subsection \<open>Requests and the ledger\<close>

datatype 'r request = Alloc 'r | Free 'r nat

fun request_ok :: "('r \<Rightarrow> bool) \<Rightarrow> 'r request \<Rightarrow> bool" where
  "request_ok p (Alloc r) = p r"
| "request_ok p (Free r f) = True"

lemma request_ok_True [simp]: "list_all (request_ok (\<lambda>_. True)) qs"
proof (induction qs)
  case (Cons q qs)
  then show ?case by (cases q) simp_all
qed simp

type_synonym 'r ledger = "('r \<times> nat) list"

text \<open>A client releases only a block it holds; any other release request is not issued.\<close>

fun pool_step ::
  "('r \<Rightarrow> 's \<Rightarrow> 's \<times> nat option) \<Rightarrow> ('r \<Rightarrow> nat \<Rightarrow> 's \<Rightarrow> 's) \<Rightarrow>
   's \<times> 'r ledger \<Rightarrow> 'r request \<Rightarrow> 's \<times> 'r ledger" where
  "pool_step alloc dealloc (s, live) (Alloc r) =
     (case alloc r s of (s', None) \<Rightarrow> (s', live) | (s', Some f) \<Rightarrow> (s', (r, f) # live))"
| "pool_step alloc dealloc (s, live) (Free r f) =
     (if (r, f) \<in> set live then (dealloc r f s, remove1 (r, f) live) else (s, live))"

definition pool_run ::
  "('r \<Rightarrow> 's \<Rightarrow> 's \<times> nat option) \<Rightarrow> ('r \<Rightarrow> nat \<Rightarrow> 's \<Rightarrow> 's) \<Rightarrow>
   's \<times> 'r ledger \<Rightarrow> 'r request list \<Rightarrow> 's \<times> 'r ledger" where
  "pool_run alloc dealloc = foldl (pool_step alloc dealloc)"

definition ledger_disjoint :: "('r \<Rightarrow> nat \<Rightarrow> nat set) \<Rightarrow> 'r ledger \<Rightarrow> bool" where
  "ledger_disjoint extent live =
     (\<forall>i < length live. \<forall>j < length live. i \<noteq> j \<longrightarrow>
        extent (fst (live ! i)) (snd (live ! i)) \<inter> extent (fst (live ! j)) (snd (live ! j)) = {})"

subsection \<open>The contract of an allocator\<close>

text \<open>\<open>admissible\<close> holds of the requests the callers can form, such as well-formed layouts.\<close>

locale frame_pool =
  fixes invar :: "'s \<Rightarrow> bool"
    and admissible :: "'r \<Rightarrow> bool"
    and free :: "'s \<Rightarrow> nat set"
    and extent :: "'r \<Rightarrow> nat \<Rightarrow> nat set"
    and placed :: "'r \<Rightarrow> nat \<Rightarrow> bool"
    and alloc :: "'r \<Rightarrow> 's \<Rightarrow> 's \<times> nat option"
    and dealloc :: "'r \<Rightarrow> nat \<Rightarrow> 's \<Rightarrow> 's"
  assumes alloc_Some: "invar s \<Longrightarrow> admissible r \<Longrightarrow> alloc r s = (s', Some f) \<Longrightarrow>
      invar s' \<and> placed r f \<and> extent r f \<subseteq> free s \<and> free s' \<subseteq> free s - extent r f"
    and alloc_None: "invar s \<Longrightarrow> admissible r \<Longrightarrow> alloc r s = (s', None) \<Longrightarrow> s' = s"
    and dealloc: "invar s \<Longrightarrow> placed r f \<Longrightarrow> extent r f \<inter> free s = {} \<Longrightarrow>
      invar (dealloc r f s) \<and> free (dealloc r f s) \<subseteq> free s \<union> extent r f"
begin

definition ledger_ok :: "'s \<times> 'r ledger \<Rightarrow> bool" where
  "ledger_ok st =
     (invar (fst st) \<and> sorted_wrt (\<lambda>b b'. extent (fst b) (snd b) \<inter> extent (fst b') (snd b') = {}) (snd st) \<and>
      (\<forall>(r, f) \<in> set (snd st). placed r f \<and> extent r f \<inter> free (fst st) = {}))"

lemma ledger_okI:
  assumes "invar s"
    and "sorted_wrt (\<lambda>b b'. extent (fst b) (snd b) \<inter> extent (fst b') (snd b') = {}) live"
    and "\<And>r f. (r, f) \<in> set live \<Longrightarrow> placed r f \<and> extent r f \<inter> free s = {}"
  shows "ledger_ok (s, live)"
  using assms by (auto simp: ledger_ok_def)

lemma ledger_ok_step:
  assumes ok: "ledger_ok st" and adm: "request_ok admissible q"
  shows "ledger_ok (pool_step alloc dealloc st q)"
proof (cases st)
  case (Pair s live)
  from ok have inv: "invar s"
    and srt: "sorted_wrt (\<lambda>b b'. extent (fst b) (snd b) \<inter> extent (fst b') (snd b') = {}) live"
    and out: "\<And>r f. (r, f) \<in> set live \<Longrightarrow> placed r f \<and> extent r f \<inter> free s = {}"
    by (auto simp: ledger_ok_def Pair)
  show ?thesis
  proof (cases q)
    case (Alloc r)
    with adm have r: "admissible r" by simp
    obtain s' res where a: "alloc r s = (s', res)" by (cases "alloc r s")
    show ?thesis
    proof (cases res)
      case None
      with a alloc_None [OF inv r] have "s' = s" by simp
      with ok a None Alloc Pair show ?thesis by simp
    next
      case (Some f)
      with a have new: "invar s'" "placed r f" "extent r f \<subseteq> free s" "free s' \<subseteq> free s - extent r f"
        using alloc_Some [OF inv r, of s' f] by auto
      have apart: "extent r f \<inter> extent r' f' = {}" "placed r' f' \<and> extent r' f' \<inter> free s' = {}"
        if "(r', f') \<in> set live" for r' f'
        using out [OF that] new(3,4) by auto
      have "ledger_ok (s', (r, f) # live)"
      proof (rule ledger_okI)
        fix r' f' assume "(r', f') \<in> set ((r, f) # live)"
        then show "placed r' f' \<and> extent r' f' \<inter> free s' = {}"
          using apart(2) [of r' f'] new(2,4) by auto
      qed (use srt new(1) apart(1) in auto)
      with a Some show ?thesis by (simp add: Alloc Pair)
    qed
  next
    case (Free r f)
    show ?thesis
    proof (cases "(r, f) \<in> set live")
      case True
      let ?s = "dealloc r f s" and ?live = "remove1 (r, f) live"
      from out [OF True] have d: "invar ?s" "free ?s \<subseteq> free s \<union> extent r f"
        using dealloc [OF inv, of r f] by auto
      have apart: "placed r' f' \<and> extent r' f' \<inter> free ?s = {}" if b: "(r', f') \<in> set ?live" for r' f'
      proof -
        from b have "(r', f') \<in> set live" by (rule set_remove1_subset [THEN subsetD])
        then have "placed r' f'" and "extent r' f' \<inter> free s = {}" using out by auto
        moreover have "extent r f \<inter> extent r' f' = {}"
          using remove1_disjoint [OF srt True b] by simp
        ultimately show ?thesis using d(2) by blast
      qed
      from d(1) sorted_wrt_remove1 [OF srt] apart have "ledger_ok (?s, ?live)"
        by (rule ledger_okI)
      with True show ?thesis by (simp add: Free Pair)
    next
      case False
      with ok Free Pair show ?thesis by simp
    qed
  qed
qed

lemma ledger_ok_run:
  "ledger_ok st \<Longrightarrow> list_all (request_ok admissible) qs \<Longrightarrow> ledger_ok (pool_run alloc dealloc st qs)"
  by (induction qs arbitrary: st) (auto simp: pool_run_def ledger_ok_step)

text \<open>From a well-formed pool with nothing handed out, no request sequence hands a frame out twice.\<close>

lemma run_disjoint:
  assumes "invar s" and "list_all (request_ok admissible) qs"
  shows "ledger_disjoint extent (snd (pool_run alloc dealloc (s, []) qs))"
proof -
  have "ledger_ok (s, [])" using assms(1) by (simp add: ledger_ok_def)
  then have "ledger_ok (pool_run alloc dealloc (s, []) qs)" using assms(2) by (rule ledger_ok_run)
  then have srt: "sorted_wrt (\<lambda>b b'. extent (fst b) (snd b) \<inter> extent (fst b') (snd b') = {})
      (snd (pool_run alloc dealloc (s, []) qs))"
    by (simp add: ledger_ok_def)
  then show ?thesis
    unfolding ledger_disjoint_def sorted_wrt_iff_nth_less
    by (metis Int_commute linorder_neqE_nat)
qed

text \<open>What is handed out lies where it may and apart from everything free.\<close>

lemma run_live:
  assumes "invar s" and "list_all (request_ok admissible) qs" and "(r, f) \<in> set (snd (pool_run alloc dealloc (s, []) qs))"
  shows "placed r f" and "extent r f \<inter> free (fst (pool_run alloc dealloc (s, []) qs)) = {}"
proof -
  have "ledger_ok (s, [])" using assms(1) by (simp add: ledger_ok_def)
  from ledger_ok_run [OF this assms(2)] assms(3)
  show "placed r f" and "extent r f \<inter> free (fst (pool_run alloc dealloc (s, []) qs)) = {}" by (auto simp: ledger_ok_def)
qed

lemma run_invar:
  "invar s \<Longrightarrow> list_all (request_ok admissible) qs \<Longrightarrow> invar (fst (pool_run alloc dealloc (s, []) qs))"
  using ledger_ok_run [of "(s, [])" qs] by (simp add: ledger_ok_def)

end

text \<open>A pool that loses nothing on release gives every released block back in full.\<close>

locale returning_pool = frame_pool +
  assumes dealloc_free: "invar s \<Longrightarrow> placed r f \<Longrightarrow> extent r f \<inter> free s = {} \<Longrightarrow>
      free (dealloc r f s) = free s \<union> extent r f"
begin

lemma release_all:
  assumes "invar s"
    and "sorted_wrt (\<lambda>b b'. extent (fst b) (snd b) \<inter> extent (fst b') (snd b') = {}) bs"
    and "\<And>r f. (r, f) \<in> set bs \<Longrightarrow> placed r f \<and> extent r f \<inter> free s = {}"
  shows "invar (fold (\<lambda>(r, f). dealloc r f) bs s) \<and>
    free (fold (\<lambda>(r, f). dealloc r f) bs s) = free s \<union> (\<Union>(r, f) \<in> set bs. extent r f)"
  using assms
proof (induction bs arbitrary: s)
  case (Cons b bs)
  obtain r f where b: "b = (r, f)" by (cases b)
  from Cons.prems(3) [of r f] b have rf: "placed r f" "extent r f \<inter> free s = {}" by simp_all
  note d = dealloc [OF Cons.prems(1) rf, THEN conjunct1] dealloc_free [OF Cons.prems(1) rf]
  have "placed r' f' \<and> extent r' f' \<inter> free (dealloc r f s) = {}" if "(r', f') \<in> set bs" for r' f'
  proof -
    have "placed r' f'" "extent r' f' \<inter> free s = {}" using Cons.prems(3) [of r' f'] that by simp_all
    moreover have "extent r f \<inter> extent r' f' = {}" using bspec [OF _ that, of "\<lambda>x. extent r f \<inter> extent (fst x) (snd x) = {}"] Cons.prems(2)
      by (simp add: b)
    ultimately show ?thesis unfolding d(2) by blast
  qed
  with Cons.IH [OF d(1)] Cons.prems(2) show ?case by (simp add: b d(2) Un_assoc)
qed simp

end

end
