(* ===== verification/Buddy.thy ===== *)
theory Buddy
  imports FramePool
begin

text \<open>
  The buddy allocator of physical frames, \<open>src/src/mm/buddy_allocator.rs\<close>: the array-backed
  free list of each order, the bitmap, splitting on allocation, coalescing on release, and the
  registration of usable memory. A block of order \<open>n\<close> is \<open>2 ^ n\<close> frames starting at a multiple
  of \<open>2 ^ n\<close>. Physical addresses handed to the \<open>x86_64\<close> crate's \<open>PhysFrame\<close> are plain numbers.
\<close>

subsection \<open>Constants and frame numbers\<close>

definition PAGE_SIZE_4K :: usize where "PAGE_SIZE_4K = 4096"
definition PAGE_SIZE_2M :: usize where "PAGE_SIZE_2M = 2 * 1024 * 1024"
definition PAGE_SIZE_1G :: usize where "PAGE_SIZE_1G = 1024 * 1024 * 1024"
definition MAX_ORDER :: usize where "MAX_ORDER = 18"
definition MAX_PHYSICAL_MEMORY :: usize where "MAX_PHYSICAL_MEMORY = 16 * 1024 * 1024 * 1024"
definition MAX_4K_FRAMES :: usize where "MAX_4K_FRAMES = MAX_PHYSICAL_MEMORY div PAGE_SIZE_4K"

type_synonym FrameIndex = nat

definition from_phys_addr :: "u64 \<Rightarrow> FrameIndex" where
  "from_phys_addr addr = addr div PAGE_SIZE_4K"

definition to_phys_addr :: "FrameIndex \<Rightarrow> u64" where
  "to_phys_addr f = (f * PAGE_SIZE_4K) mod U64_MOD"

definition buddy :: "FrameIndex \<Rightarrow> usize \<Rightarrow> FrameIndex" where
  "buddy f order = f XOR 2 ^ order"

definition align_down :: "FrameIndex \<Rightarrow> usize \<Rightarrow> FrameIndex" where
  "align_down f order = (let block_size = 2 ^ order in f div block_size * block_size)"

subsection \<open>The free list of one order\<close>

text \<open>\<open>entries\<close> is the array \<open>[Option<FrameIndex>; 8192]\<close>.\<close>

record FreeList =
  entries :: "nat \<Rightarrow> FrameIndex option"
  count :: usize

definition FREE_LIST_LEN :: usize where "FREE_LIST_LEN = 8192"

definition fl_new :: FreeList where
  "fl_new = \<lparr>entries = (\<lambda>_. None), count = 0\<rparr>"

definition fl_push :: "FreeList \<Rightarrow> FrameIndex \<Rightarrow> FreeList" where
  "fl_push fl frame =
     (if count fl < FREE_LIST_LEN
      then fl\<lparr>entries := (entries fl)(count fl := Some frame), count := count fl + 1\<rparr>
      else fl)"

definition fl_pop :: "FreeList \<Rightarrow> FreeList \<times> FrameIndex option" where
  "fl_pop fl =
     (if 0 < count fl
      then let c = count fl - 1
           in (fl\<lparr>count := c, entries := (entries fl)(c := None)\<rparr>, entries fl c)
      else (fl, None))"

text \<open>
  The loop of \<open>remove\<close> from index \<open>i\<close>; the assignment \<open>entries[i] = entries[count - 1].take()\<close>
  clears the last slot first and stores into slot \<open>i\<close> second.
\<close>

function fl_remove_from :: "FreeList \<Rightarrow> FrameIndex \<Rightarrow> nat \<Rightarrow> FreeList \<times> bool" where
  "fl_remove_from fl frame i =
     (if i < count fl
      then if entries fl i = Some frame
           then (let l = count fl - 1
                 in (fl\<lparr>entries := (entries fl)(l := None, i := entries fl l), count := l\<rparr>, True))
           else fl_remove_from fl frame (Suc i)
      else (fl, False))"
  by pat_completeness auto
termination
  by (relation "measure (\<lambda>(fl, _, i). count fl - i)") auto

definition fl_remove :: "FreeList \<Rightarrow> FrameIndex \<Rightarrow> FreeList \<times> bool" where
  "fl_remove fl frame = fl_remove_from fl frame 0"

definition fl_is_empty :: "FreeList \<Rightarrow> bool" where
  "fl_is_empty fl = (count fl = 0)"

definition fl_len :: "FreeList \<Rightarrow> usize" where
  "fl_len fl = count fl"

subsection \<open>The allocator state and its bitmap\<close>

record BuddyFrameAllocator =
  free_lists :: "nat \<Rightarrow> FreeList"
  bitmap :: "nat \<Rightarrow> bits64"
  total_frames :: usize
  free_frames :: u64
  split_count :: u64
  coalesce_count :: u64

definition BITMAP_LEN :: usize where "BITMAP_LEN = MAX_4K_FRAMES div 64"

definition buddy_new :: BuddyFrameAllocator where
  "buddy_new = \<lparr>free_lists = (\<lambda>_. fl_new), bitmap = (\<lambda>_. 0), total_frames = 0,
     free_frames = 0, split_count = 0, coalesce_count = 0\<rparr>"

definition mark_frame_free :: "FrameIndex \<Rightarrow> BuddyFrameAllocator \<Rightarrow> BuddyFrameAllocator" where
  "mark_frame_free frame a =
     (let word_idx = frame div 64; bit_idx = frame mod 64
      in if word_idx < BITMAP_LEN
         then a\<lparr>bitmap := (bitmap a)(word_idx := bitmap a word_idx AND NOT (push_bit bit_idx 1))\<rparr>
         else a)"

definition mark_frame_used :: "FrameIndex \<Rightarrow> BuddyFrameAllocator \<Rightarrow> BuddyFrameAllocator" where
  "mark_frame_used frame a =
     (let word_idx = frame div 64; bit_idx = frame mod 64
      in if word_idx < BITMAP_LEN
         then a\<lparr>bitmap := (bitmap a)(word_idx := bitmap a word_idx OR push_bit bit_idx 1)\<rparr>
         else a)"

definition is_frame_free :: "BuddyFrameAllocator \<Rightarrow> FrameIndex \<Rightarrow> bool" where
  "is_frame_free a frame =
     (let word_idx = frame div 64; bit_idx = frame mod 64
      in if BITMAP_LEN \<le> word_idx then False
         else bitmap a word_idx AND push_bit bit_idx 1 = 0)"

subsection \<open>Allocation: find a block, split it\<close>

text \<open>The \<open>while\<close> loop of \<open>split_block\<close>, from \<open>current_order\<close> down to \<open>to_order\<close>.\<close>

fun split_block :: "FrameIndex \<Rightarrow> usize \<Rightarrow> usize \<Rightarrow> BuddyFrameAllocator \<Rightarrow> BuddyFrameAllocator" where
  "split_block frame 0 to_order a = a"
| "split_block frame (Suc k) to_order a =
     (if to_order < Suc k
      then split_block frame k to_order
             (a\<lparr>free_lists := (free_lists a)(k := fl_push (free_lists a k) (frame + 2 ^ k)),
                split_count := split_count a + 1\<rparr>)
      else a)"

text \<open>The \<open>for current_order in order..=MAX_ORDER\<close> loop of \<open>allocate_order\<close>.\<close>

function alloc_scan ::
  "usize \<Rightarrow> usize \<Rightarrow> BuddyFrameAllocator \<Rightarrow> BuddyFrameAllocator \<times> FrameIndex option" where
  "alloc_scan order current a =
     (if current \<le> MAX_ORDER
      then case fl_pop (free_lists a current) of
             (_, None) \<Rightarrow> alloc_scan order (Suc current) a
           | (fl, Some frame) \<Rightarrow>
               (let a1 = split_block frame current order
                           (a\<lparr>free_lists := (free_lists a)(current := fl)\<rparr>);
                    a2 = fold (\<lambda>i. mark_frame_used (frame + i)) [0..<2 ^ order] a1
                in (a2\<lparr>free_frames := free_frames a2 - 2 ^ order\<rparr>, Some frame))
      else (a, None))"
  by pat_completeness auto
termination
  by (relation "measure (\<lambda>(_, current, _). Suc MAX_ORDER - current)") auto

definition allocate_order ::
  "usize \<Rightarrow> BuddyFrameAllocator \<Rightarrow> BuddyFrameAllocator \<times> FrameIndex option" where
  "allocate_order order a = alloc_scan order order a"

subsection \<open>Release: coalesce with the buddy while it is free\<close>

definition is_buddy_free :: "BuddyFrameAllocator \<Rightarrow> FrameIndex \<Rightarrow> usize \<Rightarrow> bool" where
  "is_buddy_free a b order =
     (if total_frames a < b + 2 ^ order then False
      else list_all (\<lambda>i. is_frame_free a (b + i)) [0..<2 ^ order])"

function coalesce :: "FrameIndex \<Rightarrow> usize \<Rightarrow> BuddyFrameAllocator \<Rightarrow> BuddyFrameAllocator" where
  "coalesce frame order a =
     (let done_a = a\<lparr>free_lists := (free_lists a)(order := fl_push (free_lists a order) frame)\<rparr>
      in if order < MAX_ORDER
         then (let b = buddy frame order
               in if \<not> is_buddy_free a b order then done_a
                  else case fl_remove (free_lists a order) b of
                         (_, False) \<Rightarrow> done_a
                       | (fl, True) \<Rightarrow>
                           coalesce (if frame < b then frame else b) (order + 1)
                             (a\<lparr>free_lists := (free_lists a)(order := fl),
                                coalesce_count := coalesce_count a + 1\<rparr>))
         else done_a)"
  by pat_completeness auto
termination
  by (relation "measure (\<lambda>(_, order, _). MAX_ORDER - order)") auto

definition deallocate_order :: "usize \<Rightarrow> FrameIndex \<Rightarrow> BuddyFrameAllocator \<Rightarrow> BuddyFrameAllocator" where
  "deallocate_order order frame a =
     (let a1 = fold (\<lambda>i. mark_frame_free (frame + i)) [0..<2 ^ order] a
      in coalesce frame order (a1\<lparr>free_frames := free_frames a1 + 2 ^ order\<rparr>))"

declare fl_remove_from.simps [simp del] alloc_scan.simps [simp del] coalesce.simps [simp del]

subsection \<open>Registration of usable memory\<close>

definition region_order :: "usize \<Rightarrow> usize \<Rightarrow> usize" where
  "region_order current end_idx =
     (let remaining = end_idx - current
      in min (min (ctz current) (bit_width remaining - 1)) MAX_ORDER)"

function add_region :: "FrameIndex \<Rightarrow> FrameIndex \<Rightarrow> BuddyFrameAllocator \<Rightarrow> BuddyFrameAllocator" where
  "add_region current end_idx a =
     (if current < end_idx
      then (let order = region_order current end_idx;
                a1 = a\<lparr>free_lists := (free_lists a)(order := fl_push (free_lists a order) current),
                       free_frames := free_frames a + 2 ^ order\<rparr>;
                a2 = fold (\<lambda>i. mark_frame_free (current + i)) [0..<2 ^ order] a1
            in add_region (current + 2 ^ order) end_idx a2)
      else a)"
  by pat_completeness auto
termination
  by (relation "measure (\<lambda>(current, end_idx, _). end_idx - current)") (auto intro: diff_less_mono2)

declare add_region.simps [simp del]

definition region_start :: "u64 \<times> u64 \<Rightarrow> FrameIndex" where
  "region_start r = from_phys_addr (fst r)"

definition region_end :: "u64 \<times> u64 \<Rightarrow> FrameIndex" where
  "region_end r = from_phys_addr (wadd64 (fst r) (snd r))"

definition buddy_init :: "(u64 \<times> u64) list \<Rightarrow> BuddyFrameAllocator \<Rightarrow> BuddyFrameAllocator" where
  "buddy_init usable_regions a =
     (let a0 = a\<lparr>bitmap := (\<lambda>_. - 1)\<rparr>;
          (a1, total) = fold (\<lambda>r (a, total). (add_region (region_start r) (region_end r) a,
                                             max total (region_end r)))
                             usable_regions (a0, 0)
      in a1\<lparr>total_frames := total\<rparr>)"

subsection \<open>The public operations\<close>

definition frames_to_order :: "usize \<Rightarrow> usize" where
  "frames_to_order frames = (if frames = 0 then 0 else bit_width (frames - 1))"

definition allocate_4k_frame :: "BuddyFrameAllocator \<Rightarrow> BuddyFrameAllocator \<times> u64 option" where
  "allocate_4k_frame a = (case allocate_order 0 a of (a', f) \<Rightarrow> (a', map_option to_phys_addr f))"

definition allocate_2m_frame :: "BuddyFrameAllocator \<Rightarrow> BuddyFrameAllocator \<times> u64 option" where
  "allocate_2m_frame a =
     (case allocate_order (frames_to_order (PAGE_SIZE_2M div PAGE_SIZE_4K)) a of
        (a', f) \<Rightarrow> (a', map_option to_phys_addr f))"

definition allocate_1g_frame :: "BuddyFrameAllocator \<Rightarrow> BuddyFrameAllocator \<times> u64 option" where
  "allocate_1g_frame a =
     (case allocate_order (frames_to_order (PAGE_SIZE_1G div PAGE_SIZE_4K)) a of
        (a', f) \<Rightarrow> (a', map_option to_phys_addr f))"

definition deallocate_4k_frame :: "u64 \<Rightarrow> BuddyFrameAllocator \<Rightarrow> BuddyFrameAllocator" where
  "deallocate_4k_frame start a = deallocate_order 0 (from_phys_addr start) a"

definition deallocate_2m_frame :: "u64 \<Rightarrow> BuddyFrameAllocator \<Rightarrow> BuddyFrameAllocator" where
  "deallocate_2m_frame start a =
     deallocate_order (frames_to_order (PAGE_SIZE_2M div PAGE_SIZE_4K)) (from_phys_addr start) a"

definition deallocate_1g_frame :: "u64 \<Rightarrow> BuddyFrameAllocator \<Rightarrow> BuddyFrameAllocator" where
  "deallocate_1g_frame start a =
     deallocate_order (frames_to_order (PAGE_SIZE_1G div PAGE_SIZE_4K)) (from_phys_addr start) a"

definition allocate_contiguous ::
  "usize \<Rightarrow> BuddyFrameAllocator \<Rightarrow> BuddyFrameAllocator \<times> u64 option" where
  "allocate_contiguous frame_count a =
     (case allocate_order (frames_to_order frame_count) a of (a', f) \<Rightarrow> (a', map_option to_phys_addr f))"

record BuddyAllocatorStats =
  st_total_frames :: usize
  st_free_frames :: u64
  st_split_count :: u64
  st_coalesce_count :: u64
  order_stats :: "(usize \<times> usize) list"

definition buddy_stats :: "BuddyFrameAllocator \<Rightarrow> BuddyAllocatorStats" where
  "buddy_stats a =
     \<lparr>st_total_frames = total_frames a, st_free_frames = free_frames a,
      st_split_count = split_count a, st_coalesce_count = coalesce_count a,
      order_stats = map (\<lambda>order. (fl_len (free_lists a order),
                                  fl_len (free_lists a order) * 2 ^ order)) [0..<MAX_ORDER + 1]\<rparr>"

definition is_managed_by_buddy :: "BuddyFrameAllocator \<Rightarrow> u64 \<Rightarrow> bool" where
  "is_managed_by_buddy a addr =
     (if total_frames a = 0 then False else addr < (total_frames a * PAGE_SIZE_4K) mod U64_MOD)"


subsection \<open>The contract of a free list\<close>

text \<open>
  What the allocator relies on: the entries of a list form a bag; \<open>push\<close> adds to it while the
  array has room and drops the block silently when it has none, \<open>pop\<close> takes one out, \<open>remove\<close>
  takes out a given one exactly when it is there.
\<close>

locale free_list =
  fixes wf :: "'l \<Rightarrow> bool"
    and items :: "'l \<Rightarrow> 'a list"
    and capacity :: nat
    and push :: "'l \<Rightarrow> 'a \<Rightarrow> 'l"
    and pop :: "'l \<Rightarrow> 'l \<times> 'a option"
    and remove :: "'l \<Rightarrow> 'a \<Rightarrow> 'l \<times> bool"
  assumes push: "wf l \<Longrightarrow> wf (push l x) \<and>
      items (push l x) = (if length (items l) < capacity then items l @ [x] else items l)"
    and pop_Nil: "wf l \<Longrightarrow> items l = [] \<Longrightarrow> pop l = (l, None)"
    and pop_Cons: "wf l \<Longrightarrow> items l \<noteq> [] \<Longrightarrow>
      \<exists>l'. pop l = (l', Some (last (items l))) \<and> wf l' \<and> items l' = butlast (items l)"
    and remove_absent: "wf l \<Longrightarrow> x \<notin> set (items l) \<Longrightarrow> remove l x = (l, False)"
    and remove_present: "wf l \<Longrightarrow> x \<in> set (items l) \<Longrightarrow>
      \<exists>l'. remove l x = (l', True) \<and> wf l' \<and> mset (items l') = mset (items l) - {#x#}"
begin

lemma set_push:
  "wf l \<Longrightarrow> set (items (push l x)) = (if length (items l) < capacity then insert x (set (items l)) else set (items l))"
  by (simp add: push)

lemma distinct_push: "wf l \<Longrightarrow> distinct (items l) \<Longrightarrow> x \<notin> set (items l) \<Longrightarrow> distinct (items (push l x))"
  by (simp add: push)

lemma pop_None_iff: "wf l \<Longrightarrow> snd (pop l) = None \<longleftrightarrow> items l = []"
  using pop_Nil [of l] pop_Cons [of l] by (cases "items l = []") auto

lemma pop_SomeD:
  assumes "wf l" and "distinct (items l)" and "pop l = (l', Some x)"
  shows "wf l'" and "x \<in> set (items l)" and "set (items l') = set (items l) - {x}" and "distinct (items l')"
proof -
  have ne: "items l \<noteq> []" using assms(1,3) pop_Nil by force
  with assms pop_Cons have e: "x = last (items l)" "items l' = butlast (items l)" and "wf l'"
    by fastforce+
  then show "wf l'" by simp
  from ne e have split: "items l = items l' @ [x]" by simp
  with assms(2) show "x \<in> set (items l)" and "set (items l') = set (items l) - {x}" and "distinct (items l')"
    by auto
qed

lemma remove_TrueD:
  assumes "wf l" and "distinct (items l)" and "remove l x = (l', True)"
  shows "wf l'" and "x \<in> set (items l)" and "set (items l') = set (items l) - {x}" and "distinct (items l')"
proof -
  have mem: "x \<in> set (items l)" using assms(1,3) remove_absent by force
  then show "x \<in> set (items l)" .
  from remove_present [OF assms(1) mem] assms(3)
  have "wf l'" and m: "mset (items l') = mset (items l) - {#x#}" by auto
  then show "wf l'" by simp
  have r: "mset (items l') = mset (remove1 x (items l))" using m by simp
  from mset_eq_setD [OF r] show "set (items l') = set (items l) - {x}" using assms(2) by simp
  from mset_eq_imp_distinct_iff [OF r] show "distinct (items l')" using assms(2) by simp
qed

end

subsection \<open>The array implements the contract\<close>

definition fl_list :: "FreeList \<Rightarrow> FrameIndex list" where
  "fl_list fl = map (\<lambda>i. the (entries fl i)) [0..<count fl]"

definition fl_wf :: "FreeList \<Rightarrow> bool" where
  "fl_wf fl = (count fl \<le> FREE_LIST_LEN \<and> (\<forall>i < count fl. entries fl i \<noteq> None))"

lemma fl_list_length [simp]: "length (fl_list fl) = count fl"
  by (simp add: fl_list_def)

lemma fl_wf_new [simp]: "fl_wf fl_new" and fl_list_new [simp]: "fl_list fl_new = []"
  by (simp_all add: fl_wf_def fl_new_def fl_list_def)

lemma fl_push_spec:
  "fl_wf fl \<Longrightarrow> fl_wf (fl_push fl x) \<and>
     fl_list (fl_push fl x) = (if length (fl_list fl) < FREE_LIST_LEN then fl_list fl @ [x] else fl_list fl)"
  by (auto simp: fl_wf_def fl_push_def fl_list_def less_Suc_eq)

lemma fl_pop_spec:
  assumes "fl_wf fl" and "fl_list fl \<noteq> []"
  shows "\<exists>fl'. fl_pop fl = (fl', Some (last (fl_list fl))) \<and> fl_wf fl' \<and> fl_list fl' = butlast (fl_list fl)"
proof -
  from assms(2) obtain c where c: "count fl = Suc c"
    by (cases "count fl") (auto simp: fl_list_def)
  from assms(1) c obtain x where x: "entries fl c = Some x" by (fastforce simp: fl_wf_def)
  then show ?thesis using assms(1) c
    by (auto simp: fl_pop_def fl_wf_def fl_list_def)
qed

text \<open>What \<open>remove\<close> leaves after a hit at index \<open>k\<close>: the last entry moves into the gap.\<close>

definition fl_swap_remove :: "FreeList \<Rightarrow> nat \<Rightarrow> FreeList" where
  "fl_swap_remove fl k =
     fl\<lparr>entries := (entries fl)(count fl - 1 := None, k := entries fl (count fl - 1)),
        count := count fl - 1\<rparr>"

lemma fl_remove_from_absent:
  "\<forall>j. i \<le> j \<and> j < count fl \<longrightarrow> entries fl j \<noteq> Some x \<Longrightarrow> fl_remove_from fl x i = (fl, False)"
  by (induction fl x i rule: fl_remove_from.induct) (subst fl_remove_from.simps, auto)

lemma fl_remove_from_present:
  "\<exists>j. i \<le> j \<and> j < count fl \<and> entries fl j = Some x \<Longrightarrow>
   \<exists>k < count fl. entries fl k = Some x \<and> fl_remove_from fl x i = (fl_swap_remove fl k, True)"
proof (induction fl x i rule: fl_remove_from.induct)
  case (1 fl x i)
  then have lt: "i < count fl" by auto
  show ?case
  proof (cases "entries fl i = Some x")
    case True
    with lt show ?thesis
      by (intro exI [of _ i]) (simp add: fl_remove_from.simps [of fl x i] fl_swap_remove_def Let_def)
  next
    case False
    with "1.prems" have "\<exists>j. Suc i \<le> j \<and> j < count fl \<and> entries fl j = Some x"
      by (metis Suc_leI le_neq_implies_less)
    with "1.IH" lt False have "\<exists>k < count fl. entries fl k = Some x \<and>
        fl_remove_from fl x (Suc i) = (fl_swap_remove fl k, True)" by blast
    with lt False show ?thesis by (simp add: fl_remove_from.simps [of fl x i])
  qed
qed

lemma fl_swap_remove_spec:
  assumes "fl_wf fl" and "k < count fl" and "entries fl k = Some x"
  shows "fl_wf (fl_swap_remove fl k)" and "mset (fl_list (fl_swap_remove fl k)) = mset (fl_list fl) - {#x#}"
proof -
  show "fl_wf (fl_swap_remove fl k)" using assms by (auto simp: fl_wf_def fl_swap_remove_def)
  obtain c where c: "count fl = Suc c" using assms(2) by (cases "count fl") auto
  have last: "last (fl_list fl) = the (entries fl c)" by (simp add: fl_list_def c)
  have "fl_list (fl_swap_remove fl k) = butlast ((fl_list fl)[k := last (fl_list fl)])"
    unfolding last using assms(2) c
    by (intro nth_equalityI) (auto simp: fl_list_def fl_swap_remove_def nth_butlast nth_list_update simp del: upt_Suc)
  moreover have "fl_list fl ! k = x" and "k < length (fl_list fl)"
    using assms(2,3) by (simp_all add: fl_list_def)
  ultimately show "mset (fl_list (fl_swap_remove fl k)) = mset (fl_list fl) - {#x#}"
    using mset_swap_remove by metis
qed

lemma in_fl_list: "fl_wf fl \<Longrightarrow> x \<in> set (fl_list fl) \<longleftrightarrow> (\<exists>j < count fl. entries fl j = Some x)"
  by (force simp: fl_list_def fl_wf_def)

interpretation fl: free_list fl_wf fl_list FREE_LIST_LEN fl_push fl_pop fl_remove
proof unfold_locales
  fix l x
  show "fl_wf l \<Longrightarrow> fl_wf (fl_push l x) \<and> fl_list (fl_push l x) =
      (if length (fl_list l) < FREE_LIST_LEN then fl_list l @ [x] else fl_list l)"
    by (rule fl_push_spec)
  show "fl_wf l \<Longrightarrow> fl_list l = [] \<Longrightarrow> fl_pop l = (l, None)"
    by (simp add: fl_pop_def fl_list_def)
  show "fl_wf l \<Longrightarrow> fl_list l \<noteq> [] \<Longrightarrow>
      \<exists>l'. fl_pop l = (l', Some (last (fl_list l))) \<and> fl_wf l' \<and> fl_list l' = butlast (fl_list l)"
    by (rule fl_pop_spec)
  show "fl_wf l \<Longrightarrow> x \<notin> set (fl_list l) \<Longrightarrow> fl_remove l x = (l, False)"
    by (auto simp: fl_remove_def in_fl_list intro!: fl_remove_from_absent)
  show "fl_wf l \<Longrightarrow> x \<in> set (fl_list l) \<Longrightarrow> \<exists>l'. fl_remove l x = (l', True) \<and> fl_wf l' \<and>
      mset (fl_list l') = mset (fl_list l) - {#x#}"
    using fl_remove_from_present [of 0 l x] fl_swap_remove_spec [of l _ x]
    by (auto simp: fl_remove_def in_fl_list)
qed

subsection \<open>The bitmap\<close>

lemma is_frame_free_bit:
  "is_frame_free a x \<longleftrightarrow> x div 64 < BITMAP_LEN \<and> \<not> bit (bitmap a (x div 64)) (x mod 64)"
  by (auto simp: is_frame_free_def test_bit_zero_iff Let_def not_le)

lemma is_frame_free_mark_free:
  "is_frame_free (mark_frame_free f a) x \<longleftrightarrow> (x = f \<and> x div 64 < BITMAP_LEN) \<or> is_frame_free a x"
  by (auto simp: is_frame_free_bit mark_frame_free_def Let_def bit_clear_iff dest: div_mod_64_eq)

lemma is_frame_free_mark_used:
  "is_frame_free (mark_frame_used f a) x \<longleftrightarrow> x \<noteq> f \<and> is_frame_free a x"
  by (auto simp: is_frame_free_bit mark_frame_used_def Let_def bit_set_iff dest: div_mod_64_eq)

text \<open>Marking changes nothing but the bitmap.\<close>

lemma mark_frame_frame [simp]:
  "free_lists (mark_frame_free f a) = free_lists a" "total_frames (mark_frame_free f a) = total_frames a"
  "free_frames (mark_frame_free f a) = free_frames a"
  "free_lists (mark_frame_used f a) = free_lists a" "total_frames (mark_frame_used f a) = total_frames a"
  "free_frames (mark_frame_used f a) = free_frames a"
  by (simp_all add: mark_frame_free_def mark_frame_used_def Let_def)

lemma fold_frame:
  assumes "\<And>i a. p (g i a) = p a"
  shows "p (fold g is a) = p a"
  by (induction "is" arbitrary: a) (simp_all add: assms)

lemma fold_mark_frame [simp]:
  "free_lists (fold (\<lambda>i. mark_frame_free (f + i)) is a) = free_lists a"
  "total_frames (fold (\<lambda>i. mark_frame_free (f + i)) is a) = total_frames a"
  "free_frames (fold (\<lambda>i. mark_frame_free (f + i)) is a) = free_frames a"
  "free_lists (fold (\<lambda>i. mark_frame_used (f + i)) is a) = free_lists a"
  "total_frames (fold (\<lambda>i. mark_frame_used (f + i)) is a) = total_frames a"
  "free_frames (fold (\<lambda>i. mark_frame_used (f + i)) is a) = free_frames a"
  by (simp_all add: fold_frame)

lemma is_frame_free_fold_free:
  "is_frame_free (fold (\<lambda>i. mark_frame_free (f + i)) is a) x \<longleftrightarrow>
     (x \<in> (+) f ` set is \<and> x div 64 < BITMAP_LEN) \<or> is_frame_free a x"
  by (induction "is" arbitrary: a) (auto simp: is_frame_free_mark_free)

lemma is_frame_free_fold_used:
  "is_frame_free (fold (\<lambda>i. mark_frame_used (f + i)) is a) x \<longleftrightarrow>
     x \<notin> (+) f ` set is \<and> is_frame_free a x"
  by (induction "is" arbitrary: a) (auto simp: is_frame_free_mark_used)

subsection \<open>Blocks and buddies\<close>

definition blk :: "usize \<times> FrameIndex \<Rightarrow> nat set" where
  "blk b = {snd b ..< snd b + 2 ^ fst b}"

lemma blk_nonempty [simp]: "blk b \<noteq> {}"
  by (simp add: blk_def)

lemma finite_blk [simp]: "finite (blk b)" and card_blk [simp]: "card (blk b) = 2 ^ fst b"
  by (simp_all add: blk_def)

lemma blk_image: "(+) f ` set [0..<2 ^ order] = blk (order, f)"
  by (simp add: blk_def add.commute)

lemma blk_halves: "blk (Suc n, f) = blk (n, f) \<union> blk (n, f + 2 ^ n)"
  by (auto simp: blk_def)

lemma is_frame_free_cong: "bitmap a = bitmap a' \<Longrightarrow> is_frame_free a x = is_frame_free a' x"
  by (simp add: is_frame_free_def)

lemma mark_block_used:
  "is_frame_free (fold (\<lambda>i. mark_frame_used (f + i)) [0..<2 ^ n] a) x \<longleftrightarrow>
     x \<notin> blk (n, f) \<and> is_frame_free a x"
  unfolding is_frame_free_fold_used blk_image ..

lemma mark_block_free:
  "is_frame_free (fold (\<lambda>i. mark_frame_free (f + i)) [0..<2 ^ n] a) x \<longleftrightarrow>
     (x \<in> blk (n, f) \<and> x div 64 < BITMAP_LEN) \<or> is_frame_free a x"
  unfolding is_frame_free_fold_free blk_image ..

lemma buddy_push_bit: "buddy (2 ^ n * q) n = 2 ^ n * (q XOR 1)"
proof -
  have "buddy (2 ^ n * q) n = push_bit n q XOR push_bit n 1"
    by (simp add: buddy_def push_bit_eq_mult mult.commute)
  also have "\<dots> = push_bit n (q XOR 1)" by (simp only: push_bit_xor)
  finally show ?thesis by (simp only: push_bit_eq_mult mult.commute)
qed

lemma buddy_even: "2 ^ Suc n dvd f \<Longrightarrow> buddy f n = f + 2 ^ n"
proof -
  assume "2 ^ Suc n dvd f"
  then obtain q where f: "f = 2 ^ n * (2 * q)" by (auto elim: dvdE)
  show ?thesis unfolding f buddy_push_bit by (simp add: xor_Suc_0_eq)
qed

lemma buddy_odd:
  assumes "2 ^ n dvd f" and "\<not> 2 ^ Suc n dvd f"
  shows "f = buddy f n + 2 ^ n" and "2 ^ Suc n dvd buddy f n"
proof -
  obtain q where q: "f = 2 ^ n * q" using assms(1) by (auto elim: dvdE)
  have "odd q"
  proof
    assume "even q"
    then have "2 ^ n * 2 dvd 2 ^ n * q" by (rule mult_dvd_mono [OF dvd_refl])
    with assms(2) show False by (simp add: q mult.commute)
  qed
  then obtain r where r: "q = 2 * r + 1" by (auto elim: oddE)
  have b: "buddy f n = 2 ^ n * (2 * r)" unfolding q buddy_push_bit by (simp add: r xor_Suc_0_eq)
  show "f = buddy f n + 2 ^ n" unfolding b by (simp add: q r)
  show "2 ^ Suc n dvd buddy f n" unfolding b by simp
qed

text \<open>A block and its buddy are the two halves of the block one order up.\<close>

lemma buddy_union:
  assumes "2 ^ n dvd f"
  shows "blk (Suc n, min f (buddy f n)) = blk (n, f) \<union> blk (n, buddy f n)"
    and "2 ^ Suc n dvd min f (buddy f n)" and "blk (n, f) \<inter> blk (n, buddy f n) = {}"
proof -
  consider "2 ^ Suc n dvd f" | "\<not> 2 ^ Suc n dvd f" by blast
  then have "blk (Suc n, min f (buddy f n)) = blk (n, f) \<union> blk (n, buddy f n) \<and>
      2 ^ Suc n dvd min f (buddy f n) \<and> blk (n, f) \<inter> blk (n, buddy f n) = {}"
  proof cases
    case 1
    with buddy_even [OF 1] have "min f (buddy f n) = f" by simp
    moreover have "blk (Suc n, f) = blk (n, f) \<union> blk (n, f + 2 ^ n)" by (rule blk_halves)
    ultimately show ?thesis using 1 buddy_even [OF 1] by (auto simp: blk_def)
  next
    case 2
    note b = buddy_odd [OF assms 2]
    from b(1) have "min f (buddy f n) = buddy f n" by simp
    moreover have "blk (Suc n, buddy f n) = blk (n, buddy f n) \<union> blk (n, f)"
      using blk_halves [of n "buddy f n"] b(1) by simp
    moreover have "blk (n, f) \<inter> blk (n, buddy f n) = {}" using b(1) by (auto simp: blk_def)
    ultimately show ?thesis using b(2) by auto
  qed
  then show "blk (Suc n, min f (buddy f n)) = blk (n, f) \<union> blk (n, buddy f n)"
    and "2 ^ Suc n dvd min f (buddy f n)" and "blk (n, f) \<inter> blk (n, buddy f n) = {}" by auto
qed

subsection \<open>The invariant: free blocks are aligned, disjoint and marked free\<close>

definition blocks :: "BuddyFrameAllocator \<Rightarrow> (usize \<times> FrameIndex) set" where
  "blocks a = {(n, f). n \<le> MAX_ORDER \<and> f \<in> set (fl_list (free_lists a n))}"

definition free_set :: "BuddyFrameAllocator \<Rightarrow> nat set" where
  "free_set a = (\<Union>b \<in> blocks a. blk b)"

definition blocks_ok :: "BuddyFrameAllocator \<Rightarrow> bool" where
  "blocks_ok a =
     ((\<forall>n \<le> MAX_ORDER. fl_wf (free_lists a n) \<and> distinct (fl_list (free_lists a n))) \<and>
      (\<forall>(n, f) \<in> blocks a. 2 ^ n dvd f) \<and>
      disjoint_family_on blk (blocks a))"

definition bits_ok :: "BuddyFrameAllocator \<Rightarrow> bool" where
  "bits_ok a = (\<forall>x \<in> free_set a. x div 64 < BITMAP_LEN \<longrightarrow> is_frame_free a x)"

definition buddy_inv :: "BuddyFrameAllocator \<Rightarrow> bool" where
  "buddy_inv a = (blocks_ok a \<and> bits_ok a \<and> card (free_set a) \<le> free_frames a)"

lemma blocks_okD:
  assumes "blocks_ok a"
  shows "n \<le> MAX_ORDER \<Longrightarrow> fl_wf (free_lists a n)" and "n \<le> MAX_ORDER \<Longrightarrow> distinct (fl_list (free_lists a n))"
    and "(n, f) \<in> blocks a \<Longrightarrow> 2 ^ n dvd f"
    and "b \<in> blocks a \<Longrightarrow> b' \<in> blocks a \<Longrightarrow> b \<noteq> b' \<Longrightarrow> blk b \<inter> blk b' = {}"
  using assms by (auto simp: blocks_ok_def disjoint_family_on_def)

lemma blocks_okI:
  assumes "\<And>n. n \<le> MAX_ORDER \<Longrightarrow> fl_wf (free_lists a n) \<and> distinct (fl_list (free_lists a n))"
    and "\<And>n f. (n, f) \<in> blocks a \<Longrightarrow> 2 ^ n dvd f" and "disjoint_family_on blk (blocks a)"
  shows "blocks_ok a"
  using assms by (auto simp: blocks_ok_def)

lemma blocks_cong: "free_lists a = free_lists a' \<Longrightarrow> blocks a = blocks a'"
  by (simp add: blocks_def)

lemma blocks_ok_cong: "free_lists a = free_lists a' \<Longrightarrow> blocks_ok a = blocks_ok a'"
  by (simp add: blocks_ok_def blocks_def)

lemma free_set_cong: "free_lists a = free_lists a' \<Longrightarrow> free_set a = free_set a'"
  by (simp add: free_set_def blocks_def)

lemma finite_blocks [simp]: "finite (blocks a)"
proof -
  have "blocks a = (SIGMA n : {..MAX_ORDER}. set (fl_list (free_lists a n)))" by (auto simp: blocks_def)
  then show ?thesis by simp
qed

lemma finite_free_set [simp]: "finite (free_set a)"
  by (simp add: free_set_def)

text \<open>Replacing one list: the effect of a push, a pop and a removal on the set of blocks.\<close>

lemma blocks_upd:
  "n \<le> MAX_ORDER \<Longrightarrow> blocks (a\<lparr>free_lists := (free_lists a)(n := fl)\<rparr>) =
     {b \<in> blocks a. fst b \<noteq> n} \<union> Pair n ` set (fl_list fl)"
  by (auto simp: blocks_def split: if_splits)

lemma blocks_push:
  assumes "blocks_ok a" and "n \<le> MAX_ORDER"
  shows "blocks (a\<lparr>free_lists := (free_lists a)(n := fl_push (free_lists a n) f)\<rparr>) =
     (if count (free_lists a n) < FREE_LIST_LEN then insert (n, f) (blocks a) else blocks a)"
  using fl.set_push [OF blocks_okD(1) [OF assms]] assms(2)
  by (auto simp: blocks_upd) (auto simp: blocks_def)

lemma blocks_take:
  assumes "n \<le> MAX_ORDER" and "set (fl_list fl) = set (fl_list (free_lists a n)) - {f}"
  shows "blocks (a\<lparr>free_lists := (free_lists a)(n := fl)\<rparr>) = blocks a - {(n, f)}"
  unfolding blocks_upd [OF assms(1)] assms(2) using assms(1) by (auto simp: blocks_def)

lemma blocks_ok_push:
  assumes ok: "blocks_ok a" and n: "n \<le> MAX_ORDER" and al: "2 ^ n dvd f"
    and disj: "blk (n, f) \<inter> free_set a = {}"
  shows "blocks_ok (a\<lparr>free_lists := (free_lists a)(n := fl_push (free_lists a n) f)\<rparr>)"
proof -
  let ?a = "a\<lparr>free_lists := (free_lists a)(n := fl_push (free_lists a n) f)\<rparr>"
  have new: "(n, f) \<notin> blocks a"
    using disj blk_nonempty [of "(n, f)"] unfolding free_set_def by fast
  then have "distinct (fl_list (fl_push (free_lists a n) f))"
    using fl.distinct_push [OF blocks_okD(1,2) [OF ok n]] n by (simp add: blocks_def)
  moreover have "fl_wf (fl_push (free_lists a n) f)"
    using fl.push [OF blocks_okD(1) [OF ok n]] by simp
  moreover have sub: "blocks ?a \<subseteq> insert (n, f) (blocks a)" using blocks_push [OF ok n] by auto
  moreover have "blk (n, f) \<inter> (\<Union>b \<in> blocks a. blk b) = {}" using disj by (simp add: free_set_def)
  with ok new have "disjoint_family_on blk (insert (n, f) (blocks a))"
    by (simp add: blocks_ok_def disjoint_family_on_insert)
  with sub have "disjoint_family_on blk (blocks ?a)" by (rule disjoint_family_on_mono)
  ultimately show ?thesis
    using blocks_okD(1-3) [OF ok] al by (intro blocks_okI) auto
qed

lemma blocks_ok_take:
  assumes ok: "blocks_ok a" and n: "n \<le> MAX_ORDER" and "fl_wf fl" and "distinct (fl_list fl)"
    and "set (fl_list fl) = set (fl_list (free_lists a n)) - {f}" and mem: "(n, f) \<in> blocks a"
  shows "blocks_ok (a\<lparr>free_lists := (free_lists a)(n := fl)\<rparr>)"
    and "free_set (a\<lparr>free_lists := (free_lists a)(n := fl)\<rparr>) = free_set a - blk (n, f)"
    and "blk (n, f) \<subseteq> free_set a"
proof -
  let ?a = "a\<lparr>free_lists := (free_lists a)(n := fl)\<rparr>"
  have b: "blocks ?a = blocks a - {(n, f)}" using n assms(5) by (rule blocks_take)
  show "blocks_ok ?a"
  proof (rule blocks_okI)
    show "disjoint_family_on blk (blocks ?a)"
      unfolding b using ok by (auto simp: blocks_ok_def intro: disjoint_family_on_mono)
  qed (use ok assms(3,4) b in \<open>auto simp: blocks_okD\<close>)
  show "blk (n, f) \<subseteq> free_set a" using mem by (auto simp: free_set_def)
  have "blk b' \<inter> blk (n, f) = {}" if "b' \<in> blocks a - {(n, f)}" for b'
    using blocks_okD(4) [OF ok, of b' "(n, f)"] that mem by auto
  then have "blk (n, f) \<inter> free_set ?a = {}" unfolding free_set_def b by blast
  moreover have "free_set a = blk (n, f) \<union> free_set ?a"
    using mem unfolding free_set_def b by blast
  ultimately show "free_set ?a = free_set a - blk (n, f)" by (simp add: Un_Diff Diff_triv Int_commute)
qed

subsection \<open>Allocation\<close>

lemma free_set_push:
  assumes "blocks_ok a" and "n \<le> MAX_ORDER"
  shows "free_set (a\<lparr>free_lists := (free_lists a)(n := fl_push (free_lists a n) f)\<rparr>) =
     (if count (free_lists a n) < FREE_LIST_LEN then free_set a \<union> blk (n, f) else free_set a)"
  using blocks_push [OF assms] by (auto simp: free_set_def)

text \<open>
  Splitting pushes the upper halves onto the lists between the two orders. Those lists are empty
  when \<open>allocate_order\<close> calls it, so no half is dropped.
\<close>

lemma split_block_spec:
  assumes "blocks_ok a" and "to_order \<le> from" and "from \<le> MAX_ORDER" and "2 ^ from dvd f"
    and "blk (from, f) \<inter> free_set a = {}"
    and "\<forall>k. to_order \<le> k \<and> k < from \<longrightarrow> fl_list (free_lists a k) = []"
  shows "blocks_ok (split_block f from to_order a) \<and>
    free_set (split_block f from to_order a) = free_set a \<union> (blk (from, f) - blk (to_order, f)) \<and>
    bitmap (split_block f from to_order a) = bitmap a \<and>
    total_frames (split_block f from to_order a) = total_frames a \<and>
    free_frames (split_block f from to_order a) = free_frames a"
  using assms
proof (induction f "from" to_order a rule: split_block.induct)
  case (1 frame to_order a)
  then show ?case by (simp add: Un_absorb2)
next
  case (2 frame k to_order a)
  show ?case
  proof (cases "to_order < Suc k")
    case False
    with "2.prems" show ?thesis by (simp add: le_antisym)
  next
    case True
    let ?b = "a\<lparr>free_lists := (free_lists a)(k := fl_push (free_lists a k) (frame + 2 ^ k))\<rparr>"
    let ?a = "?b\<lparr>split_count := split_count a + 1\<rparr>"
    have k: "k \<le> MAX_ORDER" using "2.prems"(3) by simp
    have al: "2 ^ k dvd frame" using "2.prems"(4) by (rule dvd_trans [rotated]) simp
    have halves: "blk (Suc k, frame) = blk (k, frame) \<union> blk (k, frame + 2 ^ k)"
      "blk (k, frame) \<inter> blk (k, frame + 2 ^ k) = {}"
      by (rule blk_halves) (auto simp: blk_def)
    have upper: "blk (k, frame + 2 ^ k) \<inter> free_set a = {}" using "2.prems"(5) halves(1) by blast
    have room: "count (free_lists a k) < FREE_LIST_LEN"
      using "2.prems"(6) True by (simp add: fl_list_def FREE_LIST_LEN_def)
    have ok: "blocks_ok ?b"
      using al upper by (intro blocks_ok_push [OF "2.prems"(1) k]) (auto intro: dvd_add)
    then have ok': "blocks_ok ?a" by (subst blocks_ok_cong [of _ ?b]) simp_all
    have "free_set ?b = free_set a \<union> blk (k, frame + 2 ^ k)"
      using free_set_push [OF "2.prems"(1) k] room by simp
    then have fs: "free_set ?a = free_set a \<union> blk (k, frame + 2 ^ k)"
      by (subst free_set_cong [of _ ?b]) simp_all
    then have lower: "blk (k, frame) \<inter> free_set ?a = {}"
      using "2.prems"(5) halves by blast
    have empties: "\<forall>j. to_order \<le> j \<and> j < k \<longrightarrow> fl_list (free_lists ?a j) = []"
      using "2.prems"(6) by simp
    have "blk (to_order, frame) \<subseteq> blk (k, frame)"
      using True by (auto simp: blk_def intro: less_le_trans add_left_mono power_increasing)
    then have "blk (k, frame + 2 ^ k) \<union> (blk (k, frame) - blk (to_order, frame)) =
        blk (Suc k, frame) - blk (to_order, frame)"
      using halves by blast
    with "2.IH" [OF True ok' _ k al lower empties] True fs show ?thesis
      by (simp add: Un_assoc)
  qed
qed

lemma alloc_scan_None:
  assumes "blocks_ok a"
  shows "alloc_scan order cur a = (a', None) \<longleftrightarrow>
    a' = a \<and> (\<forall>n. cur \<le> n \<and> n \<le> MAX_ORDER \<longrightarrow> fl_list (free_lists a n) = [])"
  using assms
proof (induction order cur a rule: alloc_scan.induct)
  case (1 order cur a)
  show ?case
  proof (cases "cur \<le> MAX_ORDER")
    case False
    then show ?thesis by (auto simp: alloc_scan.simps [of order cur])
  next
    case True
    note wf = blocks_okD(1) [OF "1.prems" True]
    show ?thesis
    proof (cases "fl_list (free_lists a cur) = []")
      case nil: True
      then have p: "fl_pop (free_lists a cur) = (free_lists a cur, None)" by (rule fl.pop_Nil [OF wf])
      have "alloc_scan order cur a = alloc_scan order (Suc cur) a"
        using True p by (subst alloc_scan.simps) simp
      with "1.IH" [OF True p [symmetric] refl "1.prems"] nil show ?thesis
        by (metis Suc_leD Suc_leI le_neq_implies_less)
    next
      case False
      then obtain fl' where "fl_pop (free_lists a cur) = (fl', Some (last (fl_list (free_lists a cur))))"
        using fl.pop_Cons [OF wf] by blast
      with True False show ?thesis by (subst alloc_scan.simps) (auto simp: Let_def)
    qed
  qed
qed

lemma blk_sub: "m \<le> n \<Longrightarrow> blk (m, f) \<subseteq> blk (n, f)"
  by (auto simp: blk_def intro: less_le_trans add_left_mono power_increasing)

text \<open>One successful pop at order \<open>cur\<close>, split down to \<open>order\<close> and marked used.\<close>

lemma alloc_hit:
  assumes inv: "buddy_inv a" and ord: "order \<le> cur" "cur \<le> MAX_ORDER"
    and empties: "\<forall>k. order \<le> k \<and> k < cur \<longrightarrow> fl_list (free_lists a k) = []"
    and pop: "fl_pop (free_lists a cur) = (fl', Some f)"
    and a1: "a1 = split_block f cur order (a\<lparr>free_lists := (free_lists a)(cur := fl')\<rparr>)"
    and a2: "a2 = fold (\<lambda>i. mark_frame_used (f + i)) [0..<2 ^ order] a1"
    and a': "a' = a2\<lparr>free_frames := free_frames a2 - 2 ^ order\<rparr>"
  shows "buddy_inv a'" and "2 ^ order dvd f" and "blk (order, f) \<subseteq> free_set a"
    and "free_set a' = free_set a - blk (order, f)" and "free_frames a' + 2 ^ order = free_frames a"
    and "total_frames a' = total_frames a"
    and "is_frame_free a' x \<longleftrightarrow> x \<notin> blk (order, f) \<and> is_frame_free a x"
proof -
  from inv have ok: "blocks_ok a" and bits: "bits_ok a" and card: "card (free_set a) \<le> free_frames a"
    by (simp_all add: buddy_inv_def)
  let ?a0 = "a\<lparr>free_lists := (free_lists a)(cur := fl')\<rparr>"
  note popped = fl.pop_SomeD [OF blocks_okD(1,2) [OF ok ord(2)] pop]
  have mem: "(cur, f) \<in> blocks a" using popped(2) ord(2) by (simp add: blocks_def)
  note take = blocks_ok_take [OF ok ord(2) popped(1,4,3) mem]
  have al: "2 ^ cur dvd f" using blocks_okD(3) [OF ok mem] .
  with ord(1) show al': "2 ^ order dvd f" by (meson dvd_trans le_imp_power_dvd)
  have sub: "blk (order, f) \<subseteq> blk (cur, f)" by (rule blk_sub [OF ord(1)])
  with take(3) show in_free: "blk (order, f) \<subseteq> free_set a" by blast
  have "\<forall>k. order \<le> k \<and> k < cur \<longrightarrow> fl_list (free_lists ?a0 k) = []" using empties by simp
  with split_block_spec [OF take(1) ord al] take(2)
  have split: "blocks_ok a1" "free_set a1 = free_set ?a0 \<union> (blk (cur, f) - blk (order, f))"
    "bitmap a1 = bitmap a" "total_frames a1 = total_frames a" "free_frames a1 = free_frames a"
    unfolding a1 by auto
  have fl_a': "free_lists a' = free_lists a1" by (simp add: a' a2)
  have fs1: "free_set a1 = free_set a - blk (order, f)"
    using split(2) take(2,3) sub by blast
  then show fs: "free_set a' = free_set a - blk (order, f)"
    using free_set_cong [OF fl_a'] by simp
  have bit1: "is_frame_free a1 y = is_frame_free a y" for y
    by (rule is_frame_free_cong) (rule split(3))
  show bit: "is_frame_free a' x \<longleftrightarrow> x \<notin> blk (order, f) \<and> is_frame_free a x" for x
    using is_frame_free_cong [of a' a2 x] mark_block_used [of f order a1 x] by (simp add: a' a2 bit1)
  have "card (blk (order, f)) \<le> card (free_set a)" using in_free by (rule card_mono [OF finite_free_set])
  then have "2 ^ order \<le> free_frames a" using card by simp
  then show ff: "free_frames a' + 2 ^ order = free_frames a" by (simp add: a' a2 split(5))
  have "card (free_set a') = card (free_set a) - 2 ^ order"
    unfolding fs using in_free by (simp add: card_Diff_subset)
  then have "card (free_set a') \<le> free_frames a'" using ff card by simp
  moreover have "blocks_ok a'" using split(1) blocks_ok_cong [OF fl_a'] by simp
  moreover have "bits_ok a'" using bits by (auto simp: bits_ok_def bit fs)
  ultimately show "buddy_inv a'" by (simp add: buddy_inv_def)
  show "total_frames a' = total_frames a" by (simp add: a' a2 split(4))
qed

lemma alloc_scan_Some:
  assumes "buddy_inv a" and "order \<le> cur"
    and "\<forall>k. order \<le> k \<and> k < cur \<longrightarrow> fl_list (free_lists a k) = []"
    and "alloc_scan order cur a = (a', Some f)"
  shows "buddy_inv a' \<and> order \<le> MAX_ORDER \<and> 2 ^ order dvd f \<and> blk (order, f) \<subseteq> free_set a \<and>
    free_set a' = free_set a - blk (order, f) \<and> free_frames a' + 2 ^ order = free_frames a \<and>
    total_frames a' = total_frames a \<and>
    (\<forall>x. is_frame_free a' x \<longleftrightarrow> x \<notin> blk (order, f) \<and> is_frame_free a x)"
  using assms
proof (induction order cur a rule: alloc_scan.induct)
  case (1 order cur a)
  from "1.prems"(4) have cur: "cur \<le> MAX_ORDER"
    by (rule contrapos_pp) (simp add: alloc_scan.simps [of order cur])
  obtain fl' r where pop: "fl_pop (free_lists a cur) = (fl', r)" by fastforce
  have wf: "fl_wf (free_lists a cur)" using "1.prems"(1) cur by (simp add: buddy_inv_def blocks_okD)
  show ?case
  proof (cases r)
    case None
    with pop fl.pop_None_iff [OF wf] have "fl_list (free_lists a cur) = []" by simp
    with "1.prems"(3) have e: "\<forall>k. order \<le> k \<and> k < Suc cur \<longrightarrow> fl_list (free_lists a k) = []"
      by (auto simp: less_Suc_eq)
    have "alloc_scan order (Suc cur) a = (a', Some f)"
      using "1.prems"(4) cur pop None by (subst (asm) alloc_scan.simps) simp
    with "1.IH" [OF cur pop [symmetric] None "1.prems"(1) _ e] "1.prems"(2) show ?thesis by simp
  next
    case (Some g)
    with "1.prems"(4) cur pop have g: "g = f"
      and a': "a' = (fold (\<lambda>i. mark_frame_used (f + i)) [0..<2 ^ order]
          (split_block f cur order (a\<lparr>free_lists := (free_lists a)(cur := fl')\<rparr>)))
        \<lparr>free_frames := free_frames (fold (\<lambda>i. mark_frame_used (f + i)) [0..<2 ^ order]
          (split_block f cur order (a\<lparr>free_lists := (free_lists a)(cur := fl')\<rparr>))) - 2 ^ order\<rparr>"
      by (auto simp: alloc_scan.simps [of order cur] Let_def simp del: upt.simps)
    note hit = alloc_hit [OF "1.prems"(1,2) cur "1.prems"(3) pop [unfolded Some g] refl refl a']
    from hit "1.prems"(2) cur show ?thesis by auto
  qed
qed

lemma allocate_Some:
  assumes "buddy_inv a" and "allocate_order n a = (a', Some f)"
  shows "buddy_inv a'" and "n \<le> MAX_ORDER" and "2 ^ n dvd f" and "blk (n, f) \<subseteq> free_set a"
    and "free_set a' = free_set a - blk (n, f)" and "free_frames a' + 2 ^ n = free_frames a"
    and "total_frames a' = total_frames a"
    and "is_frame_free a' x \<longleftrightarrow> x \<notin> blk (n, f) \<and> is_frame_free a x"
proof -
  have "\<forall>k. n \<le> k \<and> k < n \<longrightarrow> fl_list (free_lists a k) = []" by auto
  from alloc_scan_Some [OF assms(1) le_refl this assms(2) [unfolded allocate_order_def]]
  show "buddy_inv a'" and "n \<le> MAX_ORDER" and "2 ^ n dvd f" and "blk (n, f) \<subseteq> free_set a"
    and "free_set a' = free_set a - blk (n, f)" and "free_frames a' + 2 ^ n = free_frames a"
    and "total_frames a' = total_frames a"
    and "is_frame_free a' x \<longleftrightarrow> x \<notin> blk (n, f) \<and> is_frame_free a x"
    by blast+
qed

subsection \<open>Release\<close>

definition lists_have_room :: "BuddyFrameAllocator \<Rightarrow> bool" where
  "lists_have_room a = (\<forall>n \<le> MAX_ORDER. count (free_lists a n) < FREE_LIST_LEN)"

lemma lists_have_room_code [code]:
  "lists_have_room a = list_all (\<lambda>n. count (free_lists a n) < FREE_LIST_LEN) [0..<Suc MAX_ORDER]"
  by (auto simp: lists_have_room_def list_all_iff simp del: upt_Suc)

text \<open>
  Every round of the loop replaces a block and its free buddy by their union; the last one is
  pushed. Only that push can be dropped, when the array of its order is full.
\<close>

lemma coalesce_done:
  assumes "blocks_ok a" and "n \<le> MAX_ORDER" and "2 ^ n dvd f" and "blk (n, f) \<inter> free_set a = {}"
    and "a' = a\<lparr>free_lists := (free_lists a)(n := fl_push (free_lists a n) f)\<rparr>"
  shows "blocks_ok a' \<and> free_set a' \<subseteq> free_set a \<union> blk (n, f) \<and>
    (lists_have_room a \<longrightarrow> free_set a' = free_set a \<union> blk (n, f)) \<and>
    bitmap a' = bitmap a \<and> total_frames a' = total_frames a \<and> free_frames a' = free_frames a"
  using blocks_ok_push [OF assms(1-4)] free_set_push [OF assms(1,2), of f] assms(2)
  unfolding assms(5) by (auto simp: lists_have_room_def)

lemma coalesce_spec:
  assumes "blocks_ok a" and "n \<le> MAX_ORDER" and "2 ^ n dvd f" and "blk (n, f) \<inter> free_set a = {}"
  shows "blocks_ok (coalesce f n a) \<and> free_set (coalesce f n a) \<subseteq> free_set a \<union> blk (n, f) \<and>
    (lists_have_room a \<longrightarrow> free_set (coalesce f n a) = free_set a \<union> blk (n, f)) \<and>
    bitmap (coalesce f n a) = bitmap a \<and> total_frames (coalesce f n a) = total_frames a \<and>
    free_frames (coalesce f n a) = free_frames a"
  using assms
proof (induction f n a rule: coalesce.induct)
  case (1 f n a)
  let ?done = "a\<lparr>free_lists := (free_lists a)(n := fl_push (free_lists a n) f)\<rparr>"
  let ?b = "buddy f n"
  obtain l r where rem: "fl_remove (free_lists a n) ?b = (l, r)" by fastforce
  show ?case
  proof (cases "n < MAX_ORDER \<and> is_buddy_free a ?b n \<and> r")
    case False
    then have "coalesce f n a = ?done"
      using rem by (subst coalesce.simps) (auto simp: Let_def)
    with coalesce_done [OF "1.prems" refl] show ?thesis by simp
  next
    case True
    let ?a1 = "a\<lparr>free_lists := (free_lists a)(n := l)\<rparr>"
    let ?a2 = "?a1\<lparr>coalesce_count := coalesce_count a + 1\<rparr>"
    let ?m = "if f < ?b then f else ?b"
    have step: "coalesce f n a = coalesce ?m (n + 1) ?a2"
      using True rem by (subst coalesce.simps) (simp add: Let_def)
    note ok = "1.prems"(1) and n = "1.prems"(2) and al = "1.prems"(3) and disj = "1.prems"(4)
    note taken = fl.remove_TrueD [OF blocks_okD(1,2) [OF ok n], of ?b l]
    have mem: "(n, ?b) \<in> blocks a" using taken(2) rem True n by (simp add: blocks_def)
    have l: "fl_wf l" "distinct (fl_list l)" "set (fl_list l) = set (fl_list (free_lists a n)) - {?b}"
      using taken rem True by simp_all
    note take = blocks_ok_take [OF ok n l mem]
    have ok2: "blocks_ok ?a2" using take(1) by (subst blocks_ok_cong [of _ ?a1]) simp_all
    have fs2: "free_set ?a2 = free_set a - blk (n, ?b)"
      using take(2) by (subst free_set_cong [of _ ?a1]) simp_all
    have m: "?m = min f ?b" by simp
    note un = buddy_union [OF al]
    have disj2: "blk (n + 1, ?m) \<inter> free_set ?a2 = {}"
      unfolding m fs2 using un(1) disj by auto
    have room: "lists_have_room ?a2" if "lists_have_room a"
    proof -
      have "length (fl_list l) < Suc (length (fl_list (free_lists a n)))"
        using l(2,3) blocks_okD(2) [OF ok n] by (metis card_mono distinct_card finite_set Diff_subset le_imp_less_Suc)
      with that n show ?thesis by (fastforce simp: lists_have_room_def)
    qed
    have "blocks_ok (coalesce ?m (n + 1) ?a2) \<and>
        free_set (coalesce ?m (n + 1) ?a2) \<subseteq> free_set ?a2 \<union> blk (n + 1, ?m) \<and>
        (lists_have_room ?a2 \<longrightarrow> free_set (coalesce ?m (n + 1) ?a2) = free_set ?a2 \<union> blk (n + 1, ?m)) \<and>
        bitmap (coalesce ?m (n + 1) ?a2) = bitmap ?a2 \<and>
        total_frames (coalesce ?m (n + 1) ?a2) = total_frames ?a2 \<and>
        free_frames (coalesce ?m (n + 1) ?a2) = free_frames ?a2"
      using True rem un(2) ok2 disj2 m by (intro "1.IH") auto
    moreover have "free_set ?a2 \<union> blk (n + 1, ?m) = free_set a \<union> blk (n, f)"
      unfolding m fs2 using un(1) take(3) by auto
    ultimately show ?thesis using room unfolding step by simp
  qed
qed

lemma deallocate_spec:
  assumes inv: "buddy_inv a" and n: "n \<le> MAX_ORDER" and al: "2 ^ n dvd f"
    and disj: "blk (n, f) \<inter> free_set a = {}"
  shows "buddy_inv (deallocate_order n f a)"
    and "free_set (deallocate_order n f a) \<subseteq> free_set a \<union> blk (n, f)"
    and "lists_have_room a \<Longrightarrow> free_set (deallocate_order n f a) = free_set a \<union> blk (n, f)"
    and "free_frames (deallocate_order n f a) = free_frames a + 2 ^ n"
    and "is_frame_free (deallocate_order n f a) x \<longleftrightarrow>
      (x \<in> blk (n, f) \<and> x div 64 < BITMAP_LEN) \<or> is_frame_free a x"
proof -
  let ?a1 = "fold (\<lambda>i. mark_frame_free (f + i)) [0..<2 ^ n] a"
  let ?a2 = "?a1\<lparr>free_frames := free_frames ?a1 + 2 ^ n\<rparr>"
  let ?d = "deallocate_order n f a"
  have d: "?d = coalesce f n ?a2" by (simp add: deallocate_order_def Let_def)
  have fl: "free_lists ?a2 = free_lists a" by simp
  from inv have "blocks_ok a" by (simp add: buddy_inv_def)
  then have ok: "blocks_ok ?a2" using blocks_ok_cong [OF fl] by simp
  have fs: "free_set ?a2 = free_set a" by (rule free_set_cong [OF fl])
  have room: "lists_have_room ?a2 = lists_have_room a" by (simp add: lists_have_room_def)
  note c = coalesce_spec [OF ok n al disj [folded fs]]
  show bit: "is_frame_free ?d x \<longleftrightarrow> (x \<in> blk (n, f) \<and> x div 64 < BITMAP_LEN) \<or> is_frame_free a x" for x
  proof -
    have "is_frame_free ?d x = is_frame_free ?a1 x"
      using c unfolding d by (intro is_frame_free_cong) simp
    then show ?thesis by (simp only: mark_block_free)
  qed
  show sub: "free_set ?d \<subseteq> free_set a \<union> blk (n, f)" using c unfolding d fs by simp
  show "lists_have_room a \<Longrightarrow> free_set ?d = free_set a \<union> blk (n, f)"
    using c unfolding d fs room by simp
  show ff: "free_frames ?d = free_frames a + 2 ^ n" using c unfolding d by simp
  have "card (free_set ?d) \<le> card (free_set a \<union> blk (n, f))" using sub by (intro card_mono) auto
  also have "\<dots> \<le> card (free_set a) + 2 ^ n" using card_Un_le [of "free_set a" "blk (n, f)"] by simp
  finally have "card (free_set ?d) \<le> free_frames ?d" using inv ff by (simp add: buddy_inv_def)
  moreover have "bits_ok ?d"
    using sub inv unfolding bits_ok_def buddy_inv_def bit by blast
  moreover have "blocks_ok ?d" using c unfolding d by simp
  ultimately show "buddy_inv ?d" by (simp add: buddy_inv_def)
qed

text \<open>The buddy allocator is a frame pool.\<close>

interpretation buddy_pool: frame_pool buddy_inv "\<lambda>_. True" free_set "\<lambda>n f. blk (n, f)"
  "\<lambda>n f. n \<le> MAX_ORDER \<and> 2 ^ n dvd f" allocate_order deallocate_order
proof unfold_locales
  fix s s' r f
  assume inv: "buddy_inv s"
  show "buddy_inv s' \<and> (r \<le> MAX_ORDER \<and> 2 ^ r dvd f) \<and> blk (r, f) \<subseteq> free_set s \<and>
      free_set s' \<subseteq> free_set s - blk (r, f)" if "allocate_order r s = (s', Some f)"
    using allocate_Some [OF inv that] by simp
  show "s' = s" if "allocate_order r s = (s', None)"
    using that inv alloc_scan_None [of s r r s'] by (simp add: allocate_order_def buddy_inv_def)
  show "buddy_inv (deallocate_order r f s) \<and> free_set (deallocate_order r f s) \<subseteq> free_set s \<union> blk (r, f)"
    if "r \<le> MAX_ORDER \<and> 2 ^ r dvd f" and "blk (r, f) \<inter> free_set s = {}"
    using deallocate_spec(1,2) [OF inv] that by simp
qed

subsection \<open>Registration\<close>

lemma region_order_props:
  assumes "c < e"
  shows "region_order c e \<le> MAX_ORDER" and "2 ^ region_order c e dvd c"
    and "c + 2 ^ region_order c e \<le> e"
proof -
  have "region_order c e \<le> ctz c" and "region_order c e \<le> bit_width (e - c) - 1"
    and "region_order c e \<le> MAX_ORDER"
    by (simp_all add: region_order_def Let_def)
  moreover from this(2) have "2 ^ region_order c e \<le> e - c"
    using assms by (intro le_bit_width_power) simp
  ultimately show "region_order c e \<le> MAX_ORDER" and "2 ^ region_order c e dvd c"
    and "c + 2 ^ region_order c e \<le> e"
    using assms by (auto intro: ctz_le_dvd)
qed

lemma count_push: "count l \<le> count (fl_push l x)"
  by (simp add: fl_push_def)

lemma add_region_count: "count (free_lists a n) \<le> count (free_lists (add_region c e a) n)"
proof (induction c e a rule: add_region.induct)
  case (1 c e a)
  show ?case
  proof (cases "c < e")
    case True
    let ?o = "region_order c e"
    let ?a1 = "a\<lparr>free_lists := (free_lists a)(?o := fl_push (free_lists a ?o) c), free_frames := free_frames a + 2 ^ ?o\<rparr>"
    have "count (free_lists a n) \<le> count (free_lists ?a1 n)" by (simp add: count_push)
    with "1.IH" [OF True refl refl refl] True show ?thesis
      by (subst add_region.simps) (simp add: Let_def del: upt.simps)
  next
    case False
    then show ?thesis by (subst add_region.simps) simp
  qed
qed

text \<open>One block of a region: pushed, counted and marked free.\<close>

lemma add_block:
  assumes inv: "buddy_inv a" and n: "n \<le> MAX_ORDER" and al: "2 ^ n dvd c"
    and disj: "blk (n, c) \<inter> free_set a = {}"
    and a1: "a1 = a\<lparr>free_lists := (free_lists a)(n := fl_push (free_lists a n) c), free_frames := free_frames a + 2 ^ n\<rparr>"
    and a2: "a2 = fold (\<lambda>i. mark_frame_free (c + i)) [0..<2 ^ n] a1"
  shows "buddy_inv a2" and "free_set a2 \<subseteq> free_set a \<union> blk (n, c)"
    and "count (free_lists a2 n) < FREE_LIST_LEN \<Longrightarrow> free_set a2 = free_set a \<union> blk (n, c)"
    and "is_frame_free a2 x \<longleftrightarrow> (x \<in> blk (n, c) \<and> x div 64 < BITMAP_LEN) \<or> is_frame_free a x"
    and "free_frames a2 = free_frames a + 2 ^ n"
proof -
  let ?p = "a\<lparr>free_lists := (free_lists a)(n := fl_push (free_lists a n) c)\<rparr>"
  from inv have ok: "blocks_ok a" and bits: "bits_ok a" by (simp_all add: buddy_inv_def)
  have fl: "free_lists a2 = free_lists ?p" by (simp add: a2 a1)
  have fs: "free_set a2 = free_set ?p" by (rule free_set_cong [OF fl])
  show bit: "is_frame_free a2 x \<longleftrightarrow> (x \<in> blk (n, c) \<and> x div 64 < BITMAP_LEN) \<or> is_frame_free a x" for x
    unfolding a2 mark_block_free using is_frame_free_cong [of a1 a x] by (simp add: a1)
  show sub: "free_set a2 \<subseteq> free_set a \<union> blk (n, c)"
    unfolding fs using free_set_push [OF ok n, of c] by auto
  show "free_set a2 = free_set a \<union> blk (n, c)" if "count (free_lists a2 n) < FREE_LIST_LEN"
    using that count_push [of "free_lists a n" c] free_set_push [OF ok n, of c] unfolding fs fl by simp
  show ff: "free_frames a2 = free_frames a + 2 ^ n" by (simp add: a2 a1)
  have "card (free_set a2) \<le> card (free_set a \<union> blk (n, c))" using sub by (intro card_mono) auto
  also have "\<dots> \<le> card (free_set a) + 2 ^ n" using card_Un_le [of "free_set a" "blk (n, c)"] by simp
  finally have "card (free_set a2) \<le> free_frames a2" using inv ff by (simp add: buddy_inv_def)
  moreover have "blocks_ok a2" using blocks_ok_push [OF ok n al disj] blocks_ok_cong [OF fl] by simp
  moreover have "bits_ok a2" using sub bits unfolding bits_ok_def bit by blast
  ultimately show "buddy_inv a2" by (simp add: buddy_inv_def)
qed

lemma add_region_spec:
  assumes "buddy_inv a" and "{c..<e} \<inter> free_set a = {}"
  shows "buddy_inv (add_region c e a) \<and> free_set (add_region c e a) \<subseteq> free_set a \<union> {c..<e} \<and>
    (lists_have_room (add_region c e a) \<longrightarrow> free_set (add_region c e a) = free_set a \<union> {c..<e}) \<and>
    free_frames (add_region c e a) = free_frames a + (e - c) \<and>
    (\<forall>x. is_frame_free (add_region c e a) x \<longleftrightarrow>
       (x \<in> {c..<e} \<and> x div 64 < BITMAP_LEN) \<or> is_frame_free a x)"
  using assms
proof (induction c e a rule: add_region.induct)
  case (1 c e a)
  show ?case
  proof (cases "c < e")
    case False
    then show ?thesis using "1.prems" by (subst (1 2 3 4 5 6) add_region.simps) simp
  next
    case True
    let ?n = "region_order c e"
    note r = region_order_props [OF True]
    let ?a1 = "a\<lparr>free_lists := (free_lists a)(?n := fl_push (free_lists a ?n) c), free_frames := free_frames a + 2 ^ ?n\<rparr>"
    let ?a2 = "fold (\<lambda>i. mark_frame_free (c + i)) [0..<2 ^ ?n] ?a1"
    have step: "add_region c e a = add_region (c + 2 ^ ?n) e ?a2"
      using True by (subst add_region.simps) (simp add: Let_def del: upt.simps)
    have un: "{c..<e} = blk (?n, c) \<union> {c + 2 ^ ?n..<e}"
      using r(3) by (auto simp: blk_def)
    have d: "blk (?n, c) \<inter> free_set a = {}" using "1.prems"(2) un by blast
    note b = add_block [OF "1.prems"(1) r(1,2) d refl refl]
    have "{c + 2 ^ ?n..<e} \<inter> blk (?n, c) = {}" by (auto simp: blk_def)
    then have "{c + 2 ^ ?n..<e} \<inter> free_set ?a2 = {}" using b(2) "1.prems"(2) un by blast
    note IH = "1.IH" [OF True refl refl refl b(1) this]
    have "free_set ?a2 = free_set a \<union> blk (?n, c)" if "lists_have_room (add_region c e a)"
    proof (rule b(3))
      show "count (free_lists ?a2 ?n) < FREE_LIST_LEN"
        using that r(1) add_region_count [of ?a2 ?n "c + 2 ^ ?n" e] unfolding step lists_have_room_def
        by (meson le_less_trans)
    qed
    moreover have "2 ^ ?n + (e - (c + 2 ^ ?n)) = e - c" using r(3) by simp
    ultimately show ?thesis
      using IH b(2) unfolding step un b(4) b(5) by auto
  qed
qed

definition regions_disjoint :: "(u64 \<times> u64) list \<Rightarrow> bool" where
  "regions_disjoint = sorted_wrt (\<lambda>r r'. {region_start r..<region_end r} \<inter> {region_start r'..<region_end r'} = {})"

definition region_frames :: "(u64 \<times> u64) list \<Rightarrow> FrameIndex set" where
  "region_frames rs = (\<Union>r \<in> set rs. {region_start r..<region_end r})"

lemma region_frames_simps [simp]:
  "region_frames [] = {}"
  "region_frames (r # rs) = {region_start r..<region_end r} \<union> region_frames rs"
  by (simp_all add: region_frames_def)

lemma regions_disjoint_Cons:
  "regions_disjoint (r # rs) \<longleftrightarrow>
     {region_start r..<region_end r} \<inter> region_frames rs = {} \<and> regions_disjoint rs"
  unfolding regions_disjoint_def region_frames_def sorted_wrt.simps by blast

definition add_regions :: "(u64 \<times> u64) list \<Rightarrow> BuddyFrameAllocator \<Rightarrow> BuddyFrameAllocator" where
  "add_regions = fold (\<lambda>r. add_region (region_start r) (region_end r))"

lemma add_regions_simps [simp]:
  "add_regions [] a = a"
  "add_regions (r # rs) a = add_regions rs (add_region (region_start r) (region_end r) a)"
  by (simp_all add: add_regions_def)

lemma init_fold:
  "fold (\<lambda>r (a, total). (add_region (region_start r) (region_end r) a, max total (region_end r))) rs (a, t) =
     (add_regions rs a, fold max (map region_end rs) t)"
  by (induction rs arbitrary: a t) (simp_all add: max.commute)

lemma add_regions_count: "count (free_lists a n) \<le> count (free_lists (add_regions rs a) n)"
  by (induction rs arbitrary: a) (auto intro: add_region_count le_trans)

lemma room_mono:
  "lists_have_room (add_regions rs a) \<Longrightarrow> lists_have_room a"
  unfolding lists_have_room_def by (meson add_regions_count le_less_trans)

lemma add_regions_spec:
  assumes "buddy_inv a" and "region_frames rs \<inter> free_set a = {}" and "regions_disjoint rs"
  shows "buddy_inv (add_regions rs a) \<and> free_set (add_regions rs a) \<subseteq> free_set a \<union> region_frames rs \<and>
    (lists_have_room (add_regions rs a) \<longrightarrow> free_set (add_regions rs a) = free_set a \<union> region_frames rs) \<and>
    free_frames (add_regions rs a) = free_frames a + (\<Sum>r \<leftarrow> rs. region_end r - region_start r) \<and>
    (\<forall>x. is_frame_free (add_regions rs a) x \<longleftrightarrow>
       (x \<in> region_frames rs \<and> x div 64 < BITMAP_LEN) \<or> is_frame_free a x)"
  using assms
proof (induction rs arbitrary: a)
  case Nil
  then show ?case by simp
next
  case (Cons r rs)
  let ?a = "add_region (region_start r) (region_end r) a"
  from Cons.prems(2) have "{region_start r..<region_end r} \<inter> free_set a = {}" by auto
  note one = add_region_spec [OF Cons.prems(1) this]
  from Cons.prems(3) have d: "{region_start r..<region_end r} \<inter> region_frames rs = {}" and "regions_disjoint rs"
    by (simp_all add: regions_disjoint_Cons)
  have "region_frames rs \<inter> free_set ?a = {}" using one d Cons.prems(2) by auto
  note IH = Cons.IH [OF conjunct1 [OF one] this \<open>regions_disjoint rs\<close>]
  have "lists_have_room (add_regions rs ?a) \<longrightarrow> free_set ?a = free_set a \<union> {region_start r..<region_end r}"
    using one room_mono by blast
  with IH one show ?case by auto
qed

lemma all_used_inv: "buddy_inv (buddy_new\<lparr>bitmap := (\<lambda>_. - 1)\<rparr>)"
  and all_used_free: "free_set (buddy_new\<lparr>bitmap := (\<lambda>_. - 1)\<rparr>) = {}"
  by (simp_all add: buddy_inv_def blocks_ok_def bits_ok_def free_set_def blocks_def buddy_new_def disjoint_family_on_def)

lemma all_used_bits: "\<not> is_frame_free (buddy_new\<lparr>bitmap := (\<lambda>_. - 1)\<rparr>) x"
  by (simp add: is_frame_free_bit)

lemma buddy_init_eq:
  "buddy_init rs buddy_new = (add_regions rs (buddy_new\<lparr>bitmap := (\<lambda>_. - 1)\<rparr>))\<lparr>total_frames := fold max (map region_end rs) 0\<rparr>"
  by (simp add: buddy_init_def init_fold)

lemma total_frames_frame:
  "buddy_inv (a\<lparr>total_frames := t\<rparr>) = buddy_inv a" "free_set (a\<lparr>total_frames := t\<rparr>) = free_set a"
  "lists_have_room (a\<lparr>total_frames := t\<rparr>) = lists_have_room a"
  "is_frame_free (a\<lparr>total_frames := t\<rparr>) x = is_frame_free a x"
  using blocks_ok_cong [of "a\<lparr>total_frames := t\<rparr>" a] free_set_cong [of "a\<lparr>total_frames := t\<rparr>" a]
    is_frame_free_cong [of "a\<lparr>total_frames := t\<rparr>" a]
  by (simp_all add: buddy_inv_def lists_have_room_def bits_ok_def)

lemma buddy_init_spec:
  assumes "regions_disjoint rs"
  shows "buddy_inv (buddy_init rs buddy_new)" and "free_set (buddy_init rs buddy_new) \<subseteq> region_frames rs"
    and "lists_have_room (buddy_init rs buddy_new) \<Longrightarrow> free_set (buddy_init rs buddy_new) = region_frames rs"
    and "free_frames (buddy_init rs buddy_new) = (\<Sum>r \<leftarrow> rs. region_end r - region_start r)"
    and "is_frame_free (buddy_init rs buddy_new) x \<longleftrightarrow> x \<in> region_frames rs \<and> x div 64 < BITMAP_LEN"
  using add_regions_spec [OF all_used_inv _ assms]
  by (auto simp: buddy_init_eq total_frames_frame all_used_free all_used_bits) (simp_all add: buddy_new_def)

subsection \<open>Properties\<close>

text \<open>A sixteen-kilobyte machine, for the concrete instances.\<close>

definition small_boot :: BuddyFrameAllocator where
  "small_boot = buddy_init [(0, 16384)] buddy_new"

lemma small_boot_inv: "buddy_inv small_boot"
  unfolding small_boot_def by (rule buddy_init_spec(1)) (simp add: regions_disjoint_def)

lemma small_boot_alloc: "allocate_order 1 small_boot = (fst (allocate_order 1 small_boot), Some 0)"
proof -
  have "snd (allocate_order 1 small_boot) = Some 0" by code_simp
  then show ?thesis by (simp add: prod_eq_iff)
qed

text \<open>
  C1: Boot the allocator with any list of disjoint usable regions and drive it by any sequence of
  allocations and releases of held blocks, of any orders: no two blocks that are handed out at
  the same time share a frame, whatever splitting, coalescing and dropping happened between.
\<close>

theorem buddy_requests_disjoint:
  assumes "regions_disjoint rs"
  shows "ledger_disjoint (\<lambda>n f. {f..<f + 2 ^ n})
    (snd (pool_run allocate_order deallocate_order (buddy_init rs buddy_new, []) qs))"
  using buddy_pool.run_disjoint [OF buddy_init_spec(1) [OF assms] request_ok_True, of qs] by (simp add: blk_def)

theorem buddy_requests_disjoint_witness:
  "ledger_disjoint (\<lambda>n f. {f..<f + 2 ^ n})
    (snd (pool_run allocate_order deallocate_order
       (buddy_init [(0, 16384), (32768, 8192)] buddy_new, []) [Alloc 1, Alloc 0, Free 1 0, Alloc 1]))"
  by (rule buddy_requests_disjoint)
    (simp add: regions_disjoint_def region_start_def region_end_def from_phys_addr_def PAGE_SIZE_4K_def wadd64_def U64_MOD_def)

text \<open>
  C2: \<open>allocate_order\<close> on a well-formed allocator. It fails exactly when every list of the
  requested order and above is empty, and then changes nothing. Otherwise it returns a block
  aligned to its size, all of whose frames were free; the free frames left are exactly the others
  (the halves split off are all kept), the bitmap and the counter record exactly that block, the
  counter does not wrap below zero, and the invariant is kept.
\<close>

theorem allocate_order_exact:
  assumes "buddy_inv a"
  shows "case allocate_order n a of
      (a', None) \<Rightarrow> a' = a \<and> (\<forall>k. n \<le> k \<and> k \<le> MAX_ORDER \<longrightarrow> fl_is_empty (free_lists a k))
    | (a', Some f) \<Rightarrow>
        n \<le> MAX_ORDER \<and> 2 ^ n dvd f \<and> {f..<f + 2 ^ n} \<subseteq> free_set a \<and>
        free_set a' = free_set a - {f..<f + 2 ^ n} \<and>
        (\<forall>x. is_frame_free a' x \<longleftrightarrow> x \<notin> {f..<f + 2 ^ n} \<and> is_frame_free a x) \<and>
        free_frames a' + 2 ^ n = free_frames a \<and> buddy_inv a'"
proof (cases "allocate_order n a")
  case (Pair a' r)
  show ?thesis
  proof (cases r)
    case None
    have "blocks_ok a" using assms by (simp add: buddy_inv_def)
    with Pair None alloc_scan_None [of a n n a'] show ?thesis
      by (auto simp: allocate_order_def fl_is_empty_def fl_list_def)
  next
    case (Some f)
    with Pair allocate_Some [OF assms, of n a' f] show ?thesis by (auto simp: blk_def)
  qed
qed

theorem allocate_order_exact_witness:
  "\<exists>a'. allocate_order 1 small_boot = (a', Some 0) \<and> {0..<2} \<subseteq> free_set small_boot \<and>
     free_set a' = free_set small_boot - {0..<2} \<and> buddy_inv a'"
  using allocate_order_exact [OF small_boot_inv, of 1] small_boot_alloc
  by (cases "allocate_order 1 small_boot") auto

text \<open>
  C3: \<open>deallocate_order\<close> gives back exactly the released block: merging with free buddies loses
  and invents no frame, the block's frames are marked free and counted, and the invariant is kept.
  When a free list is full the frames may be lost, but never is a frame free that was not
  before or released now.
\<close>

theorem deallocate_order_exact:
  assumes "buddy_inv a" and "n \<le> MAX_ORDER" and "2 ^ n dvd f" and "{f..<f + 2 ^ n} \<inter> free_set a = {}"
  shows "buddy_inv (deallocate_order n f a) \<and>
    free_set (deallocate_order n f a) \<subseteq> free_set a \<union> {f..<f + 2 ^ n} \<and>
    (lists_have_room a \<longrightarrow> free_set (deallocate_order n f a) = free_set a \<union> {f..<f + 2 ^ n}) \<and>
    free_frames (deallocate_order n f a) = free_frames a + 2 ^ n \<and>
    (\<forall>x. is_frame_free (deallocate_order n f a) x \<longleftrightarrow>
      (x \<in> {f..<f + 2 ^ n} \<and> x div 64 < BITMAP_LEN) \<or> is_frame_free a x)"
  using deallocate_spec [OF assms(1-3)] assms(4) by (simp_all add: blk_def)

theorem deallocate_order_exact_witness:
  "free_set (deallocate_order 1 0 (fst (allocate_order 1 small_boot))) =
     free_set (fst (allocate_order 1 small_boot)) \<union> {0..<2}"
proof -
  note al = allocate_Some [OF small_boot_inv small_boot_alloc]
  have "lists_have_room (fst (allocate_order 1 small_boot))" by code_simp
  moreover have "{0..<0 + 2 ^ 1} \<inter> free_set (fst (allocate_order 1 small_boot)) = {}"
    using al(5) by (auto simp: blk_def)
  ultimately show ?thesis using deallocate_order_exact [OF al(1-3)] by (simp add: numeral_2_eq_2)
qed

text \<open>
  C4: Initialisation from disjoint regions: the invariant holds, only frames of the regions are
  free, all of them unless a free list ran full, the bitmap marks free exactly the frames of
  the regions that it can represent, and the counter counts every frame of the regions.
\<close>

theorem buddy_init_exact:
  assumes "regions_disjoint rs"
  shows "buddy_inv (buddy_init rs buddy_new) \<and>
    free_set (buddy_init rs buddy_new) \<subseteq> region_frames rs \<and>
    (lists_have_room (buddy_init rs buddy_new) \<longrightarrow> free_set (buddy_init rs buddy_new) = region_frames rs) \<and>
    (\<forall>x. is_frame_free (buddy_init rs buddy_new) x \<longleftrightarrow> x \<in> region_frames rs \<and> x div 64 < BITMAP_LEN) \<and>
    free_frames (buddy_init rs buddy_new) = (\<Sum>r \<leftarrow> rs. region_end r - region_start r)"
  using buddy_init_spec [OF assms] by blast

theorem buddy_init_exact_witness:
  "regions_disjoint [(0, 16384), (32768, 8192)] \<and>
   free_set (buddy_init [(0, 16384), (32768, 8192)] buddy_new) = {0..<4} \<union> {8..<10}"
proof -
  have d: "regions_disjoint [(0, 16384), (32768, 8192)]"
    by (simp add: regions_disjoint_def region_start_def region_end_def from_phys_addr_def PAGE_SIZE_4K_def wadd64_def U64_MOD_def)
  have "lists_have_room (buddy_init [(0, 16384), (32768, 8192)] buddy_new)" by code_simp
  with d buddy_init_exact [OF d] show ?thesis
    by (simp add: region_start_def region_end_def from_phys_addr_def PAGE_SIZE_4K_def wadd64_def U64_MOD_def)
qed

text \<open>
  Allocating a block and releasing it again restores the allocator's free frames, its bitmap
  and its counter, provided the lists have room.
\<close>

lemma allocate_deallocate_roundtrip:
  assumes "buddy_inv a" and "allocate_order n a = (a', Some f)" and "lists_have_room a'"
  shows "free_set (deallocate_order n f a') = free_set a \<and>
    (\<forall>x. x div 64 < BITMAP_LEN \<longrightarrow> is_frame_free (deallocate_order n f a') x = is_frame_free a x) \<and>
    free_frames (deallocate_order n f a') = free_frames a"
proof -
  note al = allocate_Some [OF assms(1,2)]
  have "blk (n, f) \<inter> free_set a' = {}" using al(5) by auto
  note d = deallocate_spec [OF al(1-3) this]
  have "is_frame_free a x" if "x \<in> blk (n, f)" "x div 64 < BITMAP_LEN" for x
    using assms(1) al(4) that by (auto simp: buddy_inv_def bits_ok_def)
  then show ?thesis using d(3) [OF assms(3)] d(4,5) al(4,5,6,8) by auto
qed

end
