(* ===== verification/Frames.thy ===== *)
theory Frames
  imports Buddy
begin

text \<open>
  The bitmap frame allocator, \<open>src/src/mm/frame_allocator.rs\<close>, and the front over both
  allocators, \<open>UnifiedFrameAllocator\<close> of \<open>src/src/mm/mod.rs\<close>: the buddy allocator first, the
  bitmap allocator when it fails, and release routed by address. The page-size constants and the
  frame-number conversions repeat those of the buddy allocator in the source and are shared here.
\<close>

subsection \<open>The bitmap allocator\<close>

record BitmapFrameAllocator =
  bm_bitmap :: "nat \<Rightarrow> bits64"
  bm_total_frames :: usize
  bm_free_frames :: u64
  bm_next_free_hint :: u64

definition BITMAP_WORDS :: usize where "BITMAP_WORDS = MAX_4K_FRAMES div 64"

definition bm_new :: BitmapFrameAllocator where
  "bm_new = \<lparr>bm_bitmap = (\<lambda>_. 0), bm_total_frames = 0, bm_free_frames = 0, bm_next_free_hint = 0\<rparr>"

definition bm_mark_frame_free :: "FrameIndex \<Rightarrow> BitmapFrameAllocator \<Rightarrow> BitmapFrameAllocator" where
  "bm_mark_frame_free frame a =
     (let word_idx = frame div 64; bit_idx = frame mod 64
      in if word_idx < BITMAP_WORDS
         then let mask = NOT (push_bit bit_idx 1)
              in a\<lparr>bm_bitmap := (bm_bitmap a)(word_idx := bm_bitmap a word_idx AND mask)\<rparr>
         else a)"

definition bm_mark_frame_used :: "FrameIndex \<Rightarrow> BitmapFrameAllocator \<Rightarrow> BitmapFrameAllocator" where
  "bm_mark_frame_used frame a =
     (let word_idx = frame div 64; bit_idx = frame mod 64
      in if word_idx < BITMAP_WORDS
         then let mask = push_bit bit_idx 1
              in a\<lparr>bm_bitmap := (bm_bitmap a)(word_idx := bm_bitmap a word_idx OR mask)\<rparr>
         else a)"

definition bm_is_frame_free :: "BitmapFrameAllocator \<Rightarrow> FrameIndex \<Rightarrow> bool" where
  "bm_is_frame_free a frame =
     (let word_idx = frame div 64; bit_idx = frame mod 64
      in if BITMAP_WORDS \<le> word_idx then False
         else bm_bitmap a word_idx AND push_bit bit_idx 1 = 0)"

text \<open>One usable region: the inner loop of \<open>init\<close> over its frames.\<close>

definition bm_init_region ::
  "u64 \<times> u64 \<Rightarrow> BitmapFrameAllocator \<times> usize \<times> u64 \<Rightarrow> BitmapFrameAllocator \<times> usize \<times> u64" where
  "bm_init_region r st =
     (case st of (a, tot, free) \<Rightarrow>
        let start_frame = from_phys_addr (fst r);
            end_frame = from_phys_addr (wadd64 (fst r) (snd r));
            (a', free') = fold (\<lambda>frame_idx (a, free).
                              if frame_idx < MAX_4K_FRAMES then (bm_mark_frame_free frame_idx a, free + 1)
                              else (a, free)) [start_frame..<end_frame] (a, free)
        in (a', max tot end_frame, free'))"

definition bm_init :: "(u64 \<times> u64) list \<Rightarrow> BitmapFrameAllocator \<Rightarrow> BitmapFrameAllocator" where
  "bm_init usable_regions a =
     (case fold bm_init_region usable_regions (a\<lparr>bm_bitmap := (\<lambda>_. - 1)\<rparr>, 0, 0) of
        (a', tot, free) \<Rightarrow> a'\<lparr>bm_total_frames := tot, bm_free_frames := free\<rparr>)"

text \<open>
  The loop of \<open>allocate_4k_frame\<close> over \<open>word_offset\<close>. \<open>free_frames -= 1\<close> is the subtraction of
  naturals: the invariant below keeps the counter above the number of free frames.
\<close>

function bm_scan :: "nat \<Rightarrow> nat \<Rightarrow> BitmapFrameAllocator \<Rightarrow> BitmapFrameAllocator \<times> u64 option" where
  "bm_scan hint_word word_offset a =
     (if word_offset < BITMAP_WORDS
      then let word_idx = (hint_word + word_offset) mod BITMAP_WORDS;
               word = bm_bitmap a word_idx
           in if word \<noteq> - 1
              then let bit_idx = trailing_zeros64 (NOT word);
                       frame = word_idx * 64 + bit_idx
                   in if bm_total_frames a \<le> frame then bm_scan hint_word (Suc word_offset) a
                      else (a\<lparr>bm_bitmap := (bm_bitmap a)(word_idx := word OR push_bit bit_idx 1),
                              bm_free_frames := bm_free_frames a - 1,
                              bm_next_free_hint := frame + 1\<rparr>,
                            Some (to_phys_addr frame))
              else bm_scan hint_word (Suc word_offset) a
      else (a, None))"
  by pat_completeness auto
termination
  by (relation "measure (\<lambda>(_, word_offset, _). BITMAP_WORDS - word_offset)") auto

definition bm_allocate_4k_frame :: "BitmapFrameAllocator \<Rightarrow> BitmapFrameAllocator \<times> u64 option" where
  "bm_allocate_4k_frame a = bm_scan (bm_next_free_hint a div 64) 0 a"

text \<open>
  The loop of \<open>allocate_contiguous\<close> over \<open>start_word\<close>; the callers pass alignments of 2 MiB and
  1 GiB, so \<open>aligned_frames\<close> is not zero.
\<close>

function bm_contiguous ::
  "usize \<Rightarrow> usize \<Rightarrow> nat \<Rightarrow> BitmapFrameAllocator \<Rightarrow> BitmapFrameAllocator \<times> u64 option" where
  "bm_contiguous frame_count aligned_frames start_word a =
     (if start_word < BITMAP_WORDS
      then let start_frame = start_word * 64;
               aligned_start = (start_frame + aligned_frames - 1) div aligned_frames * aligned_frames
           in if bm_total_frames a < aligned_start + frame_count then (a, None)
              else if list_all (\<lambda>i. bm_is_frame_free a (aligned_start + i)) [0..<frame_count]
              then let a1 = fold (\<lambda>i. bm_mark_frame_used (aligned_start + i)) [0..<frame_count] a
                   in (a1\<lparr>bm_free_frames := bm_free_frames a1 - frame_count\<rparr>,
                       Some (to_phys_addr aligned_start))
              else bm_contiguous frame_count aligned_frames (Suc start_word) a
      else (a, None))"
  by pat_completeness auto
termination
  by (relation "measure (\<lambda>(_, _, start_word, _). BITMAP_WORDS - start_word)") auto

definition bm_allocate_contiguous ::
  "usize \<Rightarrow> usize \<Rightarrow> BitmapFrameAllocator \<Rightarrow> BitmapFrameAllocator \<times> u64 option" where
  "bm_allocate_contiguous frame_count alignment a =
     bm_contiguous frame_count (alignment div PAGE_SIZE_4K) 0 a"

definition bm_allocate_2m_frame :: "BitmapFrameAllocator \<Rightarrow> BitmapFrameAllocator \<times> u64 option" where
  "bm_allocate_2m_frame a = bm_allocate_contiguous (PAGE_SIZE_2M div PAGE_SIZE_4K) PAGE_SIZE_2M a"

definition bm_allocate_1g_frame :: "BitmapFrameAllocator \<Rightarrow> BitmapFrameAllocator \<times> u64 option" where
  "bm_allocate_1g_frame a = bm_allocate_contiguous (PAGE_SIZE_1G div PAGE_SIZE_4K) PAGE_SIZE_1G a"

definition bm_deallocate_4k_frame :: "u64 \<Rightarrow> BitmapFrameAllocator \<Rightarrow> BitmapFrameAllocator" where
  "bm_deallocate_4k_frame start a =
     (let a1 = bm_mark_frame_free (from_phys_addr start) a
      in a1\<lparr>bm_free_frames := bm_free_frames a1 + 1\<rparr>)"

definition bm_deallocate_2m_frame :: "u64 \<Rightarrow> BitmapFrameAllocator \<Rightarrow> BitmapFrameAllocator" where
  "bm_deallocate_2m_frame start a =
     (let start_frame = from_phys_addr start;
          frames_count = PAGE_SIZE_2M div PAGE_SIZE_4K;
          a1 = fold (\<lambda>i. bm_mark_frame_free (start_frame + i)) [0..<frames_count] a
      in a1\<lparr>bm_free_frames := bm_free_frames a1 + frames_count\<rparr>)"

declare bm_scan.simps [simp del] bm_contiguous.simps [simp del]

subsection \<open>The unified allocator\<close>

datatype FrameSize = Size4KiB | Size2MiB | Size1GiB

text \<open>The two global allocators, \<open>BUDDY_ALLOCATOR\<close> and \<open>FRAME_ALLOCATOR\<close>.\<close>

record Allocators =
  buddy_alloc :: BuddyFrameAllocator
  bitmap_alloc :: BitmapFrameAllocator

text \<open>The three \<open>alloc\<close> functions share their shape: buddy, then bitmap.\<close>

definition buddy_first ::
  "(BuddyFrameAllocator \<Rightarrow> BuddyFrameAllocator \<times> u64 option) \<Rightarrow>
   (BitmapFrameAllocator \<Rightarrow> BitmapFrameAllocator \<times> u64 option) \<Rightarrow> Allocators \<Rightarrow> Allocators \<times> u64 option" where
  "buddy_first f g u =
     (case f (buddy_alloc u) of
        (b, Some frame) \<Rightarrow> (u\<lparr>buddy_alloc := b\<rparr>, Some frame)
      | (b, None) \<Rightarrow> (case g (bitmap_alloc u) of
            (m, r) \<Rightarrow> (u\<lparr>buddy_alloc := b, bitmap_alloc := m\<rparr>, r)))"

definition alloc_4k :: "Allocators \<Rightarrow> Allocators \<times> u64 option" where
  "alloc_4k = buddy_first allocate_4k_frame bm_allocate_4k_frame"

definition alloc_2m :: "Allocators \<Rightarrow> Allocators \<times> u64 option" where
  "alloc_2m = buddy_first allocate_2m_frame bm_allocate_2m_frame"

definition alloc_1g :: "Allocators \<Rightarrow> Allocators \<times> u64 option" where
  "alloc_1g = buddy_first allocate_1g_frame bm_allocate_1g_frame"

definition dealloc_4k :: "u64 \<Rightarrow> Allocators \<Rightarrow> Allocators" where
  "dealloc_4k frame u =
     (if is_managed_by_buddy (buddy_alloc u) frame
      then u\<lparr>buddy_alloc := deallocate_4k_frame frame (buddy_alloc u)\<rparr>
      else u\<lparr>bitmap_alloc := bm_deallocate_4k_frame frame (bitmap_alloc u)\<rparr>)"

definition dealloc_2m :: "u64 \<Rightarrow> Allocators \<Rightarrow> Allocators" where
  "dealloc_2m frame u =
     (if is_managed_by_buddy (buddy_alloc u) frame
      then u\<lparr>buddy_alloc := deallocate_2m_frame frame (buddy_alloc u)\<rparr>
      else u\<lparr>bitmap_alloc := fold (\<lambda>i m. let offset = i * 4096; addr = wadd64 frame offset
               in if addr mod PAGE_SIZE_4K = 0 then bm_deallocate_4k_frame addr m else m)
             [0..<512] (bitmap_alloc u)\<rparr>)"

definition dealloc_1g :: "u64 \<Rightarrow> Allocators \<Rightarrow> Allocators" where
  "dealloc_1g frame u =
     (if is_managed_by_buddy (buddy_alloc u) frame
      then u\<lparr>buddy_alloc := deallocate_1g_frame frame (buddy_alloc u)\<rparr>
      else u)"

record UnifiedAllocatorStats =
  bitmap_total :: u64
  bitmap_used :: u64
  buddy_total :: u64
  buddy_used :: u64

definition unified_stats :: "Allocators \<Rightarrow> UnifiedAllocatorStats" where
  "unified_stats u =
     \<lparr>bitmap_total = bm_total_frames (bitmap_alloc u),
      bitmap_used = wsub64 (bm_total_frames (bitmap_alloc u)) (bm_free_frames (bitmap_alloc u)),
      buddy_total = st_total_frames (buddy_stats (buddy_alloc u)),
      buddy_used = wsub64 (st_total_frames (buddy_stats (buddy_alloc u))) (st_free_frames (buddy_stats (buddy_alloc u)))\<rparr>"

definition stats_total_frames :: "UnifiedAllocatorStats \<Rightarrow> u64" where
  "stats_total_frames st = wadd64 (bitmap_total st) (buddy_total st)"

definition stats_used_frames :: "UnifiedAllocatorStats \<Rightarrow> u64" where
  "stats_used_frames st = wadd64 (bitmap_used st) (buddy_used st)"

definition stats_free_frames :: "UnifiedAllocatorStats \<Rightarrow> u64" where
  "stats_free_frames st = wsub64 (stats_total_frames st) (stats_used_frames st)"

subsection \<open>The bitmap allocator's free frames\<close>

definition bm_free :: "BitmapFrameAllocator \<Rightarrow> FrameIndex set" where
  "bm_free a = {x. x < bm_total_frames a \<and> bm_is_frame_free a x}"

definition bm_inv :: "BitmapFrameAllocator \<Rightarrow> bool" where
  "bm_inv a = (card (bm_free a) \<le> bm_free_frames a)"

lemma bm_is_frame_free_bit:
  "bm_is_frame_free a x \<longleftrightarrow> x div 64 < BITMAP_WORDS \<and> \<not> bit (bm_bitmap a (x div 64)) (x mod 64)"
  by (auto simp: bm_is_frame_free_def test_bit_zero_iff Let_def not_le)

lemma bm_is_frame_free_cong: "bm_bitmap a = bm_bitmap a' \<Longrightarrow> bm_is_frame_free a x = bm_is_frame_free a' x"
  by (simp add: bm_is_frame_free_def)

lemma bm_free_bound: "x \<in> bm_free a \<Longrightarrow> x < MAX_4K_FRAMES"
  by (auto simp: bm_free_def bm_is_frame_free_bit BITMAP_WORDS_def MAX_4K_FRAMES_def
      MAX_PHYSICAL_MEMORY_def PAGE_SIZE_4K_def)

lemma finite_bm_free [simp]: "finite (bm_free a)"
  by (rule finite_subset [of _ "{..<bm_total_frames a}"]) (auto simp: bm_free_def)

lemma bm_free_mark_free:
  "bm_is_frame_free (bm_mark_frame_free f a) x \<longleftrightarrow> (x = f \<and> x div 64 < BITMAP_WORDS) \<or> bm_is_frame_free a x"
  by (auto simp: bm_is_frame_free_bit bm_mark_frame_free_def Let_def bit_clear_iff dest: div_mod_64_eq)

lemma bm_free_mark_used:
  "bm_is_frame_free (bm_mark_frame_used f a) x \<longleftrightarrow> x \<noteq> f \<and> bm_is_frame_free a x"
  by (auto simp: bm_is_frame_free_bit bm_mark_frame_used_def Let_def bit_set_iff dest: div_mod_64_eq)

lemma bm_mark_frame [simp]:
  "bm_total_frames (bm_mark_frame_free f a) = bm_total_frames a"
  "bm_free_frames (bm_mark_frame_free f a) = bm_free_frames a"
  "bm_total_frames (bm_mark_frame_used f a) = bm_total_frames a"
  "bm_free_frames (bm_mark_frame_used f a) = bm_free_frames a"
  by (simp_all add: bm_mark_frame_free_def bm_mark_frame_used_def Let_def)

lemma bm_fold_mark [simp]:
  "bm_total_frames (fold (\<lambda>i. bm_mark_frame_used (f + i)) is a) = bm_total_frames a"
  "bm_free_frames (fold (\<lambda>i. bm_mark_frame_used (f + i)) is a) = bm_free_frames a"
  by (simp_all add: fold_frame)

lemma bm_fold_used:
  "bm_is_frame_free (fold (\<lambda>i. bm_mark_frame_used (f + i)) is a) x \<longleftrightarrow>
     x \<notin> (+) f ` set is \<and> bm_is_frame_free a x"
  by (induction "is" arbitrary: a) (auto simp: bm_free_mark_used)

text \<open>Taking a set of free frames out of the bitmap, and the counter down by its size.\<close>

lemma bm_take:
  assumes "bm_inv a" and "S \<subseteq> bm_free a"
    and "bm_total_frames a' = bm_total_frames a" and "bm_free_frames a' = bm_free_frames a - card S"
    and "\<And>x. bm_is_frame_free a' x \<longleftrightarrow> x \<notin> S \<and> bm_is_frame_free a x"
  shows "bm_inv a'" and "bm_free a' = bm_free a - S" and "bm_free_frames a' + card S = bm_free_frames a"
proof -
  show f: "bm_free a' = bm_free a - S" using assms(3,5) by (auto simp: bm_free_def)
  have "finite S" using assms(2) finite_bm_free by (rule finite_subset)
  with assms(2) have "card (bm_free a') + card S = card (bm_free a)"
    unfolding f by (simp add: card_Diff_subset card_mono)
  with assms(1,4) show "bm_inv a'" and "bm_free_frames a' + card S = bm_free_frames a"
    by (simp_all add: bm_inv_def)
qed

lemma bm_give:
  assumes "bm_inv a" and "finite S"
    and "bm_total_frames a' = bm_total_frames a" and "bm_free_frames a' = bm_free_frames a + card S"
    and "\<And>x. bm_is_frame_free a' x \<Longrightarrow> x \<in> S \<or> bm_is_frame_free a x"
  shows "bm_inv a'" and "bm_free a' \<subseteq> bm_free a \<union> S"
proof -
  show f: "bm_free a' \<subseteq> bm_free a \<union> S" using assms(3,5) by (auto simp: bm_free_def)
  have "card (bm_free a') \<le> card (bm_free a \<union> S)" using f assms(2) by (intro card_mono) auto
  also have "\<dots> \<le> card (bm_free a) + card S" by (rule card_Un_le)
  finally show "bm_inv a'" using assms(1,4) by (simp add: bm_inv_def)
qed

subsection \<open>One frame\<close>

lemma not_max_word:
  fixes w :: bits64
  assumes "w \<noteq> - 1"
  shows "\<not> bit w (trailing_zeros64 (NOT w))" and "trailing_zeros64 (NOT w) < 64"
proof -
  have "NOT w \<noteq> 0" using assms by (metis bit.compl_zero bit.double_compl)
  from trailing_zeros64_bit [OF this] show "\<not> bit w (trailing_zeros64 (NOT w))" "trailing_zeros64 (NOT w) < 64"
    by (simp_all add: bit_simps)
qed

text \<open>The candidate frame of a word, and whether the scan takes it.\<close>

definition bm_candidate :: "BitmapFrameAllocator \<Rightarrow> nat \<Rightarrow> FrameIndex" where
  "bm_candidate a i = i * 64 + trailing_zeros64 (NOT (bm_bitmap a i))"

definition bm_hit :: "BitmapFrameAllocator \<Rightarrow> nat \<Rightarrow> bool" where
  "bm_hit a i = (bm_bitmap a i \<noteq> - 1 \<and> bm_candidate a i < bm_total_frames a)"

definition bm_taken :: "BitmapFrameAllocator \<Rightarrow> nat \<Rightarrow> BitmapFrameAllocator" where
  "bm_taken a i = a\<lparr>bm_bitmap := (bm_bitmap a)(i := bm_bitmap a i OR push_bit (trailing_zeros64 (NOT (bm_bitmap a i))) 1),
     bm_free_frames := bm_free_frames a - 1, bm_next_free_hint := bm_candidate a i + 1\<rparr>"

lemma bm_scan_step:
  assumes "i = (h + k) mod BITMAP_WORDS"
  shows "bm_scan h k a =
    (if BITMAP_WORDS \<le> k then (a, None)
     else if bm_hit a i then (bm_taken a i, Some (to_phys_addr (bm_candidate a i)))
     else bm_scan h (Suc k) a)"
  unfolding assms by (subst bm_scan.simps) (auto simp: bm_hit_def bm_candidate_def bm_taken_def Let_def)

lemma bm_hit_take:
  assumes inv: "bm_inv a" and i: "i < BITMAP_WORDS" and hit: "bm_hit a i"
  shows "bm_candidate a i \<in> bm_free a" and "bm_inv (bm_taken a i)"
    and "bm_free (bm_taken a i) = bm_free a - {bm_candidate a i}"
    and "bm_free_frames (bm_taken a i) + 1 = bm_free_frames a"
proof -
  define b where "b = trailing_zeros64 (NOT (bm_bitmap a i))"
  have nb: "\<not> bit (bm_bitmap a i) b" "b < 64"
    unfolding b_def using hit by (auto simp: bm_hit_def intro!: not_max_word)
  have c: "bm_candidate a i = i * 64 + b" by (simp add: bm_candidate_def b_def)
  have split: "(i * 64 + b) div 64 = i" "(i * 64 + b) mod 64 = b" using nb(2) by auto
  have xeq: "x = i * 64 + b \<longleftrightarrow> x div 64 = i \<and> x mod 64 = b" for x
    using split by (metis div_mult_mod_eq)
  have mem: "{bm_candidate a i} \<subseteq> bm_free a"
    using hit nb(1) i split by (simp add: bm_free_def bm_is_frame_free_bit bm_hit_def c)
  then show "bm_candidate a i \<in> bm_free a" by simp
  have "bm_is_frame_free (bm_taken a i) x \<longleftrightarrow> x \<notin> {bm_candidate a i} \<and> bm_is_frame_free a x" for x
    using nb(2) i unfolding c by (auto simp: bm_taken_def bm_is_frame_free_bit bit_set_iff xeq b_def [symmetric])
  from bm_take [OF inv mem _ _ this]
  show "bm_inv (bm_taken a i)" and "bm_free (bm_taken a i) = bm_free a - {bm_candidate a i}"
    and "bm_free_frames (bm_taken a i) + 1 = bm_free_frames a"
    by (simp_all add: bm_taken_def)
qed

lemma bm_miss:
  assumes miss: "\<not> bm_hit a (x div 64)"
  shows "x \<notin> bm_free a"
proof
  assume x: "x \<in> bm_free a"
  then have bx: "\<not> bit (bm_bitmap a (x div 64)) (x mod 64)"
    by (simp add: bm_free_def bm_is_frame_free_bit)
  then have "trailing_zeros64 (NOT (bm_bitmap a (x div 64))) \<le> x mod 64"
    by (intro trailing_zeros64_le) (simp add: bit_simps)
  then have "bm_candidate a (x div 64) \<le> x"
    unfolding bm_candidate_def by (metis add_left_mono div_mult_mod_eq)
  moreover have "bm_bitmap a (x div 64) \<noteq> - 1" using bx by auto
  ultimately show False using miss x by (simp add: bm_hit_def bm_free_def)
qed

lemma bm_scan_Some:
  assumes "bm_inv a" and "bm_scan h k a = (a', Some p)"
  shows "\<exists>f \<in> bm_free a. p = to_phys_addr f \<and> bm_inv a' \<and> bm_free a' = bm_free a - {f} \<and>
    bm_free_frames a' + 1 = bm_free_frames a"
  using assms
proof (induction "BITMAP_WORDS - k" arbitrary: k)
  case 0
  then show ?case by (simp add: bm_scan_step)
next
  case (Suc n)
  let ?i = "(h + k) mod BITMAP_WORDS"
  have "0 < BITMAP_WORDS" using Suc.hyps(2) by linarith
  then have "?i < BITMAP_WORDS" by simp
  moreover have "n = BITMAP_WORDS - Suc k" using Suc.hyps(2) by linarith
  ultimately show ?case using Suc.hyps(1) [of "Suc k"] Suc.prems bm_hit_take [OF assms(1), of ?i]
    by (auto simp: bm_scan_step [OF refl, of h k] split: if_splits)
qed

text \<open>The scan gives up only when no word from its position on holds a free frame.\<close>

lemma bm_scan_None:
  assumes "bm_scan h k a = (a', None)"
  shows "a' = a \<and> (\<forall>j x. k \<le> j \<and> j < BITMAP_WORDS \<and> x div 64 = (h + j) mod BITMAP_WORDS \<longrightarrow> x \<notin> bm_free a)"
  using assms
proof (induction "BITMAP_WORDS - k" arbitrary: k)
  case 0
  then show ?case by (auto simp: bm_scan_step)
next
  case (Suc n)
  then have "\<not> bm_hit a ((h + k) mod BITMAP_WORDS)" and "bm_scan h (Suc k) a = (a', None)"
    by (auto simp: bm_scan_step [OF refl, of h k] split: if_splits)
  moreover have "n = BITMAP_WORDS - Suc k" using Suc.hyps(2) by linarith
  ultimately show ?case using Suc.hyps(1) [of "Suc k"] bm_miss
    by (metis Suc_leI le_neq_implies_less)
qed

lemma rotate_hits:
  assumes "w < (n::nat)"
  shows "\<exists>j < n. (h + j) mod n = w"
proof -
  have "h mod n < n" using assms by simp
  have "(h + (w + (n - h mod n)) mod n) mod n = (h mod n + (w + (n - h mod n))) mod n"
    by (simp add: mod_simps)
  also have "h mod n + (w + (n - h mod n)) = w + n" using \<open>h mod n < n\<close> by linarith
  finally have "(h + (w + (n - h mod n)) mod n) mod n = w" using assms by simp
  then show ?thesis using assms by (intro exI [of _ "(w + (n - h mod n)) mod n"]) auto
qed

lemma bm_4k_None:
  assumes "bm_allocate_4k_frame a = (a', None)"
  shows "a' = a" and "bm_free a = {}"
proof -
  note n = bm_scan_None [OF assms [unfolded bm_allocate_4k_frame_def]]
  then show "a' = a" by simp
  have "x \<notin> bm_free a" for x
  proof
    assume x: "x \<in> bm_free a"
    then have "x div 64 < BITMAP_WORDS" by (simp add: bm_free_def bm_is_frame_free_bit)
    from rotate_hits [OF this] n x show False by (metis le0)
  qed
  then show "bm_free a = {}" by blast
qed

subsection \<open>Runs of frames\<close>

lemma div_up_mult: "0 < d \<Longrightarrow> d dvd (x + d - 1) div d * (d::nat)"
  by simp

lemma bm_contiguous_Some:
  assumes "bm_inv a" and "bm_contiguous n d k a = (a', Some p)"
  shows "\<exists>f. p = to_phys_addr f \<and> d dvd f \<and> {f..<f + n} \<subseteq> bm_free a \<and> bm_inv a' \<and>
    bm_free a' = bm_free a - {f..<f + n} \<and> bm_free_frames a' + n = bm_free_frames a"
  using assms
proof (induction n d k a rule: bm_contiguous.induct)
  case (1 n d k a)
  define f where "f = (k * 64 + d - 1) div d * d"
  from "1.prems"(2) have lt: "k < BITMAP_WORDS" and tot: "f + n \<le> bm_total_frames a" unfolding f_def
    by (subst (asm) bm_contiguous.simps, auto simp: Let_def split: if_splits)+
  show ?case
  proof (cases "list_all (\<lambda>i. bm_is_frame_free a (f + i)) [0..<n]")
    case True
    let ?a1 = "fold (\<lambda>i. bm_mark_frame_used (f + i)) [0..<n] a"
    have img: "(+) f ` set [0..<n] = {f..<f + n}" by (simp add: add.commute)
    have "bm_is_frame_free a x" if "x \<in> {f..<f + n}" for x
    proof -
      from that obtain i where "i < n" "x = f + i" by (auto simp: le_iff_add)
      with True show ?thesis by (simp add: list_all_iff)
    qed
    then have sub: "{f..<f + n} \<subseteq> bm_free a" using tot by (auto simp: bm_free_def)
    from True "1.prems"(2) lt tot have "a' = ?a1\<lparr>bm_free_frames := bm_free_frames ?a1 - n\<rparr>"
      and p: "p = to_phys_addr f" unfolding f_def
      by (subst (asm) bm_contiguous.simps, auto simp: Let_def)+
    then have "bm_total_frames a' = bm_total_frames a" "bm_free_frames a' = bm_free_frames a - card {f..<f + n}"
      "\<And>x. bm_is_frame_free a' x \<longleftrightarrow> x \<notin> {f..<f + n} \<and> bm_is_frame_free a x"
      using bm_is_frame_free_cong [of a' ?a1] bm_fold_used [of f "[0..<n]" a, unfolded img] by auto
    from bm_take [OF "1.prems"(1) sub this] p sub show ?thesis
      by (intro exI [of _ f]) (simp add: f_def)
  next
    case False
    with "1.prems"(2) lt tot have "bm_contiguous n d (Suc k) a = (a', Some p)" unfolding f_def
      by (subst (asm) bm_contiguous.simps) (simp add: Let_def)
    with "1.IH" [OF lt refl f_def _ False] tot "1.prems"(1) show ?thesis by simp
  qed
qed

lemma bm_contiguous_None:
  assumes "bm_contiguous n d k a = (a', None)"
  shows "a' = a"
  using assms
proof (induction "BITMAP_WORDS - k" arbitrary: k)
  case 0
  then show ?case by (subst (asm) bm_contiguous.simps) simp
next
  case (Suc m)
  from Suc.prems have "a' = a \<or> bm_contiguous n d (Suc k) a = (a', None)"
    by (subst (asm) bm_contiguous.simps) (auto simp: Let_def split: if_splits)
  moreover have "m = BITMAP_WORDS - Suc k" using Suc.hyps(2) by linarith
  ultimately show ?case using Suc.hyps(1) by blast
qed

subsection \<open>Release into the bitmap\<close>

lemma bm_fold_free:
  "bm_is_frame_free (fold (\<lambda>i. bm_mark_frame_free (f + i)) is a) x \<longleftrightarrow>
     (x \<in> (+) f ` set is \<and> x div 64 < BITMAP_WORDS) \<or> bm_is_frame_free a x"
  by (induction "is" arbitrary: a) (auto simp: bm_free_mark_free)

lemma bm_fold_free_frame [simp]:
  "bm_total_frames (fold (\<lambda>i. bm_mark_frame_free (f + i)) is a) = bm_total_frames a"
  "bm_free_frames (fold (\<lambda>i. bm_mark_frame_free (f + i)) is a) = bm_free_frames a"
  by (simp_all add: fold_frame)

lemma bm_dealloc_4k:
  assumes "bm_inv a"
  shows "bm_inv (bm_deallocate_4k_frame p a)"
    and "bm_free (bm_deallocate_4k_frame p a) \<subseteq> bm_free a \<union> {from_phys_addr p}"
proof -
  let ?a = "bm_deallocate_4k_frame p a"
  have "x \<in> {from_phys_addr p} \<or> bm_is_frame_free a x" if "bm_is_frame_free ?a x" for x
    using that bm_free_mark_free [of "from_phys_addr p" a x]
      bm_is_frame_free_cong [of ?a "bm_mark_frame_free (from_phys_addr p) a" x]
    by (auto simp: bm_deallocate_4k_frame_def)
  from bm_give [OF assms _ _ _ this] show "bm_inv ?a" and "bm_free ?a \<subseteq> bm_free a \<union> {from_phys_addr p}"
    by (simp_all add: bm_deallocate_4k_frame_def)
qed

lemma bm_dealloc_2m:
  assumes "bm_inv a"
  shows "bm_inv (bm_deallocate_2m_frame p a)"
    and "bm_free (bm_deallocate_2m_frame p a) \<subseteq> bm_free a \<union> {from_phys_addr p..<from_phys_addr p + 512}"
proof -
  let ?a = "bm_deallocate_2m_frame p a" and ?f = "from_phys_addr p"
  have n: "PAGE_SIZE_2M div PAGE_SIZE_4K = 512" by (simp add: PAGE_SIZE_2M_def PAGE_SIZE_4K_def)
  have img: "(+) ?f ` set [0..<512] = {?f..<?f + 512}" by (simp add: add.commute)
  have "x \<in> {?f..<?f + 512} \<or> bm_is_frame_free a x" if "bm_is_frame_free ?a x" for x
    using that bm_fold_free [of ?f "[0..<512]" a x, unfolded img]
      bm_is_frame_free_cong [of ?a "fold (\<lambda>i. bm_mark_frame_free (?f + i)) [0..<512] a" x]
    by (auto simp: bm_deallocate_2m_frame_def n)
  from bm_give [OF assms _ _ _ this]
  show "bm_inv ?a" and "bm_free ?a \<subseteq> bm_free a \<union> {?f..<?f + 512}"
    by (simp_all add: bm_deallocate_2m_frame_def n Let_def)
qed

text \<open>Releasing 512 small frames is releasing the 2 MiB frame.\<close>

lemma mark_free_counter:
  "bm_mark_frame_free f (a\<lparr>bm_free_frames := c\<rparr>) = (bm_mark_frame_free f a)\<lparr>bm_free_frames := c\<rparr>"
  by (simp add: bm_mark_frame_free_def Let_def)

lemma dealloc_each:
  "fold (\<lambda>i. bm_deallocate_4k_frame ((f + i) * 4096)) is a =
     (fold (\<lambda>i. bm_mark_frame_free (f + i)) is a)\<lparr>bm_free_frames := bm_free_frames a + length is\<rparr>"
proof (induction "is" arbitrary: a)
  case (Cons i "is")
  have "fold (\<lambda>i. bm_mark_frame_free (f + i)) is (a\<lparr>bm_free_frames := c\<rparr>) =
      (fold (\<lambda>i. bm_mark_frame_free (f + i)) is a)\<lparr>bm_free_frames := c\<rparr>" for a c
    by (induction "is" arbitrary: a) (simp_all add: mark_free_counter)
  with Cons show ?case
    by (simp add: bm_deallocate_4k_frame_def from_phys_addr_def PAGE_SIZE_4K_def Let_def)
qed simp

lemma dealloc_512:
  assumes "PAGE_SIZE_4K dvd p" and "p + 512 * PAGE_SIZE_4K \<le> U64_MOD"
  shows "fold (\<lambda>i m. let offset = i * 4096; addr = wadd64 p offset
           in if addr mod PAGE_SIZE_4K = 0 then bm_deallocate_4k_frame addr m else m) [0..<512] a =
         bm_deallocate_2m_frame p a"
proof -
  from assms(1) obtain f where p: "p = f * 4096" by (auto simp: PAGE_SIZE_4K_def elim: dvdE)
  have "fold (\<lambda>i m. let offset = i * 4096; addr = wadd64 p offset
           in if addr mod PAGE_SIZE_4K = 0 then bm_deallocate_4k_frame addr m else m) [0..<512] a =
        fold (\<lambda>i. bm_deallocate_4k_frame ((f + i) * 4096)) [0..<512] a"
    using assms(2) unfolding p
    by (intro fold_cong refl ext) (simp add: wadd64_exact PAGE_SIZE_4K_def Let_def add_mult_distrib)
  also have "\<dots> = bm_deallocate_2m_frame p a"
    unfolding dealloc_each by (simp add: bm_deallocate_2m_frame_def p from_phys_addr_def PAGE_SIZE_4K_def PAGE_SIZE_2M_def)
  finally show ?thesis .
qed

subsection \<open>Initialisation of the bitmap\<close>

definition bm_marked :: "BitmapFrameAllocator \<Rightarrow> FrameIndex set" where
  "bm_marked a = {x. bm_is_frame_free a x}"

lemma finite_bm_marked [simp]: "finite (bm_marked a)"
proof (rule finite_subset)
  show "bm_marked a \<subseteq> {..<BITMAP_WORDS * 64}"
    by (auto simp: bm_marked_def bm_is_frame_free_bit less_mult_imp_div_less div_less_iff_less_mult)
qed simp

lemma frames_words: "x < MAX_4K_FRAMES \<longleftrightarrow> x div 64 < BITMAP_WORDS"
  by (simp add: BITMAP_WORDS_def MAX_4K_FRAMES_def MAX_PHYSICAL_MEMORY_def PAGE_SIZE_4K_def div_less_iff_less_mult)

lemma bm_marked_free: "bm_marked (bm_mark_frame_free f a) = bm_marked a \<union> ({f} \<inter> {..<MAX_4K_FRAMES})"
  by (auto simp: bm_marked_def bm_free_mark_free frames_words)

lemma bm_init_frames:
  assumes "card (bm_marked a) \<le> free"
  shows "case fold (\<lambda>frame_idx (a, free). if frame_idx < MAX_4K_FRAMES
             then (bm_mark_frame_free frame_idx a, free + 1) else (a, free)) xs (a, free) of
     (a', free') \<Rightarrow> bm_marked a' = bm_marked a \<union> (set xs \<inter> {..<MAX_4K_FRAMES}) \<and> card (bm_marked a') \<le> free'"
  using assms
proof (induction xs arbitrary: a free)
  case (Cons x xs)
  have "card (bm_marked (bm_mark_frame_free x a)) \<le> card (insert x (bm_marked a))"
    unfolding bm_marked_free by (intro card_mono) auto
  also have "\<dots> \<le> free + 1" using Cons.prems card_insert_le_m1 [of "free + 1" "bm_marked a" x] by simp
  finally have "card (bm_marked (bm_mark_frame_free x a)) \<le> free + 1" .
  with Cons.IH [of "bm_mark_frame_free x a" "free + 1"] Cons.IH [OF Cons.prems]
  show ?case by (auto simp: bm_marked_free split: prod.splits)
qed simp

lemma bm_init_regions:
  assumes "card (bm_marked a) \<le> free"
  shows "case fold bm_init_region rs (a, tot, free) of
     (a', tot', free') \<Rightarrow> bm_marked a' = bm_marked a \<union> (region_frames rs \<inter> {..<MAX_4K_FRAMES}) \<and>
       card (bm_marked a') \<le> free' \<and> tot \<le> tot' \<and> (\<forall>x \<in> region_frames rs. x < tot')"
  using assms
proof (induction rs arbitrary: a tot free)
  case (Cons r rs)
  obtain a' tot' free' where r: "bm_init_region r (a, tot, free) = (a', tot', free')"
    by (cases "bm_init_region r (a, tot, free)") auto
  from bm_init_frames [OF Cons.prems, of "[region_start r..<region_end r]"] r
  have m: "bm_marked a' = bm_marked a \<union> ({region_start r..<region_end r} \<inter> {..<MAX_4K_FRAMES})"
    and "card (bm_marked a') \<le> free'" and t: "tot' = max tot (region_end r)"
    by (auto simp: bm_init_region_def region_start_def region_end_def Let_def split: prod.splits)
  from Cons.IH [OF this(2), of tot'] show ?case
    by (auto simp: r m t split: prod.splits)
qed simp

lemma bm_init_spec:
  shows "bm_inv (bm_init rs a)" and "bm_free (bm_init rs a) = region_frames rs \<inter> {..<MAX_4K_FRAMES}"
proof -
  let ?a0 = "a\<lparr>bm_bitmap := (\<lambda>_. - 1)\<rparr>"
  have z: "bm_marked ?a0 = {}" by (auto simp: bm_marked_def bm_is_frame_free_bit)
  obtain a' tot free where f: "fold bm_init_region rs (?a0, 0, 0) = (a', tot, free)"
    by (cases "fold bm_init_region rs (?a0, 0, 0)") auto
  have i: "bm_init rs a = a'\<lparr>bm_total_frames := tot, bm_free_frames := free\<rparr>" by (simp add: bm_init_def f)
  from bm_init_regions [of ?a0 0 rs 0] have m: "bm_marked a' = region_frames rs \<inter> {..<MAX_4K_FRAMES}"
    and c: "card (bm_marked a') \<le> free" and t: "\<forall>x \<in> region_frames rs. x < tot"
    by (auto simp: f z)
  have "bm_free (bm_init rs a) = bm_marked a' \<inter> {..<tot}"
    using bm_is_frame_free_cong [of "bm_init rs a" a'] by (auto simp: i bm_free_def bm_marked_def)
  with m t show e: "bm_free (bm_init rs a) = region_frames rs \<inter> {..<MAX_4K_FRAMES}" by auto
  show "bm_inv (bm_init rs a)" using c m unfolding bm_inv_def e by (simp add: i)
qed

subsection \<open>The unified allocator is a frame pool\<close>

fun size_order :: "FrameSize \<Rightarrow> usize" where
  "size_order Size4KiB = 0" | "size_order Size2MiB = 9" | "size_order Size1GiB = 18"

fun unified_alloc :: "FrameSize \<Rightarrow> Allocators \<Rightarrow> Allocators \<times> u64 option" where
  "unified_alloc Size4KiB = alloc_4k" | "unified_alloc Size2MiB = alloc_2m" | "unified_alloc Size1GiB = alloc_1g"

fun unified_dealloc :: "FrameSize \<Rightarrow> u64 \<Rightarrow> Allocators \<Rightarrow> Allocators" where
  "unified_dealloc Size4KiB = dealloc_4k" | "unified_dealloc Size2MiB = dealloc_2m" | "unified_dealloc Size1GiB = dealloc_1g"

text \<open>The physical frames of a block, from its size and start address.\<close>

definition phys_extent :: "FrameSize \<Rightarrow> u64 \<Rightarrow> FrameIndex set" where
  "phys_extent sz p = {p div PAGE_SIZE_4K..<p div PAGE_SIZE_4K + 2 ^ size_order sz}"

definition phys_placed :: "FrameSize \<Rightarrow> u64 \<Rightarrow> bool" where
  "phys_placed sz p = (p < U64_MOD \<and> PAGE_SIZE_4K * 2 ^ size_order sz dvd p)"

definition unified_free :: "Allocators \<Rightarrow> FrameIndex set" where
  "unified_free u = free_set (buddy_alloc u) \<union> bm_free (bitmap_alloc u)"

definition unified_inv :: "Allocators \<Rightarrow> bool" where
  "unified_inv u = (buddy_inv (buddy_alloc u) \<and> free_set (buddy_alloc u) \<subseteq> {..<2 ^ 52} \<and>
     bm_inv (bitmap_alloc u) \<and> free_set (buddy_alloc u) \<inter> bm_free (bitmap_alloc u) = {})"

lemma size_order_le [simp]: "size_order sz \<le> MAX_ORDER"
  by (cases sz) (simp_all add: MAX_ORDER_def)

lemma frames_to_orders:
  "frames_to_order (PAGE_SIZE_2M div PAGE_SIZE_4K) = 9" "frames_to_order (PAGE_SIZE_1G div PAGE_SIZE_4K) = 18"
  by code_simp+

lemma addr_index:
  assumes "f < 2 ^ 52"
  shows "to_phys_addr f = f * PAGE_SIZE_4K" and "f * PAGE_SIZE_4K < U64_MOD"
proof -
  from assms show "f * PAGE_SIZE_4K < U64_MOD" by (simp add: PAGE_SIZE_4K_def U64_MOD_def)
  then show "to_phys_addr f = f * PAGE_SIZE_4K" by (simp add: to_phys_addr_def)
qed

lemma placed_index:
  assumes "phys_placed sz p"
  shows "2 ^ size_order sz dvd from_phys_addr p" and "phys_extent sz p = blk (size_order sz, from_phys_addr p)"
    and "phys_extent sz p \<subseteq> {..<2 ^ 52}" and "PAGE_SIZE_4K dvd p" and "p + 2 ^ size_order sz * PAGE_SIZE_4K \<le> U64_MOD"
proof -
  from assms have lt: "p < U64_MOD" and "PAGE_SIZE_4K * 2 ^ size_order sz dvd p"
    by (simp_all add: phys_placed_def)
  then obtain q where p: "p = PAGE_SIZE_4K * (2 ^ size_order sz * q)"
    unfolding dvd_def by (metis mult.assoc)
  then show "PAGE_SIZE_4K dvd p" by simp
  have i: "from_phys_addr p = 2 ^ size_order sz * q"
    unfolding p by (simp add: from_phys_addr_def PAGE_SIZE_4K_def)
  then show d: "2 ^ size_order sz dvd from_phys_addr p" by simp
  show e: "phys_extent sz p = blk (size_order sz, from_phys_addr p)"
    by (simp add: phys_extent_def blk_def from_phys_addr_def)
  have lt': "2 ^ size_order sz * q < 2 ^ 52"
    using lt unfolding p by (simp add: PAGE_SIZE_4K_def U64_MOD_def ac_simps)
  have pw: "(2::nat) ^ 52 = 2 ^ size_order sz * 2 ^ (52 - size_order sz)"
    using size_order_le [of sz] unfolding power_add [symmetric] by (simp add: MAX_ORDER_def)
  have "q < 2 ^ (52 - size_order sz)" using lt' unfolding pw by simp
  then have "2 ^ size_order sz * (q + 1) \<le> 2 ^ size_order sz * (2::nat) ^ (52 - size_order sz)"
    by (intro mult_le_mono2) simp
  then have b: "2 ^ size_order sz * q + 2 ^ size_order sz \<le> (2::nat) ^ 52"
    unfolding pw by simp
  then show "phys_extent sz p \<subseteq> {..<2 ^ 52}" unfolding e i by (auto simp: blk_def)
  show "p + 2 ^ size_order sz * PAGE_SIZE_4K \<le> U64_MOD" using b unfolding p
    by (simp add: PAGE_SIZE_4K_def U64_MOD_def)
qed

fun bm_size_alloc :: "FrameSize \<Rightarrow> BitmapFrameAllocator \<Rightarrow> BitmapFrameAllocator \<times> u64 option" where
  "bm_size_alloc Size4KiB = bm_allocate_4k_frame"
| "bm_size_alloc Size2MiB = bm_allocate_2m_frame"
| "bm_size_alloc Size1GiB = bm_allocate_1g_frame"

lemma unified_alloc_eq:
  "unified_alloc sz u =
     (case allocate_order (size_order sz) (buddy_alloc u) of
        (b, Some f) \<Rightarrow> (u\<lparr>buddy_alloc := b\<rparr>, Some (to_phys_addr f))
      | (b, None) \<Rightarrow> (case bm_size_alloc sz (bitmap_alloc u) of
            (m, r) \<Rightarrow> (u\<lparr>buddy_alloc := b, bitmap_alloc := m\<rparr>, r)))"
  by (cases sz) (auto simp: alloc_4k_def alloc_2m_def alloc_1g_def buddy_first_def allocate_4k_frame_def
      allocate_2m_frame_def allocate_1g_frame_def frames_to_orders split: prod.splits option.splits)

lemma bm_size_alloc_None: "bm_size_alloc sz m = (m', None) \<Longrightarrow> m' = m"
  by (cases sz) (auto simp: bm_allocate_2m_frame_def bm_allocate_1g_frame_def bm_allocate_contiguous_def
      dest: bm_4k_None(1) bm_contiguous_None)

lemma bm_size_alloc_Some:
  assumes "bm_inv m" and "bm_size_alloc sz m = (m', Some p)"
  shows "\<exists>f. p = to_phys_addr f \<and> 2 ^ size_order sz dvd f \<and> blk (size_order sz, f) \<subseteq> bm_free m \<and>
    bm_inv m' \<and> bm_free m' = bm_free m - blk (size_order sz, f)"
proof (cases sz)
  case Size4KiB
  from bm_scan_Some [OF assms(1), of "bm_next_free_hint m div 64" 0 m' p] assms(2) obtain f
    where "f \<in> bm_free m" "p = to_phys_addr f" "bm_inv m'" "bm_free m' = bm_free m - {f}"
    by (auto simp: Size4KiB bm_allocate_4k_frame_def)
  moreover have "blk (0, f) = {f}" by (auto simp: blk_def)
  ultimately show ?thesis by (auto simp: Size4KiB)
next
  case Size2MiB
  from assms(2) have "bm_contiguous 512 512 0 m = (m', Some p)"
    by (simp add: Size2MiB bm_allocate_2m_frame_def bm_allocate_contiguous_def PAGE_SIZE_2M_def PAGE_SIZE_4K_def)
  from bm_contiguous_Some [OF assms(1) this] show ?thesis by (auto simp: Size2MiB blk_def)
next
  case Size1GiB
  from assms(2) have "bm_contiguous 262144 262144 0 m = (m', Some p)"
    by (simp add: Size1GiB bm_allocate_1g_frame_def bm_allocate_contiguous_def PAGE_SIZE_1G_def PAGE_SIZE_4K_def)
  from bm_contiguous_Some [OF assms(1) this] show ?thesis by (auto simp: Size1GiB blk_def)
qed

text \<open>Both allocators hand out addresses whose frames are the block's, aligned to its size.\<close>

lemma index_placed:
  assumes "2 ^ size_order sz dvd f" and "f < 2 ^ 52"
  shows "phys_placed sz (to_phys_addr f)" and "phys_extent sz (to_phys_addr f) = blk (size_order sz, f)"
  using assms addr_index [OF assms(2)]
  by (auto simp: phys_placed_def phys_extent_def blk_def PAGE_SIZE_4K_def)

lemma blk_start: "f \<in> blk (n, f)"
  by (simp add: blk_def)

lemma unified_alloc_Some:
  assumes inv: "unified_inv u" and al: "unified_alloc sz u = (u', Some p)"
  shows "unified_inv u' \<and> phys_placed sz p \<and> phys_extent sz p \<subseteq> unified_free u \<and>
    unified_free u' \<subseteq> unified_free u - phys_extent sz p"
proof -
  from inv have b: "buddy_inv (buddy_alloc u)" and lim: "free_set (buddy_alloc u) \<subseteq> {..<2 ^ 52}"
    and m: "bm_inv (bitmap_alloc u)" and disj: "free_set (buddy_alloc u) \<inter> bm_free (bitmap_alloc u) = {}"
    by (simp_all add: unified_inv_def)
  obtain b' r where a: "allocate_order (size_order sz) (buddy_alloc u) = (b', r)"
    by (cases "allocate_order (size_order sz) (buddy_alloc u)")
  show ?thesis
  proof (cases r)
    case (Some f)
    with a al have u': "u' = u\<lparr>buddy_alloc := b'\<rparr>" and p: "p = to_phys_addr f"
      by (auto simp: unified_alloc_eq)
    note g = allocate_Some [OF b a [unfolded Some]]
    have "f < 2 ^ 52" using g(4) lim blk_start [of f "size_order sz"] by blast
    note i = index_placed [OF g(3) this]
    show ?thesis using g(1,4,5) i lim m disj unfolding unified_inv_def unified_free_def u' p by auto
  next
    case None
    with a buddy_pool.alloc_None [OF b] have b': "b' = buddy_alloc u" by simp
    from None a al obtain m' where bm: "bm_size_alloc sz (bitmap_alloc u) = (m', Some p)"
      and u': "u' = u\<lparr>bitmap_alloc := m'\<rparr>"
      by (auto simp: unified_alloc_eq b' split: prod.splits)
    from bm_size_alloc_Some [OF m bm] obtain f where f: "p = to_phys_addr f" "2 ^ size_order sz dvd f"
      "blk (size_order sz, f) \<subseteq> bm_free (bitmap_alloc u)" "bm_inv m'"
      "bm_free m' = bm_free (bitmap_alloc u) - blk (size_order sz, f)" by blast
    have "f \<in> bm_free (bitmap_alloc u)" using f(3) blk_start by blast
    from bm_free_bound [OF this] have "f < 2 ^ 52"
      by (simp add: MAX_4K_FRAMES_def MAX_PHYSICAL_MEMORY_def PAGE_SIZE_4K_def)
    note i = index_placed [OF f(2) this]
    show ?thesis using f(3,4,5) i b lim disj unfolding unified_inv_def unified_free_def u' f(1) by auto
  qed
qed

lemma unified_alloc_None:
  assumes "unified_inv u" and "unified_alloc sz u = (u', None)"
  shows "u' = u"
proof -
  from assms(1) have b: "buddy_inv (buddy_alloc u)" by (simp add: unified_inv_def)
  show ?thesis using assms(2) buddy_pool.alloc_None [OF b, of "size_order sz"]
    by (auto simp: unified_alloc_eq split: prod.splits option.splits dest: bm_size_alloc_None)
qed

lemma unified_dealloc_eq:
  assumes "phys_placed sz p"
  shows "unified_dealloc sz p u =
    (if is_managed_by_buddy (buddy_alloc u) p
     then u\<lparr>buddy_alloc := deallocate_order (size_order sz) (from_phys_addr p) (buddy_alloc u)\<rparr>
     else case sz of
        Size4KiB \<Rightarrow> u\<lparr>bitmap_alloc := bm_deallocate_4k_frame p (bitmap_alloc u)\<rparr>
      | Size2MiB \<Rightarrow> u\<lparr>bitmap_alloc := bm_deallocate_2m_frame p (bitmap_alloc u)\<rparr>
      | Size1GiB \<Rightarrow> u)"
proof (cases sz)
  case Size2MiB
  with dealloc_512 placed_index(4,5) [OF assms] show ?thesis
    by (simp add: dealloc_2m_def deallocate_2m_frame_def frames_to_orders)
qed (simp_all add: dealloc_4k_def dealloc_1g_def deallocate_4k_frame_def deallocate_1g_frame_def frames_to_orders)

lemma unified_dealloc_spec:
  assumes inv: "unified_inv u" and pl: "phys_placed sz p" and disj: "phys_extent sz p \<inter> unified_free u = {}"
  shows "unified_inv (unified_dealloc sz p u) \<and>
    unified_free (unified_dealloc sz p u) \<subseteq> unified_free u \<union> phys_extent sz p"
proof -
  note i = placed_index [OF pl]
  have dj: "blk (size_order sz, from_phys_addr p) \<inter> free_set (buddy_alloc u) = {}"
    "blk (size_order sz, from_phys_addr p) \<inter> bm_free (bitmap_alloc u) = {}"
    using disj unfolding i(2) unified_free_def by blast+
  show ?thesis
  proof (cases "is_managed_by_buddy (buddy_alloc u) p")
    case True
    from inv have "buddy_inv (buddy_alloc u)" by (simp add: unified_inv_def)
    note d = deallocate_spec [OF this size_order_le i(1) dj(1)]
    show ?thesis using True d(1,2) inv dj(2) i(3)
      unfolding unified_dealloc_eq [OF pl] unified_inv_def unified_free_def i(2) by auto
  next
    case False
    let ?m = "case sz of Size4KiB \<Rightarrow> bm_deallocate_4k_frame p (bitmap_alloc u)
      | Size2MiB \<Rightarrow> bm_deallocate_2m_frame p (bitmap_alloc u) | Size1GiB \<Rightarrow> bitmap_alloc u"
    have "unified_dealloc sz p u = u\<lparr>bitmap_alloc := ?m\<rparr>"
      using False unfolding unified_dealloc_eq [OF pl] by (cases sz) simp_all
    moreover have "bm_inv ?m" and "bm_free ?m \<subseteq> bm_free (bitmap_alloc u) \<union> blk (size_order sz, from_phys_addr p)"
      using inv bm_dealloc_4k [of "bitmap_alloc u" p] bm_dealloc_2m [of "bitmap_alloc u" p]
      by (cases sz; auto simp: unified_inv_def blk_def)+
    ultimately show ?thesis using inv dj(1) unfolding unified_inv_def unified_free_def i(2) by auto
  qed
qed

interpretation unified_pool: frame_pool unified_inv "\<lambda>_. True" unified_free phys_extent phys_placed unified_alloc unified_dealloc
  by unfold_locales (use unified_alloc_Some unified_alloc_None unified_dealloc_spec in blast)+

lemma region_frames_bound: "region_frames rs \<subseteq> {..<2 ^ 52}"
proof -
  have "region_end r \<le> 2 ^ 52" for r
  proof -
    have "wadd64 (fst r) (snd r) < 2 ^ 64" using wadd64_less [of "fst r" "snd r"] by (simp add: U64_MOD_def)
    then show ?thesis by (simp add: region_end_def from_phys_addr_def PAGE_SIZE_4K_def)
  qed
  then show ?thesis by (auto simp: region_frames_def intro: less_le_trans)
qed

lemma boot_inv:
  assumes "regions_disjoint rs" and "region_frames rs \<inter> region_frames rs' = {}"
    and "m = bm_new \<or> m = bm_init rs' bm_new"
  shows "unified_inv \<lparr>buddy_alloc = buddy_init rs buddy_new, bitmap_alloc = m\<rparr>"
proof -
  have "bm_inv bm_new" and "bm_free bm_new = {}" by (simp_all add: bm_inv_def bm_free_def bm_new_def)
  with assms(3) bm_init_spec [of rs' bm_new] have "bm_inv m" and "bm_free m \<subseteq> region_frames rs'"
    by (elim disjE; simp)+
  moreover have "free_set (buddy_init rs buddy_new) \<inter> bm_free m = {}"
    using buddy_init_spec(2) [OF assms(1)] assms(2) \<open>bm_free m \<subseteq> region_frames rs'\<close> by blast
  moreover have "free_set (buddy_init rs buddy_new) \<subseteq> {..<2 ^ 52}"
    using buddy_init_spec(2) [OF assms(1)] region_frames_bound by (rule subset_trans)
  ultimately show ?thesis using buddy_init_spec(1) [OF assms(1)] by (simp add: unified_inv_def)
qed

subsection \<open>Properties\<close>

text \<open>
  C5: The unified allocator, booted with disjoint regions in the buddy allocator and, in the bitmap
  allocator, either nothing or other regions: under any sequence of allocations and releases
  of held 4 KiB, 2 MiB and 1 GiB frames no two frames handed out at the same time overlap, although a
  release is routed by address alone and may move a block from one allocator to the other.
\<close>

theorem unified_requests_disjoint:
  assumes "regions_disjoint rs" and "region_frames rs \<inter> region_frames rs' = {}"
    and "m = bm_new \<or> m = bm_init rs' bm_new"
  shows "ledger_disjoint phys_extent
    (snd (pool_run unified_alloc unified_dealloc
       (\<lparr>buddy_alloc = buddy_init rs buddy_new, bitmap_alloc = m\<rparr>, []) qs))"
  by (rule unified_pool.run_disjoint [OF boot_inv [OF assms] request_ok_True])

theorem unified_requests_disjoint_witness:
  "ledger_disjoint phys_extent
    (snd (pool_run unified_alloc unified_dealloc
       (\<lparr>buddy_alloc = buddy_init [(0, 4096)] buddy_new, bitmap_alloc = bm_init [(8192, 4096)] bm_new\<rparr>, [])
       [Alloc Size4KiB, Alloc Size4KiB, Free Size4KiB 0, Alloc Size4KiB]))"
  by (rule unified_requests_disjoint [of _ "[(8192, 4096)]"])
    (simp_all add: regions_disjoint_def region_start_def region_end_def from_phys_addr_def PAGE_SIZE_4K_def
      wadd64_def U64_MOD_def)

text \<open>
  The hinted search of the bitmap allocator is complete: from any hint it fails only when no frame
  is free, and otherwise it takes exactly one free frame and returns its address.
\<close>

lemma bm_allocate_4k_complete:
  assumes "bm_inv a"
  shows "case bm_allocate_4k_frame a of
      (a', None) \<Rightarrow> a' = a \<and> bm_free a = {}
    | (a', Some p) \<Rightarrow> \<exists>f \<in> bm_free a. p = f * 4096 \<and> bm_free a' = bm_free a - {f} \<and>
        bm_free_frames a' + 1 = bm_free_frames a \<and> bm_inv a'"
proof (cases "bm_allocate_4k_frame a")
  case (Pair a' r)
  show ?thesis
  proof (cases r)
    case None
    with Pair bm_4k_None [of a a'] show ?thesis by simp
  next
    case (Some p)
    with Pair bm_scan_Some [OF assms, of "bm_next_free_hint a div 64" 0 a' p] obtain f
      where f: "f \<in> bm_free a" "p = to_phys_addr f" "bm_free a' = bm_free a - {f}"
        "bm_free_frames a' + 1 = bm_free_frames a" "bm_inv a'"
      by (auto simp: bm_allocate_4k_frame_def)
    have "f < 2 ^ 52" using bm_free_bound [OF f(1)]
      by (simp add: MAX_4K_FRAMES_def MAX_PHYSICAL_MEMORY_def PAGE_SIZE_4K_def)
    with f(2) have "p = f * 4096" using addr_index(1) by (simp add: PAGE_SIZE_4K_def)
    with f have "\<exists>f \<in> bm_free a. p = f * 4096 \<and> bm_free a' = bm_free a - {f} \<and>
        bm_free_frames a' + 1 = bm_free_frames a \<and> bm_inv a'" by metis
    then show ?thesis by (simp only: Pair Some prod.case option.case)
  qed
qed

text \<open>
  The statistics never drift: whatever wraps in the intermediate subtractions, the free count
  computed from the totals is the sum of the two allocators' own counters modulo \<open>2 ^ 64\<close>.
\<close>

lemma stats_free_frames_sum:
  assumes "bm_free_frames (bitmap_alloc u) < U64_MOD" and "free_frames (buddy_alloc u) < U64_MOD"
  shows "stats_free_frames (unified_stats u) =
    (bm_free_frames (bitmap_alloc u) + free_frames (buddy_alloc u)) mod U64_MOD"
proof -
  have *: "wsub64 (wadd64 t1 t2) (wadd64 (wsub64 t1 f1) (wsub64 t2 f2)) = (f1 + f2) mod U64_MOD"
    if "f1 < U64_MOD" "f2 < U64_MOD" for t1 t2 f1 f2
  proof -
    have "int (wsub64 (wadd64 t1 t2) (wadd64 (wsub64 t1 f1) (wsub64 t2 f2))) = int ((f1 + f2) mod U64_MOD)"
      using that by (simp add: int_wadd64 int_wsub64 wadd64_less less_imp_le of_nat_mod mod_simps)
    then show ?thesis by simp
  qed
  show ?thesis using * [OF assms] by (simp add: stats_free_frames_def stats_total_frames_def stats_used_frames_def
      unified_stats_def buddy_stats_def)
qed

end
