(* ===== verification/HeapRegistry.thy ===== *)
theory HeapRegistry
  imports BTreeMap
begin

text \<open>
  The ownership registry of heap objects, \<open>src/src/sas/heap_registry.rs\<close>: which domain owns
  which address range. The locale \<open>owner_registry\<close> states what the single-address-space manager,
  the domain system and the remote references rely on; the registry is shown to implement it.
  The statistics are unbounded numbers; the generation counter wraps.
\<close>

subsection \<open>Data\<close>

record HeapObject =
  address :: usize
  size :: usize
  owner :: DomainId
  type_id :: u64
  generation :: u64
  ref_count :: u32

record RegistryStats =
  total_registered :: u64
  total_transferred :: u64
  total_freed :: u64
  access_checks :: u64
  access_denials :: u64

record HeapRegistry =
  objects :: "(usize, HeapObject) btree"
  owner_index :: "(DomainId, usize list) btree"
  next_generation :: u64
  stats :: RegistryStats

datatype RegistryError = AlreadyRegistered | NotFound | PermissionDenied | StillReferenced
  | Overlapping | RefCountOverflow | RefCountUnderflow

definition hr_new :: HeapRegistry where
  "hr_new = \<lparr>objects = [], owner_index = [], next_generation = 1,
     stats = \<lparr>total_registered = 0, total_transferred = 0, total_freed = 0,
              access_checks = 0, access_denials = 0\<rparr>\<rparr>"

subsection \<open>Operations\<close>

definition check_overlap :: "HeapRegistry \<Rightarrow> usize \<Rightarrow> usize \<Rightarrow> bool" where
  "check_overlap r addr sz =
     (let end_addr = wadd64 addr sz
      in list_ex (\<lambda>(_, obj). address obj < end_addr \<and> addr < wadd64 (address obj) (size obj))
           (bt_range_lt end_addr (objects r)))"

definition register ::
  "usize \<Rightarrow> usize \<Rightarrow> DomainId \<Rightarrow> u64 \<Rightarrow> HeapRegistry \<Rightarrow> HeapRegistry \<times> (RegistryError + u64)" where
  "register addr sz own tid r =
     (if bt_get (objects r) addr \<noteq> None then (r, Inl AlreadyRegistered)
      else if check_overlap r addr sz then (r, Inl Overlapping)
      else let gen = next_generation r;
               obj = \<lparr>address = addr, size = sz, owner = own, type_id = tid, generation = gen, ref_count = 1\<rparr>
           in (r\<lparr>objects := bt_insert addr obj (objects r),
                 owner_index := bt_push own addr (owner_index r),
                 next_generation := wadd64 gen 1,
                 stats := (stats r)\<lparr>total_registered := total_registered (stats r) + 1\<rparr>\<rparr>,
               Inr gen))"

text \<open>\<open>if let Some(addrs) = owner_index.get_mut(&owner) { addrs.retain(|&a| a != address) }\<close>\<close>

definition drop_index :: "DomainId \<Rightarrow> usize \<Rightarrow> HeapRegistry \<Rightarrow> HeapRegistry" where
  "drop_index d addr r = r\<lparr>owner_index := bt_modify d (filter (\<lambda>a. a \<noteq> addr)) (owner_index r)\<rparr>"

definition count_freed :: "HeapRegistry \<Rightarrow> HeapRegistry" where
  "count_freed r = r\<lparr>stats := (stats r)\<lparr>total_freed := total_freed (stats r) + 1\<rparr>\<rparr>"

definition unregister :: "usize \<Rightarrow> DomainId \<Rightarrow> HeapRegistry \<Rightarrow> HeapRegistry \<times> (RegistryError + unit)" where
  "unregister addr own r =
     (case bt_get (objects r) addr of
        None \<Rightarrow> (r, Inl NotFound)
      | Some obj \<Rightarrow>
          if owner obj \<noteq> own then (r, Inl PermissionDenied)
          else if ref_count obj > 1 then (r, Inl StillReferenced)
          else (count_freed (drop_index own addr (r\<lparr>objects := bt_remove addr (objects r)\<rparr>)), Inr ()))"

definition transfer_ownership ::
  "usize \<Rightarrow> DomainId \<Rightarrow> DomainId \<Rightarrow> HeapRegistry \<Rightarrow> HeapRegistry \<times> (RegistryError + unit)" where
  "transfer_ownership addr frm to r =
     (case bt_get (objects r) addr of
        None \<Rightarrow> (r, Inl NotFound)
      | Some obj \<Rightarrow>
          if owner obj \<noteq> frm then (r, Inl PermissionDenied)
          else if ref_count obj \<noteq> 1 then (r, Inl StillReferenced)
          else let r1 = r\<lparr>objects := bt_modify addr (\<lambda>obj. obj\<lparr>owner := to\<rparr>) (objects r)\<rparr>;
                   r2 = drop_index frm addr r1
               in (r2\<lparr>owner_index := bt_push to addr (owner_index r2),
                      stats := (stats r2)\<lparr>total_transferred := total_transferred (stats r2) + 1\<rparr>\<rparr>, Inr ()))"

definition check_access :: "usize \<Rightarrow> DomainId \<Rightarrow> HeapRegistry \<Rightarrow> HeapRegistry \<times> bool" where
  "check_access addr accessor r =
     (let r1 = r\<lparr>stats := (stats r)\<lparr>access_checks := access_checks (stats r) + 1\<rparr>\<rparr>;
          denied = (r1\<lparr>stats := (stats r1)\<lparr>access_denials := access_denials (stats r1) + 1\<rparr>\<rparr>, False)
      in case bt_get (objects r1) addr of
           Some obj \<Rightarrow> (r1, owner obj = accessor)
         | None \<Rightarrow> (case bt_last_le addr (objects r1) of
               None \<Rightarrow> denied
             | Some (_, obj) \<Rightarrow>
                 if addr < wadd64 (address obj) (size obj) \<and> owner obj = accessor then (r1, True)
                 else denied))"

definition get_object :: "HeapRegistry \<Rightarrow> usize \<Rightarrow> HeapObject option" where
  "get_object r addr = bt_get (objects r) addr"

definition get_domain_objects :: "HeapRegistry \<Rightarrow> DomainId \<Rightarrow> usize list option" where
  "get_domain_objects r d = bt_get (owner_index r) d"

definition add_ref :: "usize \<Rightarrow> HeapRegistry \<Rightarrow> HeapRegistry \<times> (RegistryError + unit)" where
  "add_ref addr r =
     (case bt_get (objects r) addr of
        None \<Rightarrow> (r, Inl NotFound)
      | Some obj \<Rightarrow> (case checked_add32 (ref_count obj) 1 of
            None \<Rightarrow> (r, Inl RefCountOverflow)
          | Some n \<Rightarrow> (r\<lparr>objects := bt_modify addr (\<lambda>obj. obj\<lparr>ref_count := n\<rparr>) (objects r)\<rparr>, Inr ())))"

definition release_ref :: "usize \<Rightarrow> HeapRegistry \<Rightarrow> HeapRegistry \<times> (RegistryError + u32)" where
  "release_ref addr r =
     (case bt_get (objects r) addr of
        None \<Rightarrow> (r, Inl NotFound)
      | Some obj \<Rightarrow> (case checked_sub32 (ref_count obj) 1 of
            None \<Rightarrow> (r, Inl RefCountUnderflow)
          | Some n \<Rightarrow> (r\<lparr>objects := bt_modify addr (\<lambda>obj. obj\<lparr>ref_count := n\<rparr>) (objects r)\<rparr>, Inr n)))"

definition get_owner :: "HeapRegistry \<Rightarrow> usize \<Rightarrow> DomainId option" where
  "get_owner r ptr =
     (case bt_get (objects r) ptr of
        Some obj \<Rightarrow> Some (owner obj)
      | None \<Rightarrow> (case bt_last_le ptr (objects r) of
            None \<Rightarrow> None
          | Some (_, obj) \<Rightarrow> if ptr < wadd64 (address obj) (size obj) then Some (owner obj) else None))"

definition register_simple :: "usize \<Rightarrow> usize \<Rightarrow> DomainId \<Rightarrow> HeapRegistry \<Rightarrow> HeapRegistry" where
  "register_simple ptr sz own r = fst (register ptr sz own 0 r)"

definition unregister_simple :: "usize \<Rightarrow> HeapRegistry \<Rightarrow> HeapRegistry" where
  "unregister_simple ptr r =
     (case bt_get (objects r) ptr of
        None \<Rightarrow> r
      | Some obj \<Rightarrow> count_freed (drop_index (owner obj) ptr (r\<lparr>objects := bt_remove ptr (objects r)\<rparr>)))"

definition reclaim_all :: "DomainId \<Rightarrow> HeapRegistry \<Rightarrow> HeapRegistry \<times> usize" where
  "reclaim_all d r =
     (let addrs = bt_list (owner_index r) d
      in (fold (\<lambda>addr r. count_freed (r\<lparr>objects := bt_remove addr (objects r)\<rparr>)) addrs
            (r\<lparr>owner_index := bt_remove d (owner_index r)\<rparr>),
          length addrs))"

definition object_count :: "HeapRegistry \<Rightarrow> usize" where
  "object_count r = length (objects r)"

subsection \<open>The contract its clients rely on\<close>

text \<open>
  \<open>owners\<close> gives the owner registered for a start address. A registration may be refused, but when
  it changes anything it adds exactly the new object; a transfer succeeds only on behalf of the
  owner; a reclaim frees exactly the objects of one domain.
\<close>

locale owner_registry =
  fixes invar :: "'r \<Rightarrow> bool"
    and owners :: "'r \<Rightarrow> nat \<Rightarrow> DomainId option"
    and add :: "nat \<Rightarrow> nat \<Rightarrow> DomainId \<Rightarrow> 'r \<Rightarrow> 'r"
    and forget :: "nat \<Rightarrow> 'r \<Rightarrow> 'r"
    and transfer :: "nat \<Rightarrow> DomainId \<Rightarrow> DomainId \<Rightarrow> 'r \<Rightarrow> 'r \<times> ('e + unit)"
    and reclaim :: "DomainId \<Rightarrow> 'r \<Rightarrow> 'r \<times> nat"
  assumes add: "invar r \<Longrightarrow> a + n < U64_MOD \<Longrightarrow> invar (add a n d r) \<and>
      (owners (add a n d r) = owners r \<or> owners r a = None \<and> owners (add a n d r) = (owners r)(a \<mapsto> d))"
    and forget: "invar r \<Longrightarrow> invar (forget a r) \<and> owners (forget a r) = (owners r)(a := None)"
    and transfer_invar: "invar r \<Longrightarrow> invar (fst (transfer a f t r))"
    and transfer_Inl: "invar r \<Longrightarrow> transfer a f t r = (r', Inl e) \<Longrightarrow> r' = r"
    and transfer_Inr: "invar r \<Longrightarrow> transfer a f t r = (r', Inr u) \<Longrightarrow>
      owners r a = Some f \<and> owners r' = (owners r)(a \<mapsto> t)"
    and reclaim: "invar r \<Longrightarrow> invar (fst (reclaim d r)) \<and>
      owners (fst (reclaim d r)) = (\<lambda>a. if owners r a = Some d then None else owners r a) \<and>
      snd (reclaim d r) = card {a. owners r a = Some d}"
begin

text \<open>Only the owner's transfer changes an owner.\<close>

lemma foreign_transfer:
  assumes "invar r" and "owners r b = Some d" and "d \<noteq> f \<or> a \<noteq> b"
  shows "owners (fst (transfer a f t r)) b = Some d"
proof (cases "transfer a f t r")
  case (Pair r' res)
  show ?thesis
  proof (cases res)
    case (Inl e)
    with Pair have "r' = r" using transfer_Inl [OF assms(1)] by blast
    with assms(2) Pair show ?thesis by simp
  next
    case (Inr u)
    with Pair transfer_Inr [OF assms(1), of a f t r' u] assms(2,3) show ?thesis by auto
  qed
qed

lemma reclaim_none: "invar r \<Longrightarrow> owners (fst (reclaim d r)) a \<noteq> Some d"
  by (simp add: reclaim)

lemma reclaim_other: "invar r \<Longrightarrow> owners r a = Some d' \<Longrightarrow> d' \<noteq> d \<Longrightarrow> owners (fst (reclaim d r)) a = Some d'"
  by (simp add: reclaim)

lemma reclaim_twice: "invar r \<Longrightarrow> snd (reclaim d (fst (reclaim d r))) = 0"
  using reclaim [of r d] reclaim [of "fst (reclaim d r)" d] by simp

text \<open>What was moved away survives the end of its former owner.\<close>

lemma transfer_survives:
  assumes "invar r" and "transfer a f t r = (r', Inr u)" and "t \<noteq> f"
  shows "owners (fst (reclaim f r')) a = Some t"
proof -
  have "invar r'" using transfer_invar [OF assms(1), of a f t] assms(2) by simp
  moreover have "owners r' a = Some t" using transfer_Inr [OF assms(1,2)] by simp
  ultimately show ?thesis using assms(3) by (rule reclaim_other)
qed

end

subsection \<open>The invariant\<close>

text \<open>The part of the registry that ownership depends on: address, size and owner by key.\<close>

definition shape :: "HeapRegistry \<Rightarrow> usize \<Rightarrow> (usize \<times> usize \<times> DomainId) option" where
  "shape r a = map_option (\<lambda>obj. (address obj, size obj, owner obj)) (bt_get (objects r) a)"

definition shape_ok :: "(usize \<Rightarrow> (usize \<times> usize \<times> DomainId) option) \<Rightarrow> bool" where
  "shape_ok s = ((\<forall>a x n d. s a = Some (x, n, d) \<longrightarrow> x = a \<and> a + n < U64_MOD) \<and>
     (\<forall>a b x n d. s a = Some (x, n, d) \<and> s b \<noteq> None \<and> a < b \<longrightarrow> a + n \<le> b))"

definition index_ok ::
  "(usize \<Rightarrow> (usize \<times> usize \<times> DomainId) option) \<Rightarrow> (DomainId \<Rightarrow> usize list) \<Rightarrow> bool" where
  "index_ok s ix = (\<forall>d. distinct (ix d) \<and> set (ix d) = {a. \<exists>x n. s a = Some (x, n, d)})"

definition reg_inv :: "HeapRegistry \<Rightarrow> bool" where
  "reg_inv r = (bt_wf (objects r) \<and> bt_wf (owner_index r) \<and> shape_ok (shape r) \<and>
     index_ok (shape r) (bt_list (owner_index r)))"

definition owners :: "HeapRegistry \<Rightarrow> usize \<Rightarrow> DomainId option" where
  "owners r a = map_option owner (bt_get (objects r) a)"

lemma owners_shape: "owners r a = map_option (\<lambda>(x, n, d). d) (shape r a)"
  by (simp add: owners_def shape_def option.map_comp comp_def)

lemma reg_invI:
  assumes "bt_wf (objects r)" "bt_wf (owner_index r)" "shape_ok (shape r)"
    "index_ok (shape r) (bt_list (owner_index r))"
  shows "reg_inv r"
  using assms by (simp add: reg_inv_def)

lemma reg_invD:
  assumes "reg_inv r"
  shows "bt_wf (objects r)" "bt_wf (owner_index r)" "shape_ok (shape r)"
    "index_ok (shape r) (bt_list (owner_index r))"
  using assms by (simp_all add: reg_inv_def)

lemma reg_inv_cong:
  assumes "reg_inv r" and "bt_wf (objects r')" and "shape r' = shape r" and "owner_index r' = owner_index r"
  shows "reg_inv r'"
  using assms by (simp add: reg_inv_def)

lemma shape_okD:
  assumes "shape_ok s" and "s a = Some (x, n, d)"
  shows "x = a" and "a + n < U64_MOD" and "s b \<noteq> None \<Longrightarrow> a < b \<Longrightarrow> a + n \<le> b"
  using assms unfolding shape_ok_def by blast+

lemma index_mem: "index_ok s ix \<Longrightarrow> a \<in> set (ix d) \<longleftrightarrow> (\<exists>x n. s a = Some (x, n, d))"
  by (simp add: index_ok_def)

lemma reg_inv_new [simp]: "reg_inv hr_new"
  by (simp add: reg_inv_def hr_new_def shape_def shape_ok_def index_ok_def)

subsection \<open>Every operation keeps it\<close>

lemma shape_ok_remove: "shape_ok s \<Longrightarrow> shape_ok (s(a := None))"
  unfolding shape_ok_def by (auto split: if_splits)

lemma shape_ok_owner: "shape_ok s \<Longrightarrow> s a = Some (x, n, d) \<Longrightarrow> shape_ok (s(a \<mapsto> (x, n, d')))"
  unfolding shape_ok_def by (auto split: if_splits)

lemma shape_ok_insert:
  assumes "shape_ok s" and "s a = None" and "a + n < U64_MOD"
    and "\<And>b x m e. s b = Some (x, m, e) \<Longrightarrow> b < a + n \<Longrightarrow> b + m \<le> a"
  shows "shape_ok (s(a \<mapsto> (a, n, d)))"
proof -
  have "b + m \<le> c" if b: "(s(a \<mapsto> (a, n, d))) b = Some (x, m, e)" and c: "(s(a \<mapsto> (a, n, d))) c \<noteq> None" and "b < c"
    for b c x m e
  proof (cases "b = a")
    case True
    with b c \<open>b < c\<close> obtain y k f where sc: "s c = Some (y, k, f)" and "m = n" by (auto split: if_splits)
    have "a + n \<le> c"
    proof (rule ccontr)
      assume "\<not> a + n \<le> c"
      with assms(4) [OF sc] have "c + k \<le> a" by simp
      with True \<open>b < c\<close> show False by simp
    qed
    with True \<open>m = n\<close> show ?thesis by simp
  next
    case False
    with b have sb: "s b = Some (x, m, e)" by simp
    show ?thesis
    proof (cases "c = a")
      case True
      with assms(4) [OF sb] \<open>b < c\<close> show ?thesis by simp
    next
      case False
      with c shape_okD(3) [OF assms(1) sb] \<open>b < c\<close> show ?thesis by simp
    qed
  qed
  moreover have "x = b \<and> b + m < U64_MOD" if "(s(a \<mapsto> (a, n, d))) b = Some (x, m, e)" for b x m e
    using that assms(3) shape_okD(1,2) [OF assms(1)] by (auto split: if_splits)
  ultimately show ?thesis unfolding shape_ok_def by blast
qed

text \<open>An object read back from the registry.\<close>

lemma obj_shape:
  assumes "reg_inv r" and "bt_get (objects r) b = Some obj"
  shows "address obj = b" and "wadd64 (address obj) (size obj) = b + size obj"
    and "shape r b = Some (b, size obj, owner obj)"
  using shape_okD(1,2) [OF reg_invD(3) [OF assms(1)], of b "address obj" "size obj" "owner obj"] assms(2)
  by (auto simp: shape_def wadd64_exact)

lemma shape_obj:
  assumes "shape r b = Some (x, m, d)"
  shows "\<exists>obj. bt_get (objects r) b = Some obj \<and> address obj = x \<and> size obj = m \<and> owner obj = d"
  using assms by (auto simp: shape_def)

lemma check_overlap_iff:
  assumes "reg_inv r" and "a + n < U64_MOD"
  shows "check_overlap r a n \<longleftrightarrow> (\<exists>b m d. shape r b = Some (b, m, d) \<and> b < a + n \<and> a < b + m)"
proof -
  note inv = reg_invD [OF assms(1)]
  have "check_overlap r a n \<longleftrightarrow> (\<exists>b obj. bt_get (objects r) b = Some obj \<and> b < a + n \<and>
      address obj < a + n \<and> a < wadd64 (address obj) (size obj))"
    using assms(2) inv(1)
    by (auto simp: check_overlap_def wadd64_exact list_ex_iff bt_range_lt_def bt_mem_iff Let_def)
  also have "\<dots> \<longleftrightarrow> (\<exists>b m d. shape r b = Some (b, m, d) \<and> b < a + n \<and> a < b + m)"
  proof (intro iffI; elim exE conjE)
    fix b obj assume o: "bt_get (objects r) b = Some obj" and "b < a + n" "a < wadd64 (address obj) (size obj)"
    then show "\<exists>b m d. shape r b = Some (b, m, d) \<and> b < a + n \<and> a < b + m"
      using obj_shape [OF assms(1) o] by auto
  next
    fix b m d assume "shape r b = Some (b, m, d)" "b < a + n" "a < b + m"
    moreover from shape_obj [OF this(1)] obtain obj where o: "bt_get (objects r) b = Some obj"
      "address obj = b" "size obj = m" by blast
    ultimately show "\<exists>b obj. bt_get (objects r) b = Some obj \<and> b < a + n \<and>
      address obj < a + n \<and> a < wadd64 (address obj) (size obj)"
      using obj_shape(2) [OF assms(1) o(1)] by (intro exI [of _ b] exI [of _ obj]) simp
  qed
  finally show ?thesis .
qed

lemma register_spec:
  assumes inv: "reg_inv r" and fit: "a + n < U64_MOD"
  shows "reg_inv (fst (register a n d t r))"
    and "snd (register a n d t r) = Inr g \<Longrightarrow> owners r a = None \<and> owners (fst (register a n d t r)) = (owners r)(a \<mapsto> d)"
    and "snd (register a n d t r) = Inl e \<Longrightarrow> fst (register a n d t r) = r"
proof -
  let ?r = "fst (register a n d t r)"
  show "snd (register a n d t r) = Inl e \<Longrightarrow> ?r = r"
    by (auto simp: register_def Let_def split: if_splits)
  note D = reg_invD [OF inv]
  have ok: "?r = r \<and> (\<exists>e. snd (register a n d t r) = Inl e) \<or>
      reg_inv ?r \<and> owners r a = None \<and> owners ?r = (owners r)(a \<mapsto> d)"
  proof (cases "bt_get (objects r) a \<noteq> None \<or> check_overlap r a n")
    case True
    then show ?thesis by (auto simp: register_def)
  next
    case False
    then have none: "shape r a = None" "bt_get (objects r) a = None" by (simp_all add: shape_def)
    have nov: "b + m \<le> a" if "shape r b = Some (b, m, e)" "b < a + n" for b m e
      using check_overlap_iff [OF inv fit] False that by (meson not_less)
    have sh: "shape ?r = (shape r)(a \<mapsto> (a, n, d))"
      using False D(1) by (auto simp: register_def Let_def shape_def)
    have ix: "bt_list (owner_index ?r) = (bt_list (owner_index r))(d := bt_list (owner_index r) d @ [a])"
      using False D(2) by (auto simp: register_def Let_def)
    have "reg_inv ?r"
    proof (rule reg_invI)
      show "bt_wf (objects ?r)" "bt_wf (owner_index ?r)"
        using False D(1,2) by (auto simp: register_def Let_def wf_insert wf_push)
      have "x = b" if "shape r b = Some (x, m, e)" for b x m e using shape_okD(1) [OF D(3) that] .
      then have "b + m \<le> a" if "shape r b = Some (x, m, e)" "b < a + n" for b x m e
        using nov that by metis
      from shape_ok_insert [OF D(3) none(1) fit this] show "shape_ok (shape ?r)" unfolding sh .
      have "a \<notin> set (bt_list (owner_index r) e)" for e using index_mem [OF D(4)] none(1) by simp
      with D(4) none(1) show "index_ok (shape ?r) (bt_list (owner_index ?r))"
        unfolding sh ix by (auto simp: index_ok_def)
    qed
    with sh none(1) show ?thesis by (auto simp: owners_shape fun_eq_iff)
  qed
  then show "reg_inv ?r" using inv by auto
  show "owners r a = None \<and> owners ?r = (owners r)(a \<mapsto> d)" if "snd (register a n d t r) = Inr g"
    using ok that by auto
qed

text \<open>Removing an object together with its entry in the index of its owner.\<close>

lemma remove_spec:
  assumes inv: "reg_inv r" and obj: "bt_get (objects r) a = Some obj"
    and r': "objects r' = bt_remove a (objects r)"
      "owner_index r' = bt_modify (owner obj) (filter (\<lambda>b. b \<noteq> a)) (owner_index r)"
  shows "reg_inv r'" and "owners r' = (owners r)(a := None)"
proof -
  note D = reg_invD [OF inv]
  have sh: "shape r' = (shape r)(a := None)" using D(1) by (auto simp: shape_def r')
  have ix: "set (bt_list (owner_index r') d) = set (bt_list (owner_index r) d) - {a}" for d
    using index_mem [OF D(4), of a d] obj_shape(3) [OF inv obj]
    unfolding r' bt_list_retain by auto
  show "reg_inv r'"
  proof (rule reg_invI)
    show "bt_wf (objects r')" "bt_wf (owner_index r')" using D(1,2) by (simp_all add: r' wf_remove wf_modify)
    show "shape_ok (shape r')" unfolding sh by (rule shape_ok_remove [OF D(3)])
    have "distinct (bt_list (owner_index r') d)" for d
      using D(4) unfolding r' bt_list_retain by (auto simp: index_ok_def)
    moreover have "set (bt_list (owner_index r') d) = {b. \<exists>x n. shape r' b = Some (x, n, d)}" for d
      unfolding ix sh using D(4) by (auto simp: index_ok_def)
    ultimately show "index_ok (shape r') (bt_list (owner_index r'))" by (simp add: index_ok_def)
  qed
  show "owners r' = (owners r)(a := None)" by (auto simp: owners_shape sh)
qed

lemma unregister_spec:
  assumes "reg_inv r"
  shows "reg_inv (fst (unregister a d r))"
    and "snd (unregister a d r) = Inr u \<Longrightarrow> owners r a = Some d \<and> owners (fst (unregister a d r)) = (owners r)(a := None)"
    and "snd (unregister a d r) = Inl e \<Longrightarrow> fst (unregister a d r) = r"
proof -
  show "snd (unregister a d r) = Inl e \<Longrightarrow> fst (unregister a d r) = r"
    by (auto simp: unregister_def split: option.splits if_splits)
  have "reg_inv (fst (unregister a d r)) \<and> (snd (unregister a d r) = Inr u \<longrightarrow>
      owners r a = Some d \<and> owners (fst (unregister a d r)) = (owners r)(a := None))"
  proof (cases "bt_get (objects r) a")
    case None
    then show ?thesis using assms by (simp add: unregister_def)
  next
    case (Some obj)
    show ?thesis
    proof (cases "owner obj \<noteq> d \<or> ref_count obj > 1")
      case True
      then show ?thesis using assms Some by (auto simp: unregister_def)
    next
      case False
      with Some remove_spec [OF assms Some, of "fst (unregister a d r)"] show ?thesis
        by (simp add: unregister_def count_freed_def drop_index_def owners_def)
    qed
  qed
  then show "reg_inv (fst (unregister a d r))" and "snd (unregister a d r) = Inr u \<Longrightarrow>
      owners r a = Some d \<and> owners (fst (unregister a d r)) = (owners r)(a := None)" by blast+
qed

lemma unregister_simple_spec:
  assumes "reg_inv r"
  shows "reg_inv (unregister_simple a r)" and "owners (unregister_simple a r) = (owners r)(a := None)"
proof -
  have "reg_inv (unregister_simple a r) \<and> owners (unregister_simple a r) = (owners r)(a := None)"
  proof (cases "bt_get (objects r) a")
    case None
    then show ?thesis using assms by (auto simp: unregister_simple_def owners_def)
  next
    case (Some obj)
    with remove_spec [OF assms Some, of "unregister_simple a r"] show ?thesis
      by (simp add: unregister_simple_def count_freed_def drop_index_def)
  qed
  then show "reg_inv (unregister_simple a r)" and "owners (unregister_simple a r) = (owners r)(a := None)" by blast+
qed

lemma transfer_ok:
  assumes inv: "reg_inv r" and obj: "bt_get (objects r) a = Some obj" and own: "owner obj = f"
    and r': "objects r' = bt_modify a (\<lambda>obj. obj\<lparr>owner := t\<rparr>) (objects r)"
      "owner_index r' = bt_push t a (bt_modify f (filter (\<lambda>b. b \<noteq> a)) (owner_index r))"
  shows "reg_inv r'" and "owners r' = (owners r)(a \<mapsto> t)"
proof -
  note D = reg_invD [OF inv]
  note o = obj_shape [OF inv obj]
  let ?ix = "bt_list (bt_modify f (filter (\<lambda>b. b \<noteq> a)) (owner_index r))"
  have sh: "shape r' = (shape r)(a \<mapsto> (a, size obj, t))" using obj o(1) by (auto simp: shape_def r')
  have in_f: "a \<in> set (bt_list (owner_index r) d) \<longleftrightarrow> d = f" for d
    using index_mem [OF D(4), of a d] o(3) own by auto
  have mid: "set (?ix d) = set (bt_list (owner_index r) d) - {a} \<and> distinct (?ix d)" for d
    using in_f [of d] D(4) unfolding bt_list_retain by (auto simp: index_ok_def)
  have wf: "bt_wf (bt_modify f (filter (\<lambda>b. b \<noteq> a)) (owner_index r))" using D(2) by (rule wf_modify)
  have ix: "bt_list (owner_index r') = ?ix(t := ?ix t @ [a])" unfolding r' using wf by auto
  show "reg_inv r'"
  proof (rule reg_invI)
    show "bt_wf (objects r')" "bt_wf (owner_index r')" using D(1) wf by (simp_all add: r' wf_modify wf_push)
    show "shape_ok (shape r')" unfolding sh using D(3) o(3) by (rule shape_ok_owner)
    have "distinct (bt_list (owner_index r') d)" for d using mid by (auto simp: ix)
    moreover have "set (bt_list (owner_index r') d) = {b. \<exists>x n. shape r' b = Some (x, n, d)}" for d
      using mid D(4) unfolding ix sh by (auto simp: index_ok_def split: if_splits)
    ultimately show "index_ok (shape r') (bt_list (owner_index r'))" by (simp add: index_ok_def)
  qed
  show "owners r' = (owners r)(a \<mapsto> t)" by (auto simp: owners_shape sh)
qed

lemma transfer_cases:
  assumes "reg_inv r" and "transfer_ownership a f t r = (r', res)"
  shows "reg_inv r'" and "res = Inl e \<Longrightarrow> r' = r"
    and "res = Inr u \<Longrightarrow> owners r a = Some f \<and> owners r' = (owners r)(a \<mapsto> t)"
proof -
  have "(\<exists>e. res = Inl e) \<and> r' = r \<or>
      res = Inr () \<and> reg_inv r' \<and> owners r a = Some f \<and> owners r' = (owners r)(a \<mapsto> t)"
  proof (cases "\<exists>obj. bt_get (objects r) a = Some obj \<and> owner obj = f \<and> ref_count obj = 1")
    case False
    then show ?thesis using assms(2) by (auto simp: transfer_ownership_def split: option.splits if_splits)
  next
    case True
    then obtain obj where o: "bt_get (objects r) a = Some obj" "owner obj = f" "ref_count obj = 1" by blast
    with transfer_ok [OF assms(1) o(1,2), of r' t] assms(2) show ?thesis
      by (auto simp: transfer_ownership_def Let_def drop_index_def owners_def)
  qed
  then show "reg_inv r'" and "res = Inl e \<Longrightarrow> r' = r"
    and "res = Inr u \<Longrightarrow> owners r a = Some f \<and> owners r' = (owners r)(a \<mapsto> t)"
    using assms(1) by auto
qed

lemma reclaim_fold:
  "objects (fold (\<lambda>addr r. count_freed (r\<lparr>objects := bt_remove addr (objects r)\<rparr>)) as r) =
     filter (\<lambda>e. fst e \<notin> set as) (objects r)"
  "owner_index (fold (\<lambda>addr r. count_freed (r\<lparr>objects := bt_remove addr (objects r)\<rparr>)) as r) = owner_index r"
proof (induction as arbitrary: r)
  case (Cons a as)
  { case 1 show ?case using Cons.IH(1) by (simp add: count_freed_def bt_remove_def conj_commute) }
  { case 2 show ?case using Cons.IH(2) by (simp add: count_freed_def) }
qed simp_all

lemma map_of_filter_keys: "map_of (filter (\<lambda>e. P (fst e)) m) k = (if P k then map_of m k else None)"
  by (induction m) auto

lemma wf_filter: "bt_wf m \<Longrightarrow> bt_wf (filter P m)"
  by (induction m) auto

lemma reclaim_spec:
  assumes inv: "reg_inv r"
  shows "reg_inv (fst (reclaim_all d r))"
    and "owners (fst (reclaim_all d r)) = (\<lambda>a. if owners r a = Some d then None else owners r a)"
    and "snd (reclaim_all d r) = card {a. owners r a = Some d}"
proof -
  let ?r = "fst (reclaim_all d r)" and ?as = "bt_list (owner_index r) d"
  note D = reg_invD [OF inv]
  have objs: "objects ?r = filter (\<lambda>e. fst e \<notin> set ?as) (objects r)"
    and idx: "owner_index ?r = bt_remove d (owner_index r)"
    by (simp_all add: reclaim_all_def Let_def reclaim_fold)
  have sh: "shape ?r a = (if a \<in> set ?as then None else shape r a)" for a
    by (simp add: shape_def objs map_of_filter_keys [of "\<lambda>a. a \<notin> set ?as"])
  have mem: "a \<in> set ?as \<longleftrightarrow> owners r a = Some d" for a
    using index_mem [OF D(4), of a d] by (auto simp: owners_shape)
  show "owners ?r = (\<lambda>a. if owners r a = Some d then None else owners r a)"
    using mem by (auto simp: owners_shape sh)
  have "{a. owners r a = Some d} = set ?as" using mem by blast
  moreover have "distinct ?as" using D(4) by (simp add: index_ok_def)
  ultimately show "snd (reclaim_all d r) = card {a. owners r a = Some d}"
    by (simp only: reclaim_all_def Let_def snd_conv distinct_card)
  show "reg_inv ?r"
  proof (rule reg_invI)
    show "bt_wf (objects ?r)" "bt_wf (owner_index ?r)" using D(1,2) by (simp_all add: objs idx wf_filter wf_remove)
    show "shape_ok (shape ?r)" using D(3) unfolding shape_ok_def sh by (auto split: if_splits)
    have "distinct (bt_list (owner_index ?r) e)" for e using D(2,4) by (simp add: idx index_ok_def)
    moreover have "set (bt_list (owner_index ?r) e) = {a. \<exists>x n. shape ?r a = Some (x, n, e)}" for e
      using D(2,4) mem unfolding idx sh by (auto simp: index_ok_def owners_shape)
    ultimately show "index_ok (shape ?r) (bt_list (owner_index ?r))" by (simp add: index_ok_def)
  qed
qed

text \<open>The other operations leave address, size and owner of every object alone.\<close>

lemma shape_ref_count:
  "shape (r\<lparr>objects := bt_modify a (\<lambda>obj. obj\<lparr>ref_count := n\<rparr>) (objects r)\<rparr>) = shape r"
  by (auto simp: shape_def map_of_modify option.map_comp comp_def)

lemma same_shape:
  "shape (fst (add_ref a r)) = shape r" "shape (fst (release_ref a r)) = shape r"
  "shape (fst (check_access a d r)) = shape r"
  by (auto simp: add_ref_def release_ref_def check_access_def Let_def shape_ref_count
      split: option.splits) (auto simp: shape_def)

lemma refs_spec:
  assumes "reg_inv r"
  shows "reg_inv (fst (add_ref a r))" "reg_inv (fst (release_ref a r))" "reg_inv (fst (check_access a d r))"
  using reg_invD(1) [OF assms]
  by (auto intro!: reg_inv_cong [OF assms] simp: same_shape,
      auto simp: add_ref_def release_ref_def check_access_def Let_def wf_modify split: option.splits)

interpretation hreg: owner_registry reg_inv owners register_simple unregister_simple transfer_ownership reclaim_all
proof unfold_locales
  fix r :: HeapRegistry and a n :: nat and d :: DomainId
  assume inv: "reg_inv r" and fit: "a + n < U64_MOD"
  note reg = register_spec [OF inv fit, of d 0]
  show "reg_inv (register_simple a n d r) \<and> (owners (register_simple a n d r) = owners r \<or>
      owners r a = None \<and> owners (register_simple a n d r) = (owners r)(a \<mapsto> d))"
    using reg by (cases "snd (register a n d 0 r)") (auto simp: register_simple_def)
next
  fix r :: HeapRegistry and a :: nat
  assume "reg_inv r"
  then show "reg_inv (unregister_simple a r) \<and> owners (unregister_simple a r) = (owners r)(a := None)"
    using unregister_simple_spec by blast
next
  fix r r' :: HeapRegistry and a f t :: nat and e u
  assume inv: "reg_inv r"
  show "reg_inv (fst (transfer_ownership a f t r))"
    by (cases "transfer_ownership a f t r") (auto intro: transfer_cases(1) [OF inv])
  show "transfer_ownership a f t r = (r', Inl e) \<Longrightarrow> r' = r" using transfer_cases(2) [OF inv] by blast
  show "transfer_ownership a f t r = (r', Inr u) \<Longrightarrow> owners r a = Some f \<and> owners r' = (owners r)(a \<mapsto> t)"
    using transfer_cases(3) [OF inv] by blast
next
  fix r :: HeapRegistry and d :: DomainId
  assume "reg_inv r"
  then show "reg_inv (fst (reclaim_all d r)) \<and>
      owners (fst (reclaim_all d r)) = (\<lambda>a. if owners r a = Some d then None else owners r a) \<and>
      snd (reclaim_all d r) = card {a. owners r a = Some d}"
    using reclaim_spec by blast
qed

subsection \<open>Looking up the owner of an address\<close>

text \<open>The object an address belongs to: it starts there, or the address lies in its range.\<close>

definition holds :: "HeapRegistry \<Rightarrow> usize \<Rightarrow> usize \<Rightarrow> HeapObject \<Rightarrow> bool" where
  "holds r p a obj = (bt_get (objects r) a = Some obj \<and> (p = a \<or> a \<le> p \<and> p < a + size obj))"

lemma holds_last:
  assumes inv: "reg_inv r" and h: "holds r p a obj"
  shows "bt_last_le p (objects r) = Some (a, obj)"
proof -
  note D = reg_invD [OF inv]
  from h have o: "bt_get (objects r) a = Some obj" and ap: "a \<le> p" by (auto simp: holds_def)
  note s = obj_shape [OF inv o]
  show ?thesis
  proof (cases "bt_last_le p (objects r)")
    case None
    with map_of_SomeD [OF o] ap show ?thesis by (fastforce simp: bt_last_le_None)
  next
    case (Some e)
    obtain b q where e: "e = (b, q)" by (cases e)
    note l = bt_last_le_Some [OF D(1) Some [unfolded e]]
    have "a \<le> b" using l(3) o ap by blast
    moreover have "\<not> a < b"
    proof
      assume "a < b"
      moreover have "shape r b \<noteq> None" using l(1) by (simp add: shape_def)
      ultimately have "a + size obj \<le> b" using shape_okD(3) [OF D(3) s(3)] by simp
      with l(2) h \<open>a < b\<close> show False by (auto simp: holds_def)
    qed
    ultimately have "b = a" by simp
    with l(1) o Some e show ?thesis by simp
  qed
qed

lemma get_owner_holds:
  assumes inv: "reg_inv r"
  shows "get_owner r p = Some d \<longleftrightarrow> (\<exists>a obj. holds r p a obj \<and> owner obj = d)"
proof
  assume g: "get_owner r p = Some d"
  show "\<exists>a obj. holds r p a obj \<and> owner obj = d"
  proof (cases "bt_get (objects r) p")
    case (Some obj)
    with g show ?thesis by (auto simp: get_owner_def holds_def intro!: exI [of _ p])
  next
    case None
    with g obtain a obj where l: "bt_last_le p (objects r) = Some (a, obj)"
      and lt: "p < wadd64 (address obj) (size obj)" and d: "owner obj = d"
      by (auto simp: get_owner_def split: option.splits if_splits)
    note b = bt_last_le_Some [OF reg_invD(1) [OF inv] l]
    with lt obj_shape(2) [OF inv b(1)] d show ?thesis by (auto simp: holds_def)
  qed
next
  assume "\<exists>a obj. holds r p a obj \<and> owner obj = d"
  then obtain a obj where h: "holds r p a obj" and d: "owner obj = d" by blast
  from h have o: "bt_get (objects r) a = Some obj" by (simp add: holds_def)
  show "get_owner r p = Some d"
  proof (cases "bt_get (objects r) p")
    case (Some q)
    with holds_last [OF inv, of p p q] holds_last [OF inv h] d show ?thesis
      by (auto simp: get_owner_def holds_def)
  next
    case None
    with h o have "p < a + size obj" by (auto simp: holds_def)
    with None d holds_last [OF inv h] obj_shape(2) [OF inv o] show ?thesis by (simp add: get_owner_def)
  qed
qed

lemma check_access_get_owner: "snd (check_access p d r) \<longleftrightarrow> get_owner r p = Some d"
  by (auto simp: check_access_def get_owner_def Let_def split: option.splits if_splits)

lemma reclaim_get_object:
  assumes "reg_inv r"
  shows "get_object (fst (reclaim_all d r)) a =
    (if map_option owner (get_object r a) = Some d then None else get_object r a)"
proof -
  have "objects (fst (reclaim_all d r)) = filter (\<lambda>e. fst e \<notin> set (bt_list (owner_index r) d)) (objects r)"
    by (simp add: reclaim_all_def Let_def reclaim_fold)
  then show ?thesis
    using index_mem [OF reg_invD(4) [OF assms], of a d]
    by (auto simp: get_object_def shape_def map_of_filter_keys [of "\<lambda>a. a \<notin> set (bt_list (owner_index r) d)"])
qed

subsection \<open>Sequences of operations\<close>

datatype hr_op = OpRegister usize usize DomainId u64 | OpUnregister usize DomainId
  | OpTransfer usize DomainId DomainId | OpCheckAccess usize DomainId | OpAddRef usize
  | OpReleaseRef usize | OpUnregisterSimple usize | OpReclaim DomainId

fun hr_step :: "hr_op \<Rightarrow> HeapRegistry \<Rightarrow> HeapRegistry" where
  "hr_step (OpRegister a n d t) r = fst (register a n d t r)"
| "hr_step (OpUnregister a d) r = fst (unregister a d r)"
| "hr_step (OpTransfer a f t) r = fst (transfer_ownership a f t r)"
| "hr_step (OpCheckAccess a d) r = fst (check_access a d r)"
| "hr_step (OpAddRef a) r = fst (add_ref a r)"
| "hr_step (OpReleaseRef a) r = fst (release_ref a r)"
| "hr_step (OpUnregisterSimple a) r = unregister_simple a r"
| "hr_step (OpReclaim d) r = fst (reclaim_all d r)"

definition hr_run :: "hr_op list \<Rightarrow> HeapRegistry \<Rightarrow> HeapRegistry" where
  "hr_run = fold hr_step"

text \<open>A registered range does not run past the end of the address space.\<close>

fun op_fits :: "hr_op \<Rightarrow> bool" where
  "op_fits (OpRegister a n d t) = (a + n < U64_MOD)"
| "op_fits _ = True"

text \<open>The operations by which domain \<open>d\<close> gives up the object at \<open>a\<close>.\<close>

fun gives_up :: "usize \<Rightarrow> DomainId \<Rightarrow> hr_op \<Rightarrow> bool" where
  "gives_up a d (OpUnregister b e) = (b = a \<and> e = d)"
| "gives_up a d (OpTransfer b f t) = (b = a \<and> f = d)"
| "gives_up a d (OpUnregisterSimple b) = (b = a)"
| "gives_up a d (OpReclaim e) = (e = d)"
| "gives_up a d _ = False"

lemma hr_step_inv: "reg_inv r \<Longrightarrow> op_fits q \<Longrightarrow> reg_inv (hr_step q r)"
  by (cases q) (simp_all add: register_spec(1) unregister_spec(1) hreg.transfer_invar refs_spec
      unregister_simple_spec(1) reclaim_spec(1))

lemma hr_run_inv: "reg_inv r \<Longrightarrow> list_all op_fits qs \<Longrightarrow> reg_inv (hr_run qs r)"
  by (induction qs arbitrary: r) (simp_all add: hr_run_def hr_step_inv)

lemma hr_step_keeps:
  assumes "reg_inv r" and "op_fits q" and "\<not> gives_up a d q" and "owners r a = Some d"
  shows "owners (hr_step q r) a = Some d"
proof (cases q)
  case (OpRegister b n e t)
  then show ?thesis using assms register_spec(2,3) [OF assms(1), of b n e t]
    by (cases "snd (register b n e t r)") auto
next
  case (OpUnregister b e)
  then show ?thesis using assms unregister_spec(2,3) [OF assms(1), of b e]
    by (cases "snd (unregister b e r)") auto
next
  case (OpTransfer b f t)
  then show ?thesis using assms hreg.foreign_transfer [OF assms(1,4)] by auto
next
  case (OpReclaim e)
  then show ?thesis using assms hreg.reclaim_other [OF assms(1,4)] by auto
next
  case (OpUnregisterSimple b)
  then show ?thesis using assms by (simp add: unregister_simple_spec(2))
qed (use assms in \<open>simp_all add: owners_shape same_shape\<close>)

lemma hr_run_keeps:
  assumes "reg_inv r" and "list_all (\<lambda>q. op_fits q \<and> \<not> gives_up a d q) qs" and "owners r a = Some d"
  shows "owners (hr_run qs r) a = Some d"
  using assms
proof (induction qs arbitrary: r)
  case (Cons q qs)
  then show ?case by (simp add: hr_run_def hr_step_inv hr_step_keeps)
qed (simp add: hr_run_def)

subsection \<open>Properties\<close>

text \<open>
  C19: Isolation of ownership. Once a domain owns an object, no sequence of registry operations takes
  it away, unless one of them is the owner's own transfer or release of that object, its
  unconditional removal, or the reclaim of the owner: other domains cannot steal, free or re-register
  it, however many operations they issue.
\<close>

theorem registry_isolation:
  assumes "reg_inv r" and "list_all (\<lambda>q. op_fits q \<and> \<not> gives_up a d q) qs"
    and "map_option owner (get_object r a) = Some d"
  shows "map_option owner (get_object (hr_run qs r) a) = Some d"
  using hr_run_keeps [OF assms(1,2)] assms(3) by (simp add: owners_def get_object_def)

theorem registry_isolation_witness:
  "map_option owner (get_object (hr_run [OpTransfer 4096 2 3, OpUnregister 4096 3, OpRegister 4100 8 2 0, OpReclaim 2]
     (fst (register 4096 64 1 7 hr_new))) 4096) = Some 1"
proof (rule registry_isolation)
  show "reg_inv (fst (register 4096 64 1 7 hr_new))"
    by (rule register_spec(1)) (simp_all add: U64_MOD_def)
  show "map_option owner (get_object (fst (register 4096 64 1 7 hr_new)) 4096) = Some 1" by code_simp
qed (simp add: U64_MOD_def)

text \<open>
  From the empty registry, whatever operations run, two registered objects never overlap, the key
  of an object is its address, and the per-domain index lists exactly the addresses its domain owns,
  each once.
\<close>

lemma registry_run_wellformed:
  assumes "list_all op_fits qs" and "r = hr_run qs hr_new"
  shows "(\<forall>a b p q. get_object r a = Some p \<and> get_object r b = Some q \<and> a \<noteq> b \<longrightarrow>
      {a..<a + size p} \<inter> {b..<b + size q} = {}) \<and>
    (\<forall>a p. get_object r a = Some p \<longrightarrow> address p = a) \<and>
    (\<forall>d. distinct (bt_list (owner_index r) d) \<and>
      set (bt_list (owner_index r) d) = {a. map_option owner (get_object r a) = Some d})"
proof -
  have inv: "reg_inv r" unfolding assms(2) by (rule hr_run_inv [OF reg_inv_new assms(1)])
  note D = reg_invD [OF inv]
  have lt: "{a..<a + size p} \<inter> {b..<b + size q} = {}"
    if p: "get_object r a = Some p" and q: "get_object r b = Some q" and "a < b" for a b p q
    using shape_okD(3) [OF D(3) obj_shape(3) [OF inv p [unfolded get_object_def]], of b] q \<open>a < b\<close>
    by (auto simp: shape_def get_object_def)
  have "{a..<a + size p} \<inter> {b..<b + size q} = {}"
    if "get_object r a = Some p" "get_object r b = Some q" "a \<noteq> b" for a b p q
    using lt [OF that(1,2)] lt [OF that(2,1)] that(3) by (metis Int_commute linorder_neqE_nat)
  moreover have "address p = a" if "get_object r a = Some p" for a p
    using obj_shape(1) [OF inv] that by (simp add: get_object_def)
  moreover have "distinct (bt_list (owner_index r) d)" for d using D(4) by (simp add: index_ok_def)
  moreover have "set (bt_list (owner_index r) d) = {a. map_option owner (get_object r a) = Some d}" for d
    using index_mem [OF D(4), of _ d] by (auto simp: shape_def get_object_def)
  ultimately show ?thesis by blast
qed

text \<open>
  The lookup by nearest lower key finds the owner of every address: \<open>get_owner\<close> names a domain
  exactly when the address starts or lies inside an object of that domain, and \<open>check_access\<close>
  grants exactly that domain.
\<close>

lemma get_owner_exact:
  assumes "reg_inv r"
  shows "(get_owner r p = Some d \<longleftrightarrow>
      (\<exists>a obj. get_object r a = Some obj \<and> owner obj = d \<and> (p = a \<or> p \<in> {a..<a + size obj}))) \<and>
    (snd (check_access p d r) \<longleftrightarrow> get_owner r p = Some d)"
  using get_owner_holds [OF assms, of p d] check_access_get_owner [of p d r]
  by (auto simp: holds_def get_object_def)

text \<open>
  Reclaiming a domain removes exactly its objects, reports their number, leaves every other
  domain's objects and the invariant alone, and finds nothing the second time.
\<close>

lemma reclaim_all_exact:
  assumes "reg_inv r"
  shows "reg_inv (fst (reclaim_all d r)) \<and>
    (\<forall>a. get_object (fst (reclaim_all d r)) a =
       (if map_option owner (get_object r a) = Some d then None else get_object r a)) \<and>
    snd (reclaim_all d r) = card {a. map_option owner (get_object r a) = Some d} \<and>
    snd (reclaim_all d (fst (reclaim_all d r))) = 0"
  using reclaim_get_object [OF assms, of d] reclaim_spec [OF assms, of d] hreg.reclaim_twice [OF assms, of d]
  by (simp add: owners_def get_object_def)

end
