(* ===== verification/SasManager.thy ===== *)
theory SasManager
  imports HeapRegistry
begin

text \<open>
  The single address space: memory regions (\<open>src/src/sas/memory_region.rs\<close>), typed ownership
  transfer (\<open>src/src/sas/ownership.rs\<close>) and the manager that gives regions to cells and routes
  ownership to the heap registry (\<open>src/src/sas/mod.rs\<close>). Logging is left out; the atomics of the
  manager are fields, each method one step under the manager's lock.
\<close>

subsection \<open>Memory regions\<close>

type_synonym RegionPermissions = "32 word"

definition READ :: RegionPermissions where "READ = push_bit 0 1"
definition WRITE :: RegionPermissions where "WRITE = push_bit 1 1"
definition EXECUTE :: RegionPermissions where "EXECUTE = push_bit 2 1"
definition RWX :: RegionPermissions where "RWX = READ OR WRITE OR EXECUTE"
definition KERNEL_PERMS :: RegionPermissions where "KERNEL_PERMS = RWX"

record MemoryRegion =
  start :: usize
  rsize :: usize
  permissions :: RegionPermissions

definition region_end_addr :: "MemoryRegion \<Rightarrow> usize" where
  "region_end_addr r = wadd64 (start r) (rsize r)"

definition contains :: "MemoryRegion \<Rightarrow> usize \<Rightarrow> bool" where
  "contains r addr = (start r \<le> addr \<and> addr < region_end_addr r)"

definition contains_range :: "MemoryRegion \<Rightarrow> usize \<Rightarrow> usize \<Rightarrow> bool" where
  "contains_range r s n = (start r \<le> s \<and> wadd64 s n \<le> region_end_addr r)"

definition overlaps :: "MemoryRegion \<Rightarrow> MemoryRegion \<Rightarrow> bool" where
  "overlaps r q = (start r < region_end_addr q \<and> start q < region_end_addr r)"

subsection \<open>Typed ownership transfer\<close>

datatype OwnershipError = NotOwner | InvalidDestination | AlreadyTransferred | NotRegistered | TypeMismatch
  | AccessDenied usize DomainId DomainId | UnregisteredPointer usize

record OwnershipToken =
  tok_from :: DomainId
  tok_to :: DomainId
  tok_address :: usize
  tok_size :: usize

definition token_new :: "DomainId \<Rightarrow> DomainId \<Rightarrow> usize \<Rightarrow> usize \<Rightarrow> OwnershipToken" where
  "token_new frm to addr sz = \<lparr>tok_from = frm, tok_to = to, tok_address = addr, tok_size = sz\<rparr>"

definition token_complete :: "OwnershipToken \<Rightarrow> DomainId \<Rightarrow> OwnershipError + usize" where
  "token_complete tok current_domain =
     (if current_domain \<noteq> tok_to tok then Inl NotOwner else Inr (tok_address tok))"

datatype TransferState = Owned | InTransfer | Transferred

record 'a Transferable =
  data :: 'a
  tr_owner :: DomainId
  tr_state :: TransferState

definition transferable_new :: "'a \<Rightarrow> DomainId \<Rightarrow> 'a Transferable" where
  "transferable_new d own = \<lparr>data = d, tr_owner = own, tr_state = Owned\<rparr>"

text \<open>\<open>addr\<close> and \<open>sz\<close> are the address of the object's data and \<open>size_of::<T>()\<close>.\<close>

definition begin_transfer ::
  "usize \<Rightarrow> usize \<Rightarrow> DomainId \<Rightarrow> DomainId \<Rightarrow> 'a Transferable \<Rightarrow> 'a Transferable \<times> (OwnershipError + OwnershipToken)" where
  "begin_transfer addr sz current_domain target t =
     (if tr_owner t \<noteq> current_domain then (t, Inl NotOwner)
      else if tr_state t \<noteq> Owned then (t, Inl AlreadyTransferred)
      else (t\<lparr>tr_state := InTransfer\<rparr>, Inr (token_new current_domain target addr sz)))"

definition complete_transfer :: "OwnershipToken \<Rightarrow> DomainId \<Rightarrow> 'a Transferable \<Rightarrow> 'a Transferable" where
  "complete_transfer tok new_owner t = t\<lparr>tr_owner := new_owner, tr_state := Owned\<rparr>"

text \<open>\<open>get\<close>, and with the same checks \<open>get_mut\<close>.\<close>

definition transferable_get :: "'a Transferable \<Rightarrow> DomainId \<Rightarrow> OwnershipError + 'a" where
  "transferable_get t accessor =
     (if tr_owner t \<noteq> accessor then Inl NotOwner
      else if tr_state t \<noteq> Owned then Inl AlreadyTransferred
      else Inr (data t))"

record ZeroCopyTransfer =
  zc_ptr :: usize
  zc_size :: usize
  original_owner :: DomainId
  current_owner :: DomainId
  valid :: bool

definition zc_from_ptr :: "usize \<Rightarrow> usize \<Rightarrow> DomainId \<Rightarrow> ZeroCopyTransfer" where
  "zc_from_ptr ptr sz own =
     \<lparr>zc_ptr = ptr, zc_size = sz, original_owner = own, current_owner = own, valid = True\<rparr>"

definition zc_transfer :: "DomainId \<Rightarrow> DomainId \<Rightarrow> ZeroCopyTransfer \<Rightarrow> ZeroCopyTransfer \<times> (OwnershipError + unit)" where
  "zc_transfer frm to z =
     (if \<not> valid z then (z, Inl AlreadyTransferred)
      else if current_owner z \<noteq> frm then (z, Inl NotOwner)
      else (z\<lparr>current_owner := to\<rparr>, Inr ()))"

definition zc_as_ptr :: "ZeroCopyTransfer \<Rightarrow> DomainId \<Rightarrow> OwnershipError + usize" where
  "zc_as_ptr z accessor =
     (if \<not> valid z then Inl AlreadyTransferred
      else if current_owner z \<noteq> accessor then Inl NotOwner
      else Inr (zc_ptr z))"

definition zc_invalidate :: "ZeroCopyTransfer \<Rightarrow> ZeroCopyTransfer" where
  "zc_invalidate z = z\<lparr>valid := False\<rparr>"

subsection \<open>The manager\<close>

definition KERNEL :: DomainId where "KERNEL = 0"
definition SAS_BASE_ADDRESS :: u64 where "SAS_BASE_ADDRESS = 0x666666660000"
definition SAS_MAX_ADDRESS :: u64 where "SAS_MAX_ADDRESS = 0xFFFFFFFF0000"
definition KERNEL_BASE :: usize where "KERNEL_BASE = 0"
definition KERNEL_SIZE :: usize where "KERNEL_SIZE = 16 * 1024 * 1024"
definition PAGE_SIZE :: u64 where "PAGE_SIZE = 4096"

definition align_up :: "u64 \<Rightarrow> u64 \<Rightarrow> u64" where
  "align_up addr align = round_up64 addr align"

datatype SasError = OutOfAddressSpace | Ownership OwnershipError | InvalidRegion

record SingleAddressSpaceManager =
  cell_regions :: "(DomainId, MemoryRegion list) btree"
  heap_registry :: HeapRegistry
  next_alloc_addr :: u64
  initialized :: bool

definition sas_new :: SingleAddressSpaceManager where
  "sas_new = \<lparr>cell_regions = [], heap_registry = hr_new, next_alloc_addr = SAS_BASE_ADDRESS, initialized = False\<rparr>"

definition sas_init :: "SingleAddressSpaceManager \<Rightarrow> SingleAddressSpaceManager" where
  "sas_init m =
     (if initialized m then m
      else let kernel_region = \<lparr>start = KERNEL_BASE, rsize = KERNEL_SIZE, permissions = KERNEL_PERMS\<rparr>
           in m\<lparr>initialized := True, cell_regions := bt_insert KERNEL [kernel_region] (cell_regions m)\<rparr>)"

text \<open>\<open>fetch_add\<close> advances the cursor whether or not the request is then refused.\<close>

definition allocate_region ::
  "DomainId \<Rightarrow> usize \<Rightarrow> RegionPermissions \<Rightarrow> SingleAddressSpaceManager \<Rightarrow>
   SingleAddressSpaceManager \<times> (SasError + MemoryRegion)" where
  "allocate_region d sz perms m =
     (let addr = next_alloc_addr m;
          m1 = m\<lparr>next_alloc_addr := wadd64 addr (align_up sz PAGE_SIZE)\<rparr>
      in if SAS_MAX_ADDRESS < wadd64 addr sz then (m1, Inl OutOfAddressSpace)
         else let region = \<lparr>start = addr, rsize = sz, permissions = perms\<rparr>
              in (m1\<lparr>cell_regions := bt_push d region (cell_regions m1)\<rparr>, Inr region))"

text \<open>\<open>change_owner\<close> of \<open>heap_registry.rs\<close> translates the registry's errors.\<close>

fun change_error :: "RegistryError \<Rightarrow> OwnershipError" where
  "change_error NotFound = NotRegistered"
| "change_error PermissionDenied = NotOwner"
| "change_error _ = AlreadyTransferred"

definition change_owner ::
  "usize \<Rightarrow> DomainId \<Rightarrow> DomainId \<Rightarrow> HeapRegistry \<Rightarrow> HeapRegistry \<times> (OwnershipError + unit)" where
  "change_owner ptr frm to r =
     (case transfer_ownership ptr frm to r of (r', res) \<Rightarrow> (r', map_sum change_error id res))"

definition sas_transfer_ownership ::
  "usize \<Rightarrow> DomainId \<Rightarrow> DomainId \<Rightarrow> SingleAddressSpaceManager \<Rightarrow> SingleAddressSpaceManager \<times> (OwnershipError + unit)" where
  "sas_transfer_ownership ptr frm to m =
     (case change_owner ptr frm to (heap_registry m) of
        (r, Inl e) \<Rightarrow> (m\<lparr>heap_registry := r\<rparr>, Inl e)
      | (r, Inr _) \<Rightarrow> (m\<lparr>heap_registry := r\<rparr>, Inr ()))"

definition sas_register_object :: "usize \<Rightarrow> usize \<Rightarrow> DomainId \<Rightarrow> SingleAddressSpaceManager \<Rightarrow> SingleAddressSpaceManager" where
  "sas_register_object ptr sz own m = m\<lparr>heap_registry := register_simple ptr sz own (heap_registry m)\<rparr>"

definition sas_unregister_object :: "usize \<Rightarrow> SingleAddressSpaceManager \<Rightarrow> DomainId option" where
  "sas_unregister_object ptr m = get_owner (heap_registry m) ptr"

definition sas_get_owner :: "SingleAddressSpaceManager \<Rightarrow> usize \<Rightarrow> DomainId option" where
  "sas_get_owner m ptr = get_owner (heap_registry m) ptr"

definition sas_check_access :: "SingleAddressSpaceManager \<Rightarrow> usize \<Rightarrow> DomainId \<Rightarrow> OwnershipError + unit" where
  "sas_check_access m ptr accessor =
     (if accessor = KERNEL then Inr ()
      else case get_owner (heap_registry m) ptr of
             Some own \<Rightarrow> if own = accessor then Inr () else Inl (AccessDenied ptr own accessor)
           | None \<Rightarrow> Inl (UnregisteredPointer ptr))"

definition sas_reclaim_domain_resources :: "DomainId \<Rightarrow> SingleAddressSpaceManager \<Rightarrow> SingleAddressSpaceManager \<times> usize" where
  "sas_reclaim_domain_resources d m =
     (case reclaim_all d (heap_registry m) of
        (r, cnt) \<Rightarrow> (m\<lparr>heap_registry := r, cell_regions := bt_remove d (cell_regions m)\<rparr>, cnt))"

record SasStats =
  total_regions :: usize
  total_objects :: usize
  sas_domains :: usize
  next_addr :: u64

definition sas_stats :: "SingleAddressSpaceManager \<Rightarrow> SasStats" where
  "sas_stats m =
     \<lparr>total_regions = sum_list (map (\<lambda>(_, v). length v) (cell_regions m)),
      total_objects = object_count (heap_registry m),
      sas_domains = length (cell_regions m), next_addr = next_alloc_addr m\<rparr>"

subsection \<open>Regions never overlap\<close>

definition region_set :: "MemoryRegion \<Rightarrow> nat set" where
  "region_set r = {start r..<start r + rsize r}"

text \<open>
  Every region ends at or below the cursor, and two regions, of one cell or of two, are disjoint.
\<close>

definition sas_inv :: "SingleAddressSpaceManager \<Rightarrow> bool" where
  "sas_inv m = (initialized m \<and> bt_wf (cell_regions m) \<and> reg_inv (heap_registry m) \<and> SAS_BASE_ADDRESS \<le> next_alloc_addr m \<and>
     (\<forall>d r. r \<in> set (bt_list (cell_regions m) d) \<longrightarrow> start r + rsize r \<le> next_alloc_addr m) \<and>
     (\<forall>d i e j. i < length (bt_list (cell_regions m) d) \<and> j < length (bt_list (cell_regions m) e) \<and> (d, i) \<noteq> (e, j) \<longrightarrow>
        region_set (bt_list (cell_regions m) d ! i) \<inter> region_set (bt_list (cell_regions m) e ! j) = {}))"

lemma align_up_bounds:
  assumes "n + 4096 < U64_MOD"
  shows "n \<le> align_up n PAGE_SIZE" and "align_up n PAGE_SIZE < n + 4096"
  using round_up64_bounds [of n 12] assms by (simp_all add: align_up_def PAGE_SIZE_def)

lemma bt_list_insert: "bt_wf m \<Longrightarrow> bt_list (bt_insert k v m) j = (if j = k then v else bt_list m j)"
  by (simp add: bt_list_def)

lemma sas_inv_boot: "sas_inv (sas_init sas_new)"
  by (auto simp: sas_inv_def sas_new_def sas_init_def Let_def bt_list_def KERNEL_BASE_def KERNEL_SIZE_def
      SAS_BASE_ADDRESS_def less_Suc_eq split: if_splits)

text \<open>The cell map may lose lists and gain regions above the cursor.\<close>

lemma sas_inv_shrink:
  assumes "sas_inv m" and "bt_wf c" and "reg_inv h"
    and "\<And>d. bt_list c d = bt_list (cell_regions m) d \<or> bt_list c d = []"
  shows "sas_inv (m\<lparr>heap_registry := h, cell_regions := c\<rparr>)"
proof -
  have "i < length (bt_list (cell_regions m) d) \<and> bt_list c d ! i = bt_list (cell_regions m) d ! i"
    if "i < length (bt_list c d)" for d i using assms(4) [of d] that by auto
  moreover have "r \<in> set (bt_list (cell_regions m) d)" if "r \<in> set (bt_list c d)" for d r
    using assms(4) [of d] that by auto
  ultimately show ?thesis using assms(1-3) unfolding sas_inv_def by simp metis
qed

lemma sas_inv_push:
  assumes inv: "sas_inv m" and s: "start r = next_alloc_addr m" and n: "start r + rsize r \<le> nx"
  shows "sas_inv (m\<lparr>next_alloc_addr := nx, cell_regions := bt_push d r (cell_regions m)\<rparr>)"
proof -
  let ?c = "cell_regions m" and ?c' = "bt_push d r (cell_regions m)"
  from inv have wf: "bt_wf ?c" and below: "\<And>e q. q \<in> set (bt_list ?c e) \<Longrightarrow> start q + rsize q \<le> next_alloc_addr m"
    and base: "SAS_BASE_ADDRESS \<le> next_alloc_addr m"
    and disj: "\<And>e i f j. i < length (bt_list ?c e) \<Longrightarrow> j < length (bt_list ?c f) \<Longrightarrow> (e, i) \<noteq> (f, j) \<Longrightarrow>
        region_set (bt_list ?c e ! i) \<inter> region_set (bt_list ?c f ! j) = {}"
    by (auto simp: sas_inv_def)
  have new: "region_set q \<inter> region_set r = {}" if "q \<in> set (bt_list ?c e)" for e q
    using below [OF that] s by (auto simp: region_set_def)
  have get: "(e = d \<and> i = length (bt_list ?c d) \<and> bt_list ?c' e ! i = r) \<or>
      (i < length (bt_list ?c e) \<and> bt_list ?c' e ! i = bt_list ?c e ! i)" if "i < length (bt_list ?c' e)" for e i
    using that wf by (auto simp: nth_append less_Suc_eq)
  have "region_set (bt_list ?c' e ! i) \<inter> region_set (bt_list ?c' f ! j) = {}"
    if "i < length (bt_list ?c' e)" "j < length (bt_list ?c' f)" "(e, i) \<noteq> (f, j)" for e i f j
    using get [OF that(1)] get [OF that(2)] that(3) disj new nth_mem by (metis Int_commute)
  moreover have "start q + rsize q \<le> nx" if "q \<in> set (bt_list ?c' e)" for e q
    using that below [of q e] s n wf by (auto split: if_splits)
  moreover have "SAS_BASE_ADDRESS \<le> nx" using base s n by simp
  ultimately show ?thesis using inv wf unfolding sas_inv_def by (simp add: wf_push)
qed

lemma sas_inv_next:
  assumes "sas_inv m" and "next_alloc_addr m \<le> nx"
  shows "sas_inv (m\<lparr>next_alloc_addr := nx\<rparr>)"
  using assms unfolding sas_inv_def by (auto intro: le_trans)

lemma allocate_region_inv:
  assumes inv: "sas_inv m" and room: "next_alloc_addr m + (n + 4096) < U64_MOD"
  shows "sas_inv (fst (allocate_region d n p m))"
    and "next_alloc_addr (fst (allocate_region d n p m)) \<le> next_alloc_addr m + (n + 4096)"
    and "snd (allocate_region d n p m) = Inr r \<Longrightarrow> start r = next_alloc_addr m \<and> rsize r = n \<and>
      start r + rsize r \<le> SAS_MAX_ADDRESS"
proof -
  have fit: "n + 4096 < U64_MOD" using room by simp
  note al = align_up_bounds [OF fit]
  have nx: "wadd64 (next_alloc_addr m) (align_up n PAGE_SIZE) = next_alloc_addr m + align_up n PAGE_SIZE"
    and e: "wadd64 (next_alloc_addr m) n = next_alloc_addr m + n"
    using room al(2) by (simp_all add: wadd64_exact)
  let ?m1 = "m\<lparr>next_alloc_addr := next_alloc_addr m + align_up n PAGE_SIZE\<rparr>"
  let ?r = "\<lparr>start = next_alloc_addr m, rsize = n, permissions = p\<rparr>"
  have "sas_inv ?m1" by (rule sas_inv_next [OF inv]) simp
  moreover have "sas_inv (?m1\<lparr>cell_regions := bt_push d ?r (cell_regions m)\<rparr>)"
    using sas_inv_push [OF inv, of ?r "next_alloc_addr m + align_up n PAGE_SIZE" d] al(1) by simp
  ultimately show "sas_inv (fst (allocate_region d n p m))"
    by (simp add: allocate_region_def Let_def nx)
  show "next_alloc_addr (fst (allocate_region d n p m)) \<le> next_alloc_addr m + (n + 4096)"
    using al(2) by (simp add: allocate_region_def Let_def nx)
  show "start r = next_alloc_addr m \<and> rsize r = n \<and> start r + rsize r \<le> SAS_MAX_ADDRESS"
    if "snd (allocate_region d n p m) = Inr r"
    using that by (auto simp: allocate_region_def Let_def e split: if_splits)
qed

subsection \<open>Sequences of operations\<close>

datatype sas_op = SasInit | SasAllocate DomainId usize RegionPermissions | SasRegister usize usize DomainId
  | SasTransfer usize DomainId DomainId | SasReclaim DomainId

fun sas_step :: "sas_op \<Rightarrow> SingleAddressSpaceManager \<Rightarrow> SingleAddressSpaceManager" where
  "sas_step SasInit m = sas_init m"
| "sas_step (SasAllocate d n p) m = fst (allocate_region d n p m)"
| "sas_step (SasRegister a n d) m = sas_register_object a n d m"
| "sas_step (SasTransfer a f t) m = fst (sas_transfer_ownership a f t m)"
| "sas_step (SasReclaim d) m = fst (sas_reclaim_domain_resources d m)"

definition sas_run :: "sas_op list \<Rightarrow> SingleAddressSpaceManager \<Rightarrow> SingleAddressSpaceManager" where
  "sas_run = fold sas_step"

fun sas_fits :: "sas_op \<Rightarrow> bool" where
  "sas_fits (SasRegister a n d) = (a + n < U64_MOD)"
| "sas_fits _ = True"

text \<open>How far an operation may advance the address cursor.\<close>

fun sas_bytes :: "sas_op \<Rightarrow> nat" where
  "sas_bytes (SasAllocate d n p) = n + 4096"
| "sas_bytes _ = 0"

lemma map_sum_Inr: "map_sum f g x = Inr y \<longleftrightarrow> (\<exists>z. x = Inr z \<and> y = g z)"
  by (cases x) auto

lemma change_owner_registry: "fst (change_owner a f t r) = fst (transfer_ownership a f t r)"
  by (simp add: change_owner_def split: prod.splits)

lemma sas_transfer_registry:
  "fst (sas_transfer_ownership a f t m) = m\<lparr>heap_registry := fst (transfer_ownership a f t (heap_registry m))\<rparr>"
  using change_owner_registry [of a f t "heap_registry m"]
  by (auto simp: sas_transfer_ownership_def split: prod.splits sum.splits)

lemma sas_inv_registry: "sas_inv m \<Longrightarrow> reg_inv (heap_registry m)"
  by (simp add: sas_inv_def)

lemma sas_inv_heap: "sas_inv m \<Longrightarrow> reg_inv h \<Longrightarrow> sas_inv (m\<lparr>heap_registry := h\<rparr>)"
  by (simp add: sas_inv_def)

lemma sas_step_inv:
  assumes inv: "sas_inv m" and "sas_fits q" and "next_alloc_addr m + sas_bytes q < U64_MOD"
  shows "sas_inv (sas_step q m) \<and> next_alloc_addr (sas_step q m) \<le> next_alloc_addr m + sas_bytes q"
proof (cases q)
  case SasInit
  with inv show ?thesis by (simp add: sas_init_def sas_inv_def)
next
  case (SasAllocate d n p)
  with allocate_region_inv [OF inv, of n d p] assms(3) show ?thesis by simp
next
  case (SasRegister a n d)
  with assms show ?thesis using hreg.add [OF sas_inv_registry [OF inv], of a n d]
    by (simp add: sas_register_object_def sas_inv_heap)
next
  case (SasTransfer a f t)
  with inv show ?thesis using hreg.transfer_invar [OF sas_inv_registry [OF inv]]
    by (simp add: sas_transfer_registry sas_inv_heap)
next
  case (SasReclaim d)
  obtain r c where rc: "reclaim_all d (heap_registry m) = (r, c)" by (cases "reclaim_all d (heap_registry m)")
  with hreg.reclaim [OF sas_inv_registry [OF inv], of d] have "reg_inv r" by simp
  moreover have wf: "bt_wf (cell_regions m)" using inv by (simp add: sas_inv_def)
  ultimately have "sas_inv (m\<lparr>heap_registry := r, cell_regions := bt_remove d (cell_regions m)\<rparr>)"
    by (intro sas_inv_shrink [OF inv]) (auto simp: wf_remove)
  with SasReclaim rc show ?thesis by (simp add: sas_reclaim_domain_resources_def)
qed

lemma sas_run_inv:
  assumes "sas_inv m" and "list_all sas_fits qs"
    and "next_alloc_addr m + sum_list (map sas_bytes qs) < U64_MOD"
  shows "sas_inv (sas_run qs m)"
  using assms
proof (induction qs arbitrary: m)
  case (Cons q qs)
  then have "sas_inv (sas_step q m) \<and> next_alloc_addr (sas_step q m) \<le> next_alloc_addr m + sas_bytes q"
    by (intro sas_step_inv) simp_all
  with Cons show ?case by (simp add: sas_run_def)
qed (simp add: sas_run_def)

subsection \<open>Properties\<close>



text \<open>
  C21: A successful transfer moves the access to every address of the object at once: before it the
  old owner is admitted, after it the new owner is, and the old owner, unless it is the kernel, is
  refused with the new owner's name.
\<close>

theorem sas_transfer_moves_access:
  assumes "sas_inv m" and "get_object (heap_registry m) a = Some obj" and "p \<in> {a..<a + size obj}"
    and "sas_transfer_ownership a f t m = (m', Inr ())" and "t \<noteq> f"
  shows "sas_check_access m p f = Inr () \<and> sas_check_access m' p t = Inr () \<and>
    (f \<noteq> KERNEL \<longrightarrow> sas_check_access m' p f = Inl (AccessDenied p t f))"
proof -
  let ?r = "heap_registry m" and ?r' = "heap_registry m'"
  note inv = sas_inv_registry [OF assms(1)]
  have m': "?r' = fst (transfer_ownership a f t ?r)"
    using sas_transfer_registry [of a f t m] assms(4) by simp
  have ok: "snd (transfer_ownership a f t ?r) = Inr ()"
    using assms(4) by (auto simp: sas_transfer_ownership_def change_owner_def map_sum_Inr split: prod.splits sum.splits)
  have inv': "reg_inv ?r'" unfolding m' by (rule hreg.transfer_invar [OF inv])
  have obj: "bt_get (objects ?r) a = Some obj" using assms(2) by (simp add: get_object_def)
  with ok have own: "owner obj = f" and obj': "bt_get (objects ?r') a = Some (obj\<lparr>owner := t\<rparr>)"
    unfolding m' by (auto simp: transfer_ownership_def Let_def drop_index_def split: if_splits)
  have "holds ?r p a obj" "holds ?r' p a (obj\<lparr>owner := t\<rparr>)" "owner (obj\<lparr>owner := t\<rparr>) = t"
    using assms(3) obj obj' by (auto simp: holds_def)
  then have "get_owner ?r p = Some f" "get_owner ?r' p = Some t"
    using get_owner_holds [OF inv, of p f] get_owner_holds [OF inv', of p t] own by blast+
  then show ?thesis using assms(5) by (simp add: sas_check_access_def)
qed

theorem sas_transfer_moves_access_witness:
  "let m = sas_register_object 4096 64 1 (sas_init sas_new); m' = fst (sas_transfer_ownership 4096 1 2 m)
   in sas_check_access m' 4100 1 = Inl (AccessDenied 4100 2 1)"
proof -
  let ?m = "sas_register_object 4096 64 1 (sas_init sas_new)"
  let ?m' = "fst (sas_transfer_ownership 4096 1 2 ?m)"
  let ?obj = "\<lparr>address = 4096, size = 64, owner = 1, type_id = 0, generation = 1, ref_count = 1\<rparr>"
  have "sas_inv ?m" using sas_step_inv [OF sas_inv_boot, of "SasRegister 4096 64 1"]
    by (simp add: U64_MOD_def sas_init_def sas_new_def SAS_BASE_ADDRESS_def Let_def)
  moreover have "get_object (heap_registry ?m) 4096 = Some ?obj"
    by (simp add: sas_register_object_def register_simple_def register_def get_object_def sas_init_def sas_new_def
        hr_new_def check_overlap_def bt_range_lt_def Let_def)
  moreover have "snd (sas_transfer_ownership 4096 1 2 ?m) = Inr ()" by code_simp
  ultimately show ?thesis unfolding Let_def
    using sas_transfer_moves_access [of ?m 4096 ?obj 4100 1 2 ?m'] by (simp add: KERNEL_def prod_eq_iff)
qed

text \<open>
  The transfer protocol of \<open>Transferable\<close>: at any time at most one domain reads the data; from
  the start of a transfer to its completion no domain does, not even the sender; the token is
  accepted by its destination only; completion hands the data to the receiver unchanged.
\<close>

lemma transferable_protocol:
  assumes "begin_transfer addr sz f to t = (t', Inr tok)"
  shows "transferable_get t f = Inr (data t) \<and> (\<forall>d. d \<noteq> f \<longrightarrow> transferable_get t d = Inl NotOwner) \<and>
    (\<forall>d. \<exists>e. transferable_get t' d = Inl e) \<and> (\<forall>g u. \<exists>e. snd (begin_transfer addr sz g u t') = Inl e) \<and>
    (\<forall>d. token_complete tok d = (if d = to then Inr addr else Inl NotOwner)) \<and>
    transferable_get (complete_transfer tok to t') to = Inr (data t)"
  using assms
  by (auto simp: begin_transfer_def transferable_get_def token_complete_def token_new_def complete_transfer_def
      split: if_splits)

end
