(* ===== verification/FreeChain.thy ===== *)
theory FreeChain
  imports Prelude
begin

text \<open>
  Free lists threaded through the free memory itself, as the exchange heap and the slab caches
  keep them: \<open>chain nx h as\<close> says that following the next pointers \<open>nx\<close> from the head \<open>h\<close>
  visits exactly the addresses \<open>as\<close> and then ends.
\<close>

fun chain :: "(usize \<Rightarrow> usize option) \<Rightarrow> usize option \<Rightarrow> usize list \<Rightarrow> bool" where
  "chain nx h [] = (h = None)"
| "chain nx h (a # as) = (h = Some a \<and> chain nx (nx a) as)"

lemma chain_None [simp]: "chain nx None as \<longleftrightarrow> as = []"
  by (cases as) auto

lemma chain_Some: "chain nx (Some a) as \<longleftrightarrow> (\<exists>bs. as = a # bs \<and> chain nx (nx a) bs)"
  by (cases as) auto

lemma chain_unique: "chain nx h as \<Longrightarrow> chain nx h bs \<Longrightarrow> as = bs"
  by (induction as arbitrary: h bs) (auto simp: chain_Some)

lemma chain_cong: "(\<And>a. a \<in> set as \<Longrightarrow> nx' a = nx a) \<Longrightarrow> chain nx' h as = chain nx h as"
  by (induction as arbitrary: h) auto

lemma chain_upd [simp]: "a \<notin> set as \<Longrightarrow> chain (nx(a := v)) h as = chain nx h as"
  by (rule chain_cong) auto

lemma chain_suffix: "chain nx h (pre @ a # post) \<Longrightarrow> chain nx (nx a) post"
  by (induction pre arbitrary: h) auto

text \<open>Redirecting the next pointer of one cell replaces what follows it.\<close>

lemma chain_relink:
  assumes "chain nx h (pre @ a # as)" and "\<And>b. b \<in> set pre \<Longrightarrow> nx' b = nx b" and "chain nx' (nx' a) bs"
  shows "chain nx' h (pre @ a # bs)"
  using assms by (induction pre arbitrary: h) auto

end
