(* ===== verification/ExchangeHeap.thy ===== *)
theory ExchangeHeap
  imports FramePool FreeChain
begin

text \<open>
  The exchange heap, \<open>src/src/mm/exchange_heap.rs\<close>: a first-fit allocator whose free blocks are
  linked through headers stored in the free memory itself, and the slices built on it. The headers
  are an explicit store from addresses to header contents; a header is 16 bytes with alignment 8
  on the kernel's target. What clients write into allocated memory is not part of the store.
\<close>

subsection \<open>The heap\<close>

record FreeBlock =
  fb_size :: usize
  fb_next :: "usize option"

record SimpleFreeListHeap =
  heap_start :: usize
  heap_end :: usize
  free_list_head :: "usize option"
  allocated_bytes :: usize
  headers :: "usize \<Rightarrow> FreeBlock"

record Layout =
  l_size :: usize
  l_align :: usize

definition SIZE_OF_FREE_BLOCK :: usize where "SIZE_OF_FREE_BLOCK = 16"
definition ALIGN_OF_FREE_BLOCK :: usize where "ALIGN_OF_FREE_BLOCK = 8"

text \<open>\<open>NonNull::new\<close>\<close>

definition non_null :: "usize \<Rightarrow> usize option" where
  "non_null a = (if a = 0 then None else Some a)"

definition eh_empty :: SimpleFreeListHeap where
  "eh_empty = \<lparr>heap_start = 0, heap_end = 0, free_list_head = None, allocated_bytes = 0,
     headers = (\<lambda>_. \<lparr>fb_size = 0, fb_next = None\<rparr>)\<rparr>"

definition eh_init :: "usize \<Rightarrow> usize \<Rightarrow> SimpleFreeListHeap \<Rightarrow> SimpleFreeListHeap" where
  "eh_init s n h =
     (let h1 = h\<lparr>heap_start := s, heap_end := wadd64 s n, allocated_bytes := 0\<rparr>
      in if SIZE_OF_FREE_BLOCK \<le> n
         then h1\<lparr>headers := (headers h1)(s := \<lparr>fb_size = n, fb_next = None\<rparr>), free_list_head := non_null s\<rparr>
         else h1)"

text \<open>Storing into \<open>prev.next\<close>, or into the head when there is no previous block.\<close>

definition relink :: "usize option \<Rightarrow> usize option \<Rightarrow> SimpleFreeListHeap \<Rightarrow> SimpleFreeListHeap" where
  "relink prev v h =
     (case prev of
        Some p \<Rightarrow> h\<lparr>headers := (headers h)(p := (headers h p)\<lparr>fb_next := v\<rparr>)\<rparr>
      | None \<Rightarrow> h\<lparr>free_list_head := v\<rparr>)"

text \<open>The body of the loop once a block is large enough: split it or take it whole.\<close>

definition take_block ::
  "usize \<Rightarrow> usize \<Rightarrow> usize option \<Rightarrow> usize \<Rightarrow> SimpleFreeListHeap \<Rightarrow> SimpleFreeListHeap" where
  "take_block align sz prev block_addr h =
     (let block = headers h block_addr;
          aligned_addr = round_up64 block_addr align;
          total_needed = wadd64 (wsub64 aligned_addr block_addr) sz;
          remaining = fb_size block - total_needed;
          h1 = (if SIZE_OF_FREE_BLOCK + 16 \<le> remaining
                then let new_block_addr = wadd64 aligned_addr sz;
                         h' = h\<lparr>headers := (headers h)(new_block_addr := \<lparr>fb_size = remaining, fb_next = fb_next block\<rparr>)\<rparr>
                     in relink prev (non_null new_block_addr) h'
                else relink prev (fb_next block) h)
      in h1\<lparr>allocated_bytes := wadd64 (allocated_bytes h1) total_needed\<rparr>)"

definition block_fits :: "usize \<Rightarrow> usize \<Rightarrow> SimpleFreeListHeap \<Rightarrow> usize \<Rightarrow> bool" where
  "block_fits align sz h block_addr =
     (wadd64 (wsub64 (round_up64 block_addr align) block_addr) sz \<le> fb_size (headers h block_addr))"

text \<open>The \<open>while let\<close> loop; a list with a cycle would keep it running, which is the value \<open>None\<close>.\<close>

partial_function (option) eh_scan ::
  "usize \<Rightarrow> usize \<Rightarrow> usize option \<Rightarrow> usize option \<Rightarrow> SimpleFreeListHeap \<Rightarrow> (SimpleFreeListHeap \<times> (unit + usize)) option" where
  "eh_scan align sz prev current h =
     (case current of
        None \<Rightarrow> Some (h, Inl ())
      | Some block_addr \<Rightarrow>
          if block_fits align sz h block_addr
          then Some (take_block align sz prev block_addr h, Inr (round_up64 block_addr align))
          else eh_scan align sz current (fb_next (headers h block_addr)) h)"

declare eh_scan.simps [code]

definition allocate_first_fit :: "Layout \<Rightarrow> SimpleFreeListHeap \<Rightarrow> (SimpleFreeListHeap \<times> (unit + usize)) option" where
  "allocate_first_fit layout h =
     eh_scan (max (l_align layout) ALIGN_OF_FREE_BLOCK) (max (l_size layout) SIZE_OF_FREE_BLOCK)
       None (free_list_head h) h"

definition eh_deallocate :: "Layout \<Rightarrow> usize \<Rightarrow> SimpleFreeListHeap \<Rightarrow> SimpleFreeListHeap" where
  "eh_deallocate layout addr h =
     (let sz = max (l_size layout) SIZE_OF_FREE_BLOCK
      in if addr < heap_start h \<or> heap_end h \<le> addr then h
         else h\<lparr>headers := (headers h)(addr := \<lparr>fb_size = sz, fb_next = free_list_head h\<rparr>),
                free_list_head := non_null addr,
                allocated_bytes := saturating_sub64 (allocated_bytes h) sz\<rparr>)"

definition eh_used :: "SimpleFreeListHeap \<Rightarrow> usize" where
  "eh_used h = allocated_bytes h"

definition eh_free :: "SimpleFreeListHeap \<Rightarrow> usize" where
  "eh_free h = saturating_sub64 (wsub64 (heap_end h) (heap_start h)) (allocated_bytes h)"

text \<open>\<open>ExchangeHeap::allocate\<close>; a search that does not return changes nothing and yields nothing.\<close>

definition eh_allocate :: "Layout \<Rightarrow> SimpleFreeListHeap \<Rightarrow> SimpleFreeListHeap \<times> usize option" where
  "eh_allocate layout h =
     (case allocate_first_fit layout h of
        Some (h', Inr p) \<Rightarrow> (h', Some p)
      | Some (h', Inl _) \<Rightarrow> (h', None)
      | None \<Rightarrow> (h, None))"

record HeapStats =
  hs_allocated :: usize
  hs_free :: usize

definition eh_stats :: "SimpleFreeListHeap \<Rightarrow> HeapStats" where
  "eh_stats h = \<lparr>hs_allocated = eh_used h, hs_free = eh_free h\<rparr>"

subsection \<open>Slices\<close>

text \<open>\<open>Layout::array\<close>: the total size must not exceed \<open>isize::MAX\<close> when rounded up to the alignment.\<close>

definition layout_array :: "usize \<Rightarrow> usize \<Rightarrow> usize \<Rightarrow> Layout option" where
  "layout_array esize ealign n =
     (if n * esize \<le> 2 ^ 63 - ealign then Some \<lparr>l_size = n * esize, l_align = ealign\<rparr> else None)"

text \<open>
  \<open>UninitializedSlice\<close>: \<open>cells\<close> is the memory of the slice, \<open>None\<close> for an element that was never
  written. \<open>esize\<close> and \<open>ealign\<close> are the size and alignment of the element type.
\<close>

record 'a UninitializedSlice =
  us_ptr :: usize
  us_len :: usize
  us_layout :: Layout
  initialized_count :: usize
  cells :: "nat \<Rightarrow> 'a option"

record 'a InitializedSlice =
  is_ptr :: usize
  is_len :: usize
  is_layout :: Layout
  is_cells :: "nat \<Rightarrow> 'a option"

datatype ExchangeHeapError = OutOfMemory | SliceFull | PartiallyInitialized

definition allocate_uninit_slice ::
  "usize \<Rightarrow> usize \<Rightarrow> usize \<Rightarrow> SimpleFreeListHeap \<Rightarrow> SimpleFreeListHeap \<times> (usize \<times> Layout) option" where
  "allocate_uninit_slice esize ealign n h =
     (if n = 0 then (h, None)
      else case layout_array esize ealign n of
             None \<Rightarrow> (h, None)
           | Some layout \<Rightarrow> (case eh_allocate layout h of
                 (h', None) \<Rightarrow> (h', None)
               | (h', Some p) \<Rightarrow> (h', Some (p, layout))))"

definition us_new ::
  "usize \<Rightarrow> usize \<Rightarrow> usize \<Rightarrow> SimpleFreeListHeap \<Rightarrow> SimpleFreeListHeap \<times> 'a UninitializedSlice option" where
  "us_new esize ealign n h =
     (case allocate_uninit_slice esize ealign n h of
        (h', None) \<Rightarrow> (h', None)
      | (h', Some (p, layout)) \<Rightarrow>
          (h', Some \<lparr>us_ptr = p, us_len = n, us_layout = layout, initialized_count = 0, cells = (\<lambda>_. None)\<rparr>))"

definition is_fully_initialized :: "'a UninitializedSlice \<Rightarrow> bool" where
  "is_fully_initialized s = (initialized_count s = us_len s)"

definition init_at :: "nat \<Rightarrow> 'a \<Rightarrow> 'a UninitializedSlice \<Rightarrow> 'a UninitializedSlice" where
  "init_at i v s = s\<lparr>cells := (cells s)(i \<mapsto> v), initialized_count := max (initialized_count s) (i + 1)\<rparr>"

definition init_next :: "'a \<Rightarrow> 'a UninitializedSlice \<Rightarrow> 'a UninitializedSlice \<times> (ExchangeHeapError + unit)" where
  "init_next v s =
     (if us_len s \<le> initialized_count s then (s, Inl SliceFull)
      else let s1 = init_at (initialized_count s) v s
           in (s1\<lparr>initialized_count := initialized_count s1 + 1\<rparr>, Inr ()))"

definition assume_init :: "'a UninitializedSlice \<Rightarrow> 'a InitializedSlice" where
  "assume_init s = \<lparr>is_ptr = us_ptr s, is_len = us_len s, is_layout = us_layout s, is_cells = cells s\<rparr>"

definition try_into_initialized :: "'a UninitializedSlice \<Rightarrow> 'a UninitializedSlice + 'a InitializedSlice" where
  "try_into_initialized s = (if is_fully_initialized s then Inr (assume_init s) else Inl s)"

fun init_items :: "nat \<Rightarrow> 'a list \<Rightarrow> 'a UninitializedSlice \<Rightarrow> 'a UninitializedSlice" where
  "init_items i [] s = s"
| "init_items i (v # vs) s = (if us_len s \<le> i then s else init_items (Suc i) vs (init_at i v s))"

definition init_from_iter :: "'a list \<Rightarrow> 'a UninitializedSlice \<Rightarrow> 'a UninitializedSlice + 'a InitializedSlice" where
  "init_from_iter items s = try_into_initialized (init_items 0 items s)"

text \<open>
  \<open>allocate_slice_with\<close> writes \<open>init i\<close> to every element; \<open>allocate_slice_default\<close> is the
  constant case. Zeroed slices are allocated like uninitialised ones.
\<close>

definition allocate_slice_with ::
  "usize \<Rightarrow> usize \<Rightarrow> usize \<Rightarrow> (nat \<Rightarrow> 'a) \<Rightarrow> SimpleFreeListHeap \<Rightarrow>
   SimpleFreeListHeap \<times> (usize \<times> Layout \<times> (nat \<Rightarrow> 'a option)) option" where
  "allocate_slice_with esize ealign n init h =
     (case allocate_uninit_slice esize ealign n h of
        (h', None) \<Rightarrow> (h', None)
      | (h', Some (p, layout)) \<Rightarrow> (h', Some (p, layout, fold (\<lambda>i c. c(i \<mapsto> init i)) [0..<n] (\<lambda>_. None))))"

definition is_with_init ::
  "usize \<Rightarrow> usize \<Rightarrow> usize \<Rightarrow> (nat \<Rightarrow> 'a) \<Rightarrow> SimpleFreeListHeap \<Rightarrow> SimpleFreeListHeap \<times> 'a InitializedSlice option" where
  "is_with_init esize ealign n init h =
     (case allocate_slice_with esize ealign n init h of
        (h', None) \<Rightarrow> (h', None)
      | (h', Some (p, layout, c)) \<Rightarrow> (h', Some \<lparr>is_ptr = p, is_len = n, is_layout = layout, is_cells = c\<rparr>))"

text \<open>Release: what happens to the heap when a slice is dropped or freed.\<close>

definition deallocate_slice :: "usize \<Rightarrow> usize \<Rightarrow> usize \<Rightarrow> usize \<Rightarrow> SimpleFreeListHeap \<Rightarrow> SimpleFreeListHeap" where
  "deallocate_slice esize ealign p n h =
     (if n = 0 then h
      else case layout_array esize ealign n of None \<Rightarrow> h | Some layout \<Rightarrow> eh_deallocate layout p h)"

definition is_drop :: "'a InitializedSlice \<Rightarrow> SimpleFreeListHeap \<Rightarrow> SimpleFreeListHeap" where
  "is_drop s h = (if 0 < is_len s then eh_deallocate (is_layout s) (is_ptr s) h else h)"

text \<open>The elements whose destructors run, and the heap afterwards.\<close>

definition us_drop :: "'a UninitializedSlice \<Rightarrow> SimpleFreeListHeap \<Rightarrow> SimpleFreeListHeap \<times> nat list" where
  "us_drop s h = (eh_deallocate (us_layout s) (us_ptr s) h, [0..<initialized_count s])"

subsection \<open>The free list of the heap\<close>

abbreviation "nxt h a \<equiv> fb_next (headers h a)"
abbreviation "len h a \<equiv> fb_size (headers h a)"

definition block_bytes :: "SimpleFreeListHeap \<Rightarrow> usize \<Rightarrow> nat set" where
  "block_bytes h a = {a..<a + len h a}"

definition list_bytes :: "SimpleFreeListHeap \<Rightarrow> usize list \<Rightarrow> nat set" where
  "list_bytes h as = (\<Union>a \<in> set as. block_bytes h a)"

text \<open>
  The blocks of a list: within the heap, large enough for a header, and one after another disjoint.
  The heap leaves room above its end for rounding up to the largest alignment.
\<close>

definition blocks_wf :: "usize \<Rightarrow> usize \<Rightarrow> SimpleFreeListHeap \<Rightarrow> usize list \<Rightarrow> bool" where
  "blocks_wf lo hi h as =
     ((\<forall>a \<in> set as. lo \<le> a \<and> a + len h a \<le> hi \<and> SIZE_OF_FREE_BLOCK \<le> len h a) \<and>
      sorted_wrt (\<lambda>a b. block_bytes h a \<inter> block_bytes h b = {}) as)"

definition eh_inv :: "usize \<Rightarrow> usize \<Rightarrow> SimpleFreeListHeap \<Rightarrow> bool" where
  "eh_inv lo hi h = (heap_start h = lo \<and> heap_end h = hi \<and> 0 < lo \<and> hi + 2 ^ 30 \<le> U64_MOD \<and>
     (\<exists>as. chain (nxt h) (free_list_head h) as \<and> blocks_wf lo hi h as))"

definition eh_bytes :: "SimpleFreeListHeap \<Rightarrow> nat set" where
  "eh_bytes h = (\<Union>as \<in> {as. chain (nxt h) (free_list_head h) as}. list_bytes h as)"

lemma eh_bytes_chain: "chain (nxt h) (free_list_head h) as \<Longrightarrow> eh_bytes h = list_bytes h as"
  by (auto simp: eh_bytes_def dest: chain_unique)

text \<open>A layout the compiler can form: a power-of-two alignment up to \<open>2 ^ 29\<close> and at most \<open>isize::MAX\<close> bytes.\<close>

definition layout_ok :: "Layout \<Rightarrow> bool" where
  "layout_ok l = (l_size l \<le> 2 ^ 63 \<and> (\<exists>k \<le> 29. l_align l = 2 ^ k))"

text \<open>The effective alignment and size of a request.\<close>

definition eff_align :: "Layout \<Rightarrow> usize" where "eff_align l = max (l_align l) ALIGN_OF_FREE_BLOCK"
definition eff_size :: "Layout \<Rightarrow> usize" where "eff_size l = max (l_size l) SIZE_OF_FREE_BLOCK"

definition eh_extent :: "Layout \<Rightarrow> usize \<Rightarrow> nat set" where
  "eh_extent l p = {p..<p + eff_size l}"

definition eh_placed :: "usize \<Rightarrow> usize \<Rightarrow> Layout \<Rightarrow> usize \<Rightarrow> bool" where
  "eh_placed lo hi l p = (lo \<le> p \<and> p + eff_size l \<le> hi \<and> eff_align l dvd p)"

lemma eff_align_pow:
  assumes "layout_ok l"
  shows "\<exists>k \<le> 29. eff_align l = 2 ^ k"
proof -
  from assms obtain k where k: "k \<le> 29" "l_align l = 2 ^ k" by (auto simp: layout_ok_def)
  show ?thesis
  proof (cases "k \<le> 3")
    case True
    then have "(2::nat) ^ k \<le> 2 ^ 3" by (rule power_increasing) simp
    with k(2) have "eff_align l = 2 ^ 3" by (simp add: eff_align_def ALIGN_OF_FREE_BLOCK_def)
    then show ?thesis by (intro exI [of _ 3]) simp
  next
    case False
    then have "(2::nat) ^ 3 \<le> 2 ^ k" by (intro power_increasing) simp_all
    with k show ?thesis by (intro exI [of _ k]) (simp add: eff_align_def ALIGN_OF_FREE_BLOCK_def)
  qed
qed

text \<open>Rounding a block address up neither wraps nor loses more than the alignment.\<close>

lemma round_block:
  assumes "layout_ok l" and "a < hi" and "hi + 2 ^ 30 \<le> U64_MOD"
  shows "a \<le> round_up64 a (eff_align l)" and "round_up64 a (eff_align l) < a + 2 ^ 29"
    and "eff_align l dvd round_up64 a (eff_align l)"
    and "wadd64 (wsub64 (round_up64 a (eff_align l)) a) (eff_size l) = round_up64 a (eff_align l) - a + eff_size l"
proof -
  obtain k where k: "k \<le> 29" "eff_align l = 2 ^ k" using eff_align_pow [OF assms(1)] by blast
  have p: "(2::nat) ^ k \<le> 2 ^ 29" using k(1) by (rule power_increasing) simp
  then have "a + 2 ^ k < U64_MOD" using assms(2,3) by simp
  note r = round_up64_bounds [OF this]
  then show up: "a \<le> round_up64 a (eff_align l)" and lt: "round_up64 a (eff_align l) < a + 2 ^ 29"
    and "eff_align l dvd round_up64 a (eff_align l)" using p by (simp_all add: k(2))
  have "round_up64 a (eff_align l) < U64_MOD" using lt assms(2,3) by simp
  with up have "wsub64 (round_up64 a (eff_align l)) a = round_up64 a (eff_align l) - a"
    by (rule wsub64_exact)
  moreover have "eff_size l \<le> 2 ^ 63" using assms(1) by (simp add: layout_ok_def eff_size_def SIZE_OF_FREE_BLOCK_def)
  ultimately show "wadd64 (wsub64 (round_up64 a (eff_align l)) a) (eff_size l) = round_up64 a (eff_align l) - a + eff_size l"
    using lt by (simp add: wadd64_exact U64_MOD_def)
qed

subsection \<open>The search ends and is first fit\<close>

lemma eh_scan_chain:
  assumes "chain (nxt h) cur as"
  shows "(\<forall>a \<in> set as. \<not> block_fits align sz h a) \<and> eh_scan align sz prev cur h = Some (h, Inl ()) \<or>
    (\<exists>pre b post. as = pre @ b # post \<and> (\<forall>a \<in> set pre. \<not> block_fits align sz h a) \<and> block_fits align sz h b \<and>
       eh_scan align sz prev cur h =
         Some (take_block align sz (if pre = [] then prev else Some (last pre)) b h, Inr (round_up64 b align)))"
  using assms
proof (induction as arbitrary: cur prev)
  case Nil
  then show ?case by (simp add: eh_scan.simps)
next
  case (Cons a as)
  from Cons.prems have cur: "cur = Some a" and rest: "chain (nxt h) (nxt h a) as" by simp_all
  show ?case
  proof (cases "block_fits align sz h a")
    case True
    then show ?thesis by (intro disjI2 exI [of _ "[]"] exI [of _ a] exI [of _ as]) (simp add: eh_scan.simps cur)
  next
    case False
    then have step: "eh_scan align sz prev cur h = eh_scan align sz (Some a) (nxt h a) h"
      by (subst eh_scan.simps) (simp add: cur)
    from Cons.IH [OF rest, of "Some a"] show ?thesis
    proof (elim disjE exE conjE)
      fix pre b post
      assume "as = pre @ b # post" "\<forall>a \<in> set pre. \<not> block_fits align sz h a" "block_fits align sz h b"
        "eh_scan align sz (Some a) (nxt h a) h =
         Some (take_block align sz (if pre = [] then Some a else Some (last pre)) b h, Inr (round_up64 b align))"
      with False step show ?thesis
        by (intro disjI2 exI [of _ "a # pre"] exI [of _ b] exI [of _ post]) simp
    qed (use False step in simp)
  qed
qed

subsection \<open>Taking a block\<close>

lemma relink_frame [simp]:
  "heap_start (relink p v h) = heap_start h" "heap_end (relink p v h) = heap_end h"
  "len (relink p v h) a = len h a" "allocated_bytes (relink p v h) = allocated_bytes h"
  by (auto simp: relink_def split: option.splits)

lemma relink_chain:
  assumes ch: "chain (nxt h) (free_list_head h) (pre @ b # post)"
    and same: "free_list_head h1 = free_list_head h" "\<And>a. a \<in> set pre \<Longrightarrow> nxt h1 a = nxt h a"
    and rest: "chain (nxt h1) v rest" "set pre \<inter> set rest = {}" and "distinct pre"
    and h2: "h2 = relink (if pre = [] then None else Some (last pre)) v h1"
  shows "chain (nxt h2) (free_list_head h2) (pre @ rest)"
proof (cases pre rule: rev_cases)
  case Nil
  then show ?thesis using rest(1) by (simp add: h2 relink_def)
next
  case (snoc pre' p)
  have nx: "nxt h2 = (nxt h1)(p := v)" and hd: "free_list_head h2 = free_list_head h"
    using snoc same(1) by (auto simp: h2 relink_def)
  have "p \<notin> set rest" using rest(2) snoc by auto
  moreover have nxa: "nxt h2 a = (if a = p then v else nxt h1 a)" for a using fun_cong [OF nx, of a] by simp
  ultimately have tail: "chain (nxt h2) (nxt h2 p) rest" unfolding nx using rest(1) by simp
  have pre: "nxt h2 a = nxt h a" if "a \<in> set pre'" for a
    using that snoc assms(6) same(2) by (auto simp: nxa)
  have "chain (nxt h) (free_list_head h) (pre' @ p # b # post)" using ch snoc by simp
  from chain_relink [OF this pre tail] have "chain (nxt h2) (free_list_head h) (pre' @ p # rest)" .
  then show ?thesis using snoc hd by simp
qed

lemma blocks_distinct: "blocks_wf lo hi h as \<Longrightarrow> distinct as"
proof (induction as)
  case (Cons a as)
  have "a \<notin> set as"
  proof
    assume "a \<in> set as"
    with Cons.prems have "block_bytes h a \<inter> block_bytes h a = {}" "SIZE_OF_FREE_BLOCK \<le> len h a"
      by (auto simp: blocks_wf_def)
    then show False by (simp add: block_bytes_def SIZE_OF_FREE_BLOCK_def)
  qed
  with Cons show ?case by (simp add: blocks_wf_def)
qed simp

text \<open>A block of the list is replaced by what is left of it, if anything.\<close>

lemma blocks_replace:
  assumes wf: "blocks_wf lo hi h (pre @ b # post)"
    and len: "\<And>a. a \<in> set pre \<union> set post \<Longrightarrow> len h' a = len h a"
    and left: "left = [] \<or> left = [nb] \<and> SIZE_OF_FREE_BLOCK \<le> len h' nb \<and> block_bytes h' nb \<subseteq> block_bytes h b - E"
    and E: "E \<subseteq> block_bytes h b"
  shows "blocks_wf lo hi h' (pre @ left @ post) \<and>
    list_bytes h' (pre @ left @ post) \<subseteq> list_bytes h (pre @ b # post) - E"
proof -
  have bb: "block_bytes h' a = block_bytes h a" if "a \<in> set pre \<union> set post" for a
    using len [OF that] by (simp add: block_bytes_def)
  have dis: "\<forall>a \<in> set pre \<union> set post. block_bytes h a \<inter> block_bytes h b = {}"
    using wf by (auto simp: blocks_wf_def sorted_wrt_append)
  have srt: "sorted_wrt (\<lambda>a c. block_bytes h a \<inter> block_bytes h c = {}) (pre @ post)"
    using wf by (auto simp: blocks_wf_def sorted_wrt_append)
  have "sorted_wrt (\<lambda>a c. block_bytes h' a \<inter> block_bytes h' c = {}) (pre @ post)"
    by (rule sorted_wrt_mono_rel [OF _ srt]) (simp add: bb)
  moreover have "block_bytes h' a \<inter> block_bytes h' nb = {}" if "left = [nb]" "a \<in> set pre \<union> set post" for a
  proof -
    have "block_bytes h' nb \<subseteq> block_bytes h b" using left that(1) by auto
    moreover have "block_bytes h a \<inter> block_bytes h b = {}" using dis that(2) by blast
    ultimately show ?thesis unfolding bb [OF that(2)] by blast
  qed
  ultimately have "sorted_wrt (\<lambda>a c. block_bytes h' a \<inter> block_bytes h' c = {}) (pre @ left @ post)"
    using left by (elim disjE conjE) (simp_all add: sorted_wrt_append Int_commute)
  moreover have "lo \<le> nb \<and> nb + len h' nb \<le> hi \<and> SIZE_OF_FREE_BLOCK \<le> len h' nb" if "left = [nb]"
  proof -
    have "lo \<le> b" "b + len h b \<le> hi" using wf by (auto simp: blocks_wf_def)
    moreover have "block_bytes h' nb \<subseteq> block_bytes h b" and "SIZE_OF_FREE_BLOCK \<le> len h' nb"
      using left that by blast+
    then have "{nb..<nb + len h' nb} \<subseteq> {b..<b + len h b}" and "SIZE_OF_FREE_BLOCK \<le> len h' nb"
      unfolding block_bytes_def by blast+
    ultimately show ?thesis by (simp add: SIZE_OF_FREE_BLOCK_def)
  qed
  ultimately have "blocks_wf lo hi h' (pre @ left @ post)"
    using wf left len by (auto simp: blocks_wf_def)
  moreover have "list_bytes h' (pre @ left @ post) \<subseteq> list_bytes h (pre @ b # post) - E"
  proof -
    have "block_bytes h' a \<subseteq> list_bytes h (pre @ b # post) - E" if "a \<in> set pre \<union> set post" for a
    proof -
      have "block_bytes h a \<inter> E = {}" using dis that E by blast
      moreover have "block_bytes h a \<subseteq> list_bytes h (pre @ b # post)" using that by (auto simp: list_bytes_def)
      ultimately show ?thesis unfolding bb [OF that] by blast
    qed
    moreover have "block_bytes h' a \<subseteq> list_bytes h (pre @ b # post) - E" if "a \<in> set left" for a
      using left that by (auto simp: list_bytes_def)
    ultimately show ?thesis unfolding list_bytes_def [of h'] by (auto simp del: Diff_iff)
  qed
  ultimately show ?thesis ..
qed

lemma take_block_spec:
  assumes inv: "eh_inv lo hi h" and l: "layout_ok l"
    and ch: "chain (nxt h) (free_list_head h) (pre @ b # post)" and wf: "blocks_wf lo hi h (pre @ b # post)"
    and fits: "block_fits (eff_align l) (eff_size l) h b"
    and h': "h' = take_block (eff_align l) (eff_size l) (if pre = [] then None else Some (last pre)) b h"
    and p: "p = round_up64 b (eff_align l)"
  shows "eh_inv lo hi h'" and "eh_placed lo hi l p" and "eh_extent l p \<subseteq> eh_bytes h"
    and "eh_bytes h' \<subseteq> eh_bytes h - eh_extent l p"
proof -
  from inv have lim: "hi + 2 ^ 30 \<le> U64_MOD" by (simp add: eh_inv_def)
  from wf have b: "lo \<le> b" "b + len h b \<le> hi" "SIZE_OF_FREE_BLOCK \<le> len h b" by (auto simp: blocks_wf_def)
  then have "b < hi" by (simp add: SIZE_OF_FREE_BLOCK_def)
  note r = round_block [OF l this lim, folded p]
  have tn: "p - b + eff_size l \<le> len h b" using fits r(4) by (simp add: block_fits_def p)
  have sz: "SIZE_OF_FREE_BLOCK \<le> eff_size l" by (simp add: eff_size_def)
  have E: "eh_extent l p \<subseteq> block_bytes h b" using tn r(1) by (auto simp: eh_extent_def block_bytes_def)
  show "eh_placed lo hi l p" using b r(1,3) tn by (simp add: eh_placed_def)
  show "eh_extent l p \<subseteq> eh_bytes h" using E unfolding eh_bytes_chain [OF ch] by (auto simp: list_bytes_def)
  have dis: "distinct (pre @ b # post)" using wf by (rule blocks_distinct)
  define rm where "rm = len h b - (p - b + eff_size l)"
  define nb where "nb = p + eff_size l"
  have nbw: "wadd64 p (eff_size l) = nb" "0 < nb" "nb < b + len h b \<or> rm = 0" "b < nb"
    using b tn r(1) lim sz by (auto simp: nb_def rm_def wadd64_exact SIZE_OF_FREE_BLOCK_def)
  define big where "big = (SIZE_OF_FREE_BLOCK + 16 \<le> rm)"
  have nb_new: "nb \<notin> set (pre @ b # post)" if big
  proof
    assume m: "nb \<in> set (pre @ b # post)"
    have "nb \<in> block_bytes h b" using that nbw(3,4) by (simp add: big_def block_bytes_def)
    moreover have "SIZE_OF_FREE_BLOCK \<le> len h nb" using m wf unfolding blocks_wf_def by blast
    then have "nb \<in> block_bytes h nb" by (simp add: block_bytes_def SIZE_OF_FREE_BLOCK_def)
    moreover have "block_bytes h nb \<inter> block_bytes h b = {}"
      using m nbw(4) wf by (auto simp: blocks_wf_def sorted_wrt_append)
    ultimately show False by blast
  qed
  define h1 where "h1 = (if big then h\<lparr>headers := (headers h)(nb := \<lparr>fb_size = rm, fb_next = nxt h b\<rparr>)\<rparr> else h)"
  define left where "left = (if big then [nb] else [])"
  define h2 where "h2 = relink (if pre = [] then None else Some (last pre)) (if big then Some nb else nxt h b) h1"
  have h'2: "h' = h2\<lparr>allocated_bytes := wadd64 (allocated_bytes h2) (p - b + eff_size l)\<rparr>"
    unfolding h' take_block_def h2_def h1_def big_def Let_def p [symmetric] r(4) nbw(1) rm_def [symmetric]
    using nbw(2) by (simp add: non_null_def)
  have post: "chain (nxt h) (nxt h b) post" using ch by (rule chain_suffix)
  have nx1: "nxt h1 = (if big then (nxt h)(nb := nxt h b) else nxt h)" by (auto simp: h1_def)
  have "chain (nxt h1) (if big then Some nb else nxt h b) (left @ post)"
    using post nb_new unfolding nx1 by (simp add: left_def)
  moreover have "set pre \<inter> set (left @ post) = {}" using dis nb_new by (auto simp: left_def)
  moreover have "nxt h1 a = nxt h a" if "a \<in> set pre" for a using that nb_new by (auto simp: h1_def)
  ultimately have ch2: "chain (nxt h2) (free_list_head h2) (pre @ left @ post)"
    using dis by (intro relink_chain [OF ch _ _ _ _ _ h2_def]) (auto simp: h1_def)
  have len: "len h2 a = len h a" if "a \<in> set pre \<union> set post" for a
    using that nb_new by (auto simp: h2_def h1_def)
  have "left = [] \<or> left = [nb] \<and> SIZE_OF_FREE_BLOCK \<le> len h2 nb \<and> block_bytes h2 nb \<subseteq> block_bytes h b - eh_extent l p"
    using tn r(1) by (auto simp: left_def h2_def h1_def big_def block_bytes_def eh_extent_def nb_def rm_def)
  from blocks_replace [OF wf len this E]
  have w2: "blocks_wf lo hi h2 (pre @ left @ post)"
    and y2: "list_bytes h2 (pre @ left @ post) \<subseteq> list_bytes h (pre @ b # post) - eh_extent l p" by simp_all
  have same: "headers h' = headers h2" "free_list_head h' = free_list_head h2" by (simp_all add: h'2)
  have ch': "chain (nxt h') (free_list_head h') (pre @ left @ post)" using ch2 by (simp add: same)
  have "blocks_wf lo hi h' (pre @ left @ post)" "list_bytes h' (pre @ left @ post) = list_bytes h2 (pre @ left @ post)"
    using w2 by (simp_all add: blocks_wf_def list_bytes_def block_bytes_def same)
  with ch' y2 inv show "eh_inv lo hi h'" and "eh_bytes h' \<subseteq> eh_bytes h - eh_extent l p"
    unfolding eh_bytes_chain [OF ch] eh_bytes_chain [OF ch']
    by (auto simp: eh_inv_def h'2 h2_def h1_def)
qed

subsection \<open>The heap is an allocator\<close>

text \<open>The search on a well-formed heap: it returns, and either takes a block or leaves everything alone.\<close>

lemma first_fit_cases:
  assumes inv: "eh_inv lo hi h" and l: "layout_ok l"
  shows "allocate_first_fit l h = Some (h, Inl ()) \<and>
      (\<forall>as. chain (nxt h) (free_list_head h) as \<longrightarrow> (\<forall>a \<in> set as. \<not> block_fits (eff_align l) (eff_size l) h a)) \<or>
    (\<exists>h' p. allocate_first_fit l h = Some (h', Inr p) \<and> eh_inv lo hi h' \<and> eh_placed lo hi l p \<and>
      eh_extent l p \<subseteq> eh_bytes h \<and> eh_bytes h' \<subseteq> eh_bytes h - eh_extent l p)"
proof -
  from inv obtain as where ch: "chain (nxt h) (free_list_head h) as" and wf: "blocks_wf lo hi h as"
    by (auto simp: eh_inv_def)
  have ff: "allocate_first_fit l h = eh_scan (eff_align l) (eff_size l) None (free_list_head h) h"
    by (simp add: allocate_first_fit_def eff_align_def eff_size_def)
  from eh_scan_chain [OF ch, of "eff_align l" "eff_size l" None] show ?thesis
  proof (elim disjE exE conjE)
    assume "\<forall>a \<in> set as. \<not> block_fits (eff_align l) (eff_size l) h a"
      "eh_scan (eff_align l) (eff_size l) None (free_list_head h) h = Some (h, Inl ())"
    with ch ff show ?thesis by (auto dest: chain_unique)
  next
    fix pre b post
    assume as: "as = pre @ b # post" and fits: "block_fits (eff_align l) (eff_size l) h b"
      and sc: "eh_scan (eff_align l) (eff_size l) None (free_list_head h) h =
        Some (take_block (eff_align l) (eff_size l) (if pre = [] then None else Some (last pre)) b h,
          Inr (round_up64 b (eff_align l)))"
    from take_block_spec [OF inv l ch [unfolded as] wf [unfolded as] fits refl refl] sc ff
    show ?thesis by (intro disjI2 exI conjI) simp_all
  qed
qed

lemma eh_deallocate_spec:
  assumes inv: "eh_inv lo hi h" and pl: "eh_placed lo hi l p" and free: "eh_extent l p \<inter> eh_bytes h = {}"
  shows "eh_inv lo hi (eh_deallocate l p h) \<and> eh_bytes (eh_deallocate l p h) = eh_bytes h \<union> eh_extent l p"
proof -
  from inv obtain as where ch: "chain (nxt h) (free_list_head h) as" and wf: "blocks_wf lo hi h as"
    and st: "heap_start h = lo" "heap_end h = hi" "0 < lo" by (auto simp: eh_inv_def)
  have sz: "SIZE_OF_FREE_BLOCK \<le> eff_size l" "0 < eff_size l" by (simp_all add: eff_size_def SIZE_OF_FREE_BLOCK_def)
  let ?h = "eh_deallocate l p h"
  from pl st sz have h': "?h = h\<lparr>headers := (headers h)(p := \<lparr>fb_size = eff_size l, fb_next = free_list_head h\<rparr>),
      free_list_head := Some p, allocated_bytes := saturating_sub64 (allocated_bytes h) (eff_size l)\<rparr>"
    by (auto simp: eh_deallocate_def eh_placed_def eff_size_def Let_def non_null_def)
  have out: "eh_extent l p \<inter> block_bytes h a = {}" if "a \<in> set as" for a
    using free that unfolding eh_bytes_chain [OF ch] list_bytes_def by blast
  have fresh: "p \<notin> set as"
  proof
    assume p: "p \<in> set as"
    with wf have "SIZE_OF_FREE_BLOCK \<le> len h p" unfolding blocks_wf_def by blast
    then have "p \<in> block_bytes h p" by (simp add: block_bytes_def SIZE_OF_FREE_BLOCK_def)
    moreover have "p \<in> eh_extent l p" using sz by (simp add: eh_extent_def)
    ultimately show False using out [OF p] by blast
  qed
  have bb: "block_bytes ?h a = (if a = p then eh_extent l p else block_bytes h a)" for a
    by (simp add: h' block_bytes_def eh_extent_def)
  have "nxt ?h = (nxt h)(p := free_list_head h)" by (auto simp: h')
  then have ch': "chain (nxt ?h) (free_list_head ?h) (p # as)" using ch fresh by (simp add: h')
  have len: "len ?h a = len h a" if "a \<in> set as" for a using that fresh by (auto simp: h')
  have same: "block_bytes ?h a = block_bytes h a" if "a \<in> set as" for a using that fresh bb by auto
  have srt: "sorted_wrt (\<lambda>a b. block_bytes h a \<inter> block_bytes h b = {}) as"
    using wf by (simp add: blocks_wf_def)
  have "sorted_wrt (\<lambda>a b. block_bytes ?h a \<inter> block_bytes ?h b = {}) as"
    by (rule sorted_wrt_mono_rel [OF _ srt]) (simp add: same)
  moreover have "\<forall>a \<in> set as. block_bytes ?h p \<inter> block_bytes ?h a = {}" using out same bb by simp
  ultimately have "blocks_wf lo hi ?h (p # as)"
    using wf pl sz len unfolding blocks_wf_def by (simp add: eh_placed_def h')
  moreover have "list_bytes ?h (p # as) = eh_extent l p \<union> list_bytes h as"
    using same bb [of p] by (simp add: list_bytes_def)
  moreover have "heap_start ?h = lo" "heap_end ?h = hi" using st by (simp_all add: h')
  ultimately show ?thesis using inv ch' unfolding eh_bytes_chain [OF ch] eh_bytes_chain [OF ch'] eh_inv_def
    by blast
qed

interpretation exchange: returning_pool "eh_inv lo hi" layout_ok eh_bytes eh_extent "eh_placed lo hi"
  eh_allocate eh_deallocate for lo hi
proof unfold_locales
  fix s s' l p
  assume inv: "eh_inv lo hi s"
  show "eh_inv lo hi s' \<and> eh_placed lo hi l p \<and> eh_extent l p \<subseteq> eh_bytes s \<and> eh_bytes s' \<subseteq> eh_bytes s - eh_extent l p"
    if "layout_ok l" and "eh_allocate l s = (s', Some p)"
    using first_fit_cases [OF inv that(1)] that(2) by (auto simp: eh_allocate_def)
  show "s' = s" if "layout_ok l" and "eh_allocate l s = (s', None)"
    using first_fit_cases [OF inv that(1)] that(2) by (auto simp: eh_allocate_def)
  show "eh_inv lo hi (eh_deallocate l p s) \<and> eh_bytes (eh_deallocate l p s) \<subseteq> eh_bytes s \<union> eh_extent l p"
    if "eh_placed lo hi l p" and "eh_extent l p \<inter> eh_bytes s = {}"
    using eh_deallocate_spec [OF inv that] by simp
  show "eh_bytes (eh_deallocate l p s) = eh_bytes s \<union> eh_extent l p"
    if "eh_placed lo hi l p" and "eh_extent l p \<inter> eh_bytes s = {}"
    using eh_deallocate_spec [OF inv that] by simp
qed

lemma eh_init_inv:
  assumes "0 < s" and "SIZE_OF_FREE_BLOCK \<le> n" and "s + n + 2 ^ 30 \<le> U64_MOD"
  shows "eh_inv s (s + n) (eh_init s n h)"
proof -
  have e: "wadd64 s n = s + n" using assms(3) by (simp add: wadd64_exact)
  have "chain (nxt (eh_init s n h)) (free_list_head (eh_init s n h)) [s]"
    using assms by (simp add: eh_init_def Let_def non_null_def)
  moreover have "blocks_wf s (s + n) (eh_init s n h) [s]"
    using assms by (simp add: eh_init_def Let_def blocks_wf_def)
  moreover have "heap_start (eh_init s n h) = s" "heap_end (eh_init s n h) = s + n"
    using e by (simp_all add: eh_init_def Let_def)
  ultimately show ?thesis using assms unfolding eh_inv_def by blast
qed

subsection \<open>Initialising slices\<close>

lemma init_items_spec:
  assumes "i \<le> us_len s" and "initialized_count s = i"
  shows "initialized_count (init_items i vs s) = min (us_len s) (i + length vs)"
    and "us_len (init_items i vs s) = us_len s"
    and "cells (init_items i vs s) = (\<lambda>k. if i \<le> k \<and> k < min (us_len s) (i + length vs) then Some (vs ! (k - i)) else cells s k)"
  using assms
proof (induction i vs s rule: init_items.induct)
  case (2 i v vs s)
  { case 1
    show ?case
    proof (cases "us_len s \<le> i")
      case False
      then show ?thesis using 2(1) [OF False] 1 by (simp add: init_at_def)
    qed (use 1 in simp) }
  { case 2
    then show ?case using "2.IH"(2) by (auto simp: init_at_def) }
  { case 3
    show ?case
    proof (cases "us_len s \<le> i")
      case False
      then have "cells (init_items (Suc i) vs (init_at i v s)) =
          (\<lambda>k. if Suc i \<le> k \<and> k < min (us_len s) (Suc i + length vs) then Some (vs ! (k - Suc i)) else cells (init_at i v s) k)"
        using "2.IH"(3) [OF False] 3 by (simp add: init_at_def)
      then show ?thesis using False by (auto simp: init_at_def fun_eq_iff nth_Cons' diff_Suc split: nat.splits)
    qed (use 3 in \<open>auto simp: fun_eq_iff\<close>) }
qed (auto simp: fun_eq_iff)

text \<open>\<open>k\<close> successful calls of \<open>init_next\<close> on a slice.\<close>

fun init_nexts :: "'a list \<Rightarrow> 'a UninitializedSlice \<Rightarrow> 'a UninitializedSlice" where
  "init_nexts [] s = s"
| "init_nexts (v # vs) s = init_nexts vs (fst (init_next v s))"

lemma init_nexts_spec:
  assumes "initialized_count s = 2 * i" and "2 * (i + length vs) \<le> us_len s"
  shows "initialized_count (init_nexts vs s) = 2 * (i + length vs) \<and> us_len (init_nexts vs s) = us_len s \<and>
    (\<forall>k. odd k \<longrightarrow> cells (init_nexts vs s) k = cells s k)"
  using assms
proof (induction vs arbitrary: i s)
  case (Cons v vs)
  let ?s = "fst (init_next v s)"
  from Cons.prems have s: "?s = s\<lparr>cells := (cells s)(2 * i \<mapsto> v), initialized_count := 2 * Suc i\<rparr>"
    by (simp add: init_next_def init_at_def Let_def)
  with Cons.IH [of ?s "Suc i"] Cons.prems show ?case by (auto simp: s)
qed simp

subsection \<open>Properties\<close>

text \<open>
  C22: On an exchange heap initialised over any range, no sequence of allocations with well-formed
  layouts and releases of held blocks hands out overlapping memory, whatever was split, padded
  or put back in between.
\<close>

theorem exchange_requests_disjoint:
  assumes "0 < s" and "SIZE_OF_FREE_BLOCK \<le> n" and "s + n + 2 ^ 30 \<le> U64_MOD"
    and "list_all (request_ok layout_ok) qs"
  shows "ledger_disjoint eh_extent (snd (pool_run eh_allocate eh_deallocate (eh_init s n eh_empty, []) qs))"
  by (rule exchange.run_disjoint [OF eh_init_inv [OF assms(1-3)] assms(4)])

theorem exchange_requests_disjoint_witness:
  "ledger_disjoint eh_extent (snd (pool_run eh_allocate eh_deallocate (eh_init 4096 4096 eh_empty, [])
     [Alloc \<lparr>l_size = 20, l_align = 1\<rparr>, Alloc \<lparr>l_size = 64, l_align = 64\<rparr>, Free \<lparr>l_size = 20, l_align = 1\<rparr> 4096]))"
  by (rule exchange_requests_disjoint)
    (auto simp: SIZE_OF_FREE_BLOCK_def U64_MOD_def layout_ok_def intro: exI [of _ 0] exI [of _ 6])

text \<open>
  C23: The first-fit search always returns on a well-formed heap. It fails only when no free block can
  hold the aligned request, and then changes nothing; otherwise the address is aligned, the block
  lies inside the heap, was free before and is not free afterwards, and the heap stays well-formed.
\<close>

theorem allocate_first_fit_total:
  assumes "eh_inv lo hi h" and "layout_ok l"
  shows "case allocate_first_fit l h of
      None \<Rightarrow> False
    | Some (h', Inl _) \<Rightarrow> h' = h \<and> (\<forall>as. chain (\<lambda>a. fb_next (headers h a)) (free_list_head h) as \<longrightarrow>
        (\<forall>a \<in> set as. \<not> block_fits (max (l_align l) 8) (max (l_size l) 16) h a))
    | Some (h', Inr p) \<Rightarrow> l_align l dvd p \<and> lo \<le> p \<and> p + l_size l \<le> hi \<and>
        {p..<p + l_size l} \<subseteq> eh_bytes h \<and> {p..<p + l_size l} \<inter> eh_bytes h' = {} \<and> eh_inv lo hi h'"
proof -
  have sz: "{p..<p + l_size l} \<subseteq> eh_extent l p" "l_size l \<le> eff_size l" for p
    by (auto simp: eh_extent_def eff_size_def)
  from assms(2) obtain k where k: "l_align l = 2 ^ k" by (auto simp: layout_ok_def)
  have "l_align l dvd eff_align l"
  proof (cases "3 \<le> k")
    case True
    then have "(2::nat) ^ 3 \<le> 2 ^ k" by (rule power_increasing) simp
    then show ?thesis by (simp add: eff_align_def ALIGN_OF_FREE_BLOCK_def k)
  next
    case False
    then have "(2::nat) ^ k dvd 2 ^ 3" by (intro le_imp_power_dvd) simp
    then show ?thesis by (simp add: eff_align_def ALIGN_OF_FREE_BLOCK_def k max_def)
  qed
  from first_fit_cases [OF assms] show ?thesis
  proof (elim disjE exE conjE)
    fix h' p
    assume "allocate_first_fit l h = Some (h', Inr p)" "eh_inv lo hi h'" "eh_placed lo hi l p"
      "eh_extent l p \<subseteq> eh_bytes h" "eh_bytes h' \<subseteq> eh_bytes h - eh_extent l p"
    moreover from this(3) have "l_align l dvd p" using \<open>l_align l dvd eff_align l\<close>
      by (auto simp: eh_placed_def intro: dvd_trans)
    ultimately show ?thesis using sz(1) [of p] sz(2) by (auto simp: eh_placed_def)
  qed (simp add: eff_align_def eff_size_def ALIGN_OF_FREE_BLOCK_def SIZE_OF_FREE_BLOCK_def)
qed

theorem allocate_first_fit_total_witness:
  "\<exists>h'. allocate_first_fit \<lparr>l_size = 64, l_align = 64\<rparr> (eh_init 4096 4096 eh_empty) = Some (h', Inr 4096) \<and>
     {4096..<4160} \<inter> eh_bytes h' = {} \<and> eh_inv 4096 8192 h'"
proof -
  let ?h = "eh_init 4096 4096 eh_empty" and ?l = "\<lparr>l_size = 64, l_align = 64\<rparr>"
  have "eh_inv 4096 (4096 + 4096) ?h" by (rule eh_init_inv) (simp_all add: SIZE_OF_FREE_BLOCK_def U64_MOD_def)
  moreover have "layout_ok ?l" by (auto simp: layout_ok_def intro: exI [of _ 6])
  moreover have "map_option snd (allocate_first_fit ?l ?h) = Some (Inr 4096)" by code_simp
  ultimately show ?thesis using allocate_first_fit_total [of 4096 "4096 + 4096" ?h ?l]
    by (auto split: option.splits sum.splits prod.splits)
qed

text \<open>
  \<open>init_from_iter\<close> is sound and complete: with at least as many items as the slice is long it
  yields an initialised slice holding exactly the first of them, and with fewer it gives the
  slice back, never an initialised one.
\<close>

lemma init_from_iter_exact:
  assumes "initialized_count s = 0"
  shows "if us_len s \<le> length vs
    then \<exists>r. init_from_iter vs s = Inr r \<and> is_len r = us_len s \<and> (\<forall>k < us_len s. is_cells r k = Some (vs ! k))
    else \<exists>s'. init_from_iter vs s = Inl s' \<and> initialized_count s' = length vs"
  using init_items_spec [of 0 s vs] assms
  by (auto simp: init_from_iter_def try_into_initialized_def is_fully_initialized_def assume_init_def)

text \<open>
  \<open>init_next\<close> counts every element twice, so filling a fresh slice of even length with half as
  many calls as it has elements already makes \<open>try_into_initialized\<close> succeed, although every
  odd element was never written: the safe interface hands out uninitialised memory.
\<close>

lemma init_next_skips_elements:
  assumes "initialized_count s = 0" and "us_len s = 2 * length vs" and "cells s = (\<lambda>_. None)"
  shows "\<exists>r. try_into_initialized (init_nexts vs s) = Inr r \<and> is_len r = us_len s \<and>
    (\<forall>k. odd k \<longrightarrow> is_cells r k = None)"
  using init_nexts_spec [of s 0 vs] assms
  by (auto simp: try_into_initialized_def is_fully_initialized_def assume_init_def)

end
