(* ===== verification/Domains.thy ===== *)
theory Domains
  imports HeapRegistry ExchangeHeap SasManager
begin

text \<open>
  Domains (cells): the domain system (\<open>src/src/domain_system.rs\<close>), its compatibility layer and the
  domain life cycle (\<open>src/src/domain/registry.rs\<close>, \<open>src/src/domain/lifecycle.rs\<close>). The state holds
  the statics of these modules: the domain registry, the heap registry of the domain system, the
  separate heap registry of the remote references, the exchange heap and the current domain.
  Times and task identifiers are arguments. Counters of objects are unbounded numbers, byte counts
  saturate as in the code. Operations are driven by \<open>reach\<close>, the states the system can get into;
  the lemmas show what every reachable state satisfies and what each operation changes.
\<close>

subsection \<open>One domain\<close>

datatype DomainState = Initializing | Running | Suspended | Stopped | Terminated

fun is_runnable :: "DomainState \<Rightarrow> bool" where
  "is_runnable Running = True"
| "is_runnable Initializing = True"
| "is_runnable _ = False"

fun is_active :: "DomainState \<Rightarrow> bool" where
  "is_active Terminated = False"
| "is_active _ = True"

record Domain =
  dom_id :: DomainId
  dom_name :: string
  dom_state :: DomainState
  tasks :: "u64 list"
  dependencies :: "DomainId list"
  dependents :: "DomainId list"
  rref_count :: u64
  allocated_memory :: u64
  runtime_ticks :: u64
  context_switches :: u64
  created_at :: u64
  panic_message :: "string option"
  last_error :: "string option"

definition domain_new :: "u64 \<Rightarrow> DomainId \<Rightarrow> string \<Rightarrow> Domain" where
  "domain_new tick i nm =
     \<lparr>dom_id = i, dom_name = nm, dom_state = Initializing, tasks = [], dependencies = [], dependents = [],
      rref_count = 0, allocated_memory = 0, runtime_ticks = 0, context_switches = 0, created_at = tick,
      panic_message = None, last_error = None\<rparr>"

definition add_task :: "u64 \<Rightarrow> Domain \<Rightarrow> Domain" where
  "add_task t d = (if t \<notin> set (tasks d) then d\<lparr>tasks := tasks d @ [t]\<rparr> else d)"

definition remove_task :: "u64 \<Rightarrow> Domain \<Rightarrow> Domain" where
  "remove_task t d = d\<lparr>tasks := filter (\<lambda>x. x \<noteq> t) (tasks d)\<rparr>"

definition add_dependency :: "DomainId \<Rightarrow> Domain \<Rightarrow> Domain" where
  "add_dependency e d = (if e \<notin> set (dependencies d) then d\<lparr>dependencies := dependencies d @ [e]\<rparr> else d)"

definition add_dependent :: "DomainId \<Rightarrow> Domain \<Rightarrow> Domain" where
  "add_dependent e d = (if e \<notin> set (dependents d) then d\<lparr>dependents := dependents d @ [e]\<rparr> else d)"

definition increment_rref :: "Domain \<Rightarrow> Domain" where
  "increment_rref d = d\<lparr>rref_count := rref_count d + 1\<rparr>"

definition decrement_rref :: "Domain \<Rightarrow> Domain" where
  "decrement_rref d = (if rref_count d > 0 then d\<lparr>rref_count := rref_count d - 1\<rparr> else d)"

definition add_memory :: "u64 \<Rightarrow> Domain \<Rightarrow> Domain" where
  "add_memory n d = d\<lparr>allocated_memory := saturating_add64 (allocated_memory d) n\<rparr>"

definition free_memory :: "u64 \<Rightarrow> Domain \<Rightarrow> Domain" where
  "free_memory n d = d\<lparr>allocated_memory := saturating_sub64 (allocated_memory d) n\<rparr>"

subsection \<open>The domain system\<close>

record DomainRegistry =
  domains :: "(DomainId, Domain) btree"
  next_id :: u64

record DomainSystem =
  registry :: DomainRegistry
  heap_reg :: HeapRegistry
  rref_reg :: HeapRegistry
  exchange_heap :: SimpleFreeListHeap
  current :: DomainId

definition ds_new :: DomainSystem where
  "ds_new = \<lparr>registry = \<lparr>domains = [], next_id = 1\<rparr>, heap_reg = hr_new, rref_reg = hr_new,
     exchange_heap = eh_empty, current = 0\<rparr>"

definition generate_id :: "DomainRegistry \<Rightarrow> DomainRegistry \<times> DomainId" where
  "generate_id r = (r\<lparr>next_id := wadd64 (next_id r) 1\<rparr>, next_id r)"

text \<open>\<open>with_domain_mut\<close>: an update through \<open>get_mut\<close>, nothing when the domain is missing.\<close>

definition with_domain_mut :: "DomainId \<Rightarrow> (Domain \<Rightarrow> Domain) \<Rightarrow> DomainSystem \<Rightarrow> DomainSystem" where
  "with_domain_mut i f s = s\<lparr>registry := (registry s)\<lparr>domains := bt_modify i f (domains (registry s))\<rparr>\<rparr>"

definition with_domain :: "DomainId \<Rightarrow> (Domain \<Rightarrow> 'a) \<Rightarrow> DomainSystem \<Rightarrow> 'a option" where
  "with_domain i f s = map_option f (bt_get (domains (registry s)) i)"

definition domain_init :: "u64 \<Rightarrow> DomainSystem \<Rightarrow> DomainSystem" where
  "domain_init tick s =
     (let kernel = (domain_new tick KERNEL ''kernel'')\<lparr>dom_state := Running\<rparr>
      in s\<lparr>registry := (registry s)\<lparr>domains := bt_insert KERNEL kernel (domains (registry s))\<rparr>\<rparr>)"

definition create_domain :: "u64 \<Rightarrow> string \<Rightarrow> DomainSystem \<Rightarrow> DomainSystem \<times> DomainId" where
  "create_domain tick nm s =
     (case generate_id (registry s) of
        (r, i) \<Rightarrow> (s\<lparr>registry := r\<lparr>domains := bt_insert i (domain_new tick i nm) (domains r)\<rparr>\<rparr>, i))"

definition get_domain_state :: "DomainId \<Rightarrow> DomainSystem \<Rightarrow> DomainState option" where
  "get_domain_state i s = map_option dom_state (bt_get (domains (registry s)) i)"

definition set_domain_state :: "DomainId \<Rightarrow> DomainState \<Rightarrow> DomainSystem \<Rightarrow> DomainSystem" where
  "set_domain_state i st s = with_domain_mut i (\<lambda>d. d\<lparr>dom_state := st\<rparr>) s"

definition start_domain :: "DomainId \<Rightarrow> DomainSystem \<Rightarrow> DomainSystem \<times> (string + unit)" where
  "start_domain i s =
     (case bt_get (domains (registry s)) i of
        Some d \<Rightarrow> if dom_state d \<noteq> Initializing then (s, Inl ''Domain is not in initializing state'')
                  else (with_domain_mut i (\<lambda>d. d\<lparr>dom_state := Running\<rparr>) s, Inr ())
      | None \<Rightarrow> (s, Inl ''Domain not found''))"

definition stop_domain :: "DomainId \<Rightarrow> DomainSystem \<Rightarrow> DomainSystem \<times> (string + unit)" where
  "stop_domain i s =
     (if i = KERNEL then (s, Inl ''Cannot stop kernel domain'')
      else case bt_get (domains (registry s)) i of
        Some d \<Rightarrow> (with_domain_mut i (\<lambda>d. d\<lparr>dom_state := Stopped\<rparr>) s, Inr ())
      | None \<Rightarrow> (s, Inl ''Domain not found''))"

text \<open>Freeing every object of a domain on the exchange heap, then forgetting them.\<close>

definition free_object :: "HeapRegistry \<Rightarrow> usize \<Rightarrow> SimpleFreeListHeap \<Rightarrow> SimpleFreeListHeap" where
  "free_object r addr h =
     (case get_object r addr of
        None \<Rightarrow> h
      | Some obj \<Rightarrow> eh_deallocate \<lparr>l_size = size obj, l_align = 8\<rparr> addr h)"

definition reclaim_domain_resources :: "DomainId \<Rightarrow> DomainSystem \<Rightarrow> DomainSystem" where
  "reclaim_domain_resources i s =
     (let addrs = (case get_domain_objects (heap_reg s) i of None \<Rightarrow> [] | Some v \<Rightarrow> v);
          s1 = s\<lparr>exchange_heap := fold (free_object (heap_reg s)) addrs (exchange_heap s)\<rparr>;
          s2 = s1\<lparr>heap_reg := fst (reclaim_all i (heap_reg s1))\<rparr>
      in with_domain_mut i (\<lambda>d. d\<lparr>rref_count := 0, allocated_memory := 0\<rparr>) s2)"

text \<open>\<open>format!("Dependency {} terminated", id)\<close>\<close>

definition terminated_msg :: "DomainId \<Rightarrow> string" where
  "terminated_msg i = ''Dependency '' @ decimal i @ '' terminated''"

definition terminate_domain :: "DomainId \<Rightarrow> DomainSystem \<Rightarrow> DomainSystem \<times> (string + unit)" where
  "terminate_domain i s =
     (if i = KERNEL then (s, Inl ''Cannot terminate kernel domain'')
      else case bt_get (domains (registry s)) i of
        None \<Rightarrow> (s, Inl ''Domain not found'')
      | Some d \<Rightarrow>
          (let s1 = with_domain_mut i (\<lambda>d. d\<lparr>dom_state := Terminated\<rparr>) s;
               s2 = reclaim_domain_resources i s1
           in (fold (\<lambda>dep. with_domain_mut dep (\<lambda>d. d\<lparr>last_error := Some (terminated_msg i)\<rparr>)) (dependents d) s2,
               Inr ())))"

definition handle_domain_panic :: "DomainId \<Rightarrow> string \<Rightarrow> DomainSystem \<Rightarrow> DomainSystem" where
  "handle_domain_panic i msg s =
     reclaim_domain_resources i
       (with_domain_mut i (\<lambda>d. d\<lparr>dom_state := Stopped, panic_message := Some msg\<rparr>) s)"

definition add_task_to_domain :: "DomainId \<Rightarrow> u64 \<Rightarrow> DomainSystem \<Rightarrow> DomainSystem" where
  "add_task_to_domain i t s = with_domain_mut i (add_task t) s"

definition remove_task_from_domain :: "DomainId \<Rightarrow> u64 \<Rightarrow> DomainSystem \<Rightarrow> DomainSystem" where
  "remove_task_from_domain i t s = with_domain_mut i (remove_task t) s"

definition register_heap_object :: "usize \<Rightarrow> usize \<Rightarrow> DomainId \<Rightarrow> DomainSystem \<Rightarrow> DomainSystem" where
  "register_heap_object ptr sz own s =
     with_domain_mut own (\<lambda>d. add_memory sz (increment_rref d))
       (s\<lparr>heap_reg := register_simple ptr sz own (heap_reg s)\<rparr>)"

definition unregister_heap_object :: "usize \<Rightarrow> DomainSystem \<Rightarrow> DomainSystem" where
  "unregister_heap_object ptr s =
     (case get_object (heap_reg s) ptr of
        None \<Rightarrow> s
      | Some obj \<Rightarrow>
          with_domain_mut (owner obj) (\<lambda>d. free_memory (size obj) (decrement_rref d))
            (s\<lparr>heap_reg := unregister_simple ptr (heap_reg s)\<rparr>))"

definition ds_transfer_ownership :: "usize \<Rightarrow> DomainId \<Rightarrow> DomainSystem \<Rightarrow> DomainSystem \<times> bool" where
  "ds_transfer_ownership ptr new_owner s =
     (case get_object (heap_reg s) ptr of
        None \<Rightarrow> (s, False)
      | Some obj \<Rightarrow>
          (let s1 = s\<lparr>heap_reg := fst (change_owner ptr (owner obj) new_owner (heap_reg s))\<rparr>;
               s2 = with_domain_mut (owner obj) (\<lambda>d. free_memory (size obj) (decrement_rref d)) s1;
               s3 = with_domain_mut new_owner (\<lambda>d. add_memory (size obj) (increment_rref d)) s2
           in (s3, True)))"

record DomainStats =
  st_total :: usize
  st_running :: usize
  st_stopped :: usize
  st_terminated :: usize
  st_memory_used :: u64
  st_total_rrefs :: u64

fun count_domain :: "Domain \<Rightarrow> DomainStats \<Rightarrow> DomainStats" where
  "count_domain d st =
     (let st1 = (case dom_state d of
                   Running \<Rightarrow> st\<lparr>st_running := st_running st + 1\<rparr>
                 | Initializing \<Rightarrow> st\<lparr>st_running := st_running st + 1\<rparr>
                 | Stopped \<Rightarrow> st\<lparr>st_stopped := st_stopped st + 1\<rparr>
                 | Suspended \<Rightarrow> st\<lparr>st_stopped := st_stopped st + 1\<rparr>
                 | Terminated \<Rightarrow> st\<lparr>st_terminated := st_terminated st + 1\<rparr>)
      in st1\<lparr>st_memory_used := wadd64 (st_memory_used st1) (allocated_memory d),
             st_total_rrefs := wadd64 (st_total_rrefs st1) (rref_count d)\<rparr>)"

definition get_domain_stats :: "DomainSystem \<Rightarrow> DomainStats" where
  "get_domain_stats s =
     fold (\<lambda>(_, d). count_domain d) (domains (registry s))
       \<lparr>st_total = length (domains (registry s)), st_running = 0, st_stopped = 0, st_terminated = 0,
        st_memory_used = 0, st_total_rrefs = 0\<rparr>"

definition set_current_domain :: "DomainId \<Rightarrow> DomainSystem \<Rightarrow> DomainSystem" where
  "set_current_domain i s = s\<lparr>current := i\<rparr>"

definition current_domain :: "DomainSystem \<Rightarrow> DomainId" where
  "current_domain s = current s"

definition is_kernel_domain :: "DomainSystem \<Rightarrow> bool" where
  "is_kernel_domain s = (current_domain s = KERNEL)"

subsection \<open>The life cycle module\<close>

datatype DomainError = DomNotFound | AlreadyStopped | DependencyError string | Panicked string

text \<open>\<open>reclaim_domain_resources\<close> of \<open>ipc/rref.rs\<close>, on the registry of that module.\<close>

definition rref_reclaim_domain_resources :: "DomainId \<Rightarrow> DomainSystem \<Rightarrow> DomainSystem" where
  "rref_reclaim_domain_resources i s = s\<lparr>rref_reg := fst (reclaim_all i (rref_reg s))\<rparr>"

definition spawn_domain_task :: "u64 \<Rightarrow> string \<Rightarrow> u64 \<Rightarrow> DomainSystem \<Rightarrow> DomainSystem \<times> DomainId" where
  "spawn_domain_task tick nm task_id s =
     (case create_domain tick nm s of
        (s1, i) \<Rightarrow> (with_domain_mut i (add_task task_id) (set_domain_state i Running s1), i))"

definition lc_terminate_domain :: "DomainId \<Rightarrow> DomainSystem \<Rightarrow> DomainSystem \<times> (DomainError + unit)" where
  "lc_terminate_domain i s =
     (if with_domain i (\<lambda>_. True) s \<noteq> Some True then (s, Inl DomNotFound)
      else (rref_reclaim_domain_resources i (set_domain_state i Terminated s), Inr ()))"

definition lc_handle_domain_panic :: "DomainId \<Rightarrow> string \<Rightarrow> DomainSystem \<Rightarrow> DomainSystem" where
  "lc_handle_domain_panic i msg s =
     rref_reclaim_domain_resources i
       (with_domain_mut i (\<lambda>d. d\<lparr>dom_state := Stopped, panic_message := Some msg\<rparr>) s)"

definition restart_domain :: "DomainId \<Rightarrow> DomainSystem \<Rightarrow> DomainSystem \<times> (DomainError + unit)" where
  "restart_domain i s =
     (case with_domain i dom_state s of
        Some Stopped \<Rightarrow> (set_domain_state i Running (set_domain_state i Initializing s), Inr ())
      | Some Terminated \<Rightarrow> (set_domain_state i Running (set_domain_state i Initializing s), Inr ())
      | Some _ \<Rightarrow> (s, Inl AlreadyStopped)
      | None \<Rightarrow> (s, Inl DomNotFound))"

definition add_domain_dependency :: "DomainId \<Rightarrow> DomainId \<Rightarrow> DomainSystem \<Rightarrow> DomainSystem \<times> (DomainError + unit)" where
  "add_domain_dependency dependent dependency s =
     (if with_domain dependency (\<lambda>_. True) s \<noteq> Some True then (s, Inl DomNotFound)
      else (with_domain_mut dependency (add_dependent dependent)
              (with_domain_mut dependent (add_dependency dependency) s), Inr ()))"

subsection \<open>Sequences of operations\<close>

datatype dom_op = DCreate u64 string | DStart DomainId | DStop DomainId | DTerminate DomainId
  | DPanic DomainId string | DSetState DomainId DomainState | DAddTask DomainId u64
  | DRemoveTask DomainId u64 | DRegister usize usize DomainId | DUnregister usize
  | DTransfer usize DomainId | DReclaim DomainId | DSpawn u64 string u64 | DLcTerminate DomainId
  | DLcPanic DomainId string | DRestart DomainId | DDepend DomainId DomainId | DSetCurrent DomainId

fun dom_exec :: "dom_op \<Rightarrow> DomainSystem \<Rightarrow> DomainSystem" where
  "dom_exec (DCreate tick nm) s = fst (create_domain tick nm s)"
| "dom_exec (DStart i) s = fst (start_domain i s)"
| "dom_exec (DStop i) s = fst (stop_domain i s)"
| "dom_exec (DTerminate i) s = fst (terminate_domain i s)"
| "dom_exec (DPanic i msg) s = handle_domain_panic i msg s"
| "dom_exec (DSetState i st) s = set_domain_state i st s"
| "dom_exec (DAddTask i t) s = add_task_to_domain i t s"
| "dom_exec (DRemoveTask i t) s = remove_task_from_domain i t s"
| "dom_exec (DRegister p n i) s = register_heap_object p n i s"
| "dom_exec (DUnregister p) s = unregister_heap_object p s"
| "dom_exec (DTransfer p i) s = fst (ds_transfer_ownership p i s)"
| "dom_exec (DReclaim i) s = reclaim_domain_resources i s"
| "dom_exec (DSpawn tick nm t) s = fst (spawn_domain_task tick nm t s)"
| "dom_exec (DLcTerminate i) s = fst (lc_terminate_domain i s)"
| "dom_exec (DLcPanic i msg) s = lc_handle_domain_panic i msg s"
| "dom_exec (DRestart i) s = fst (restart_domain i s)"
| "dom_exec (DDepend i j) s = fst (add_domain_dependency i j s)"
| "dom_exec (DSetCurrent i) s = set_current_domain i s"

text \<open>The booted system, over any exchange heap, and every operation the guard admits in its state.\<close>

inductive reach :: "(DomainSystem \<Rightarrow> dom_op \<Rightarrow> bool) \<Rightarrow> DomainSystem \<Rightarrow> bool" for G where
  boot: "reach G (domain_init tick (ds_new\<lparr>exchange_heap := h\<rparr>))"
| exec: "reach G s \<Longrightarrow> G s q \<Longrightarrow> reach G (dom_exec q s)"

text \<open>Domain numbers are not exhausted, and objects do not run past the end of the address space.\<close>

fun fits :: "DomainSystem \<Rightarrow> dom_op \<Rightarrow> bool" where
  "fits s (DCreate _ _) = (next_id (registry s) + 1 < U64_MOD)"
| "fits s (DSpawn _ _ _) = (next_id (registry s) + 1 < U64_MOD)"
| "fits s (DRegister p n _) = (p + n < U64_MOD)"
| "fits s _ = True"

lemma reach_mono: "reach G s \<Longrightarrow> (\<And>s q. G s q \<Longrightarrow> H s q) \<Longrightarrow> reach H s"
  by (induction rule: reach.induct) (auto intro: reach.intros)

subsection \<open>Well-formed systems\<close>

abbreviation dget :: "DomainSystem \<Rightarrow> DomainId \<Rightarrow> Domain option" where
  "dget s \<equiv> bt_get (domains (registry s))"

definition dom_ok :: "DomainId \<Rightarrow> Domain \<Rightarrow> bool" where
  "dom_ok i d = (dom_id d = i \<and> distinct (tasks d) \<and> distinct (dependencies d) \<and> distinct (dependents d))"

definition ds_inv :: "DomainSystem \<Rightarrow> bool" where
  "ds_inv s = (bt_wf (domains (registry s)) \<and> reg_inv (heap_reg s) \<and> reg_inv (rref_reg s) \<and>
     dget s KERNEL \<noteq> None \<and> 0 < next_id (registry s) \<and>
     (\<forall>i d. dget s i = Some d \<longrightarrow> i < next_id (registry s) \<and> dom_ok i d))"

lemma ds_invI:
  assumes "bt_wf (domains (registry s))" "reg_inv (heap_reg s)" "reg_inv (rref_reg s)"
    "dget s KERNEL \<noteq> None" "0 < next_id (registry s)"
    "\<And>i d. dget s i = Some d \<Longrightarrow> i < next_id (registry s) \<and> dom_ok i d"
  shows "ds_inv s"
  using assms by (simp add: ds_inv_def)

lemma ds_invD:
  assumes "ds_inv s"
  shows "bt_wf (domains (registry s))" "reg_inv (heap_reg s)" "reg_inv (rref_reg s)"
    "dget s KERNEL \<noteq> None" "0 < next_id (registry s)"
    "\<And>i d. dget s i = Some d \<Longrightarrow> i < next_id (registry s) \<and> dom_ok i d"
  using assms by (simp_all add: ds_inv_def)

lemma with_domain_mut_simps [simp]:
  "dget (with_domain_mut i f s) = (dget s)(i := map_option f (dget s i))"
  "heap_reg (with_domain_mut i f s) = heap_reg s" "rref_reg (with_domain_mut i f s) = rref_reg s"
  "exchange_heap (with_domain_mut i f s) = exchange_heap s" "current (with_domain_mut i f s) = current s"
  "next_id (registry (with_domain_mut i f s)) = next_id (registry s)"
  by (simp_all add: with_domain_mut_def)

lemma ds_inv_mut:
  assumes "ds_inv s" and "\<And>d. dom_ok i d \<Longrightarrow> dom_ok i (f d)"
  shows "ds_inv (with_domain_mut i f s)"
  by (rule ds_invI) (use ds_invD [OF assms(1)] assms(2) in
    \<open>auto simp: with_domain_mut_def wf_modify split: if_splits\<close>)

lemma ds_inv_upd [simp]:
  "ds_inv (s\<lparr>exchange_heap := h\<rparr>) = ds_inv s" "ds_inv (s\<lparr>current := c\<rparr>) = ds_inv s"
  "ds_inv s \<Longrightarrow> ds_inv (s\<lparr>heap_reg := r\<rparr>) = reg_inv r" "ds_inv s \<Longrightarrow> ds_inv (s\<lparr>rref_reg := r\<rparr>) = reg_inv r"
  by (simp_all add: ds_inv_def)

lemmas domain_ops = add_task_def remove_task_def add_dependency_def add_dependent_def increment_rref_def
  decrement_rref_def add_memory_def free_memory_def

lemma dom_ok_upd [simp]:
  "dom_ok i (d\<lparr>dom_state := st\<rparr>) = dom_ok i d" "dom_ok i (d\<lparr>panic_message := m\<rparr>) = dom_ok i d"
  "dom_ok i (d\<lparr>last_error := m\<rparr>) = dom_ok i d" "dom_ok i (d\<lparr>rref_count := n\<rparr>) = dom_ok i d"
  "dom_ok i (d\<lparr>allocated_memory := n\<rparr>) = dom_ok i d" "dom_ok i d \<Longrightarrow> dom_ok i (add_task t d)"
  "dom_ok i d \<Longrightarrow> dom_ok i (remove_task t d)" "dom_ok i d \<Longrightarrow> dom_ok i (add_dependency e d)"
  "dom_ok i d \<Longrightarrow> dom_ok i (add_dependent e d)" "dom_ok i (increment_rref d) = dom_ok i d"
  "dom_ok i (decrement_rref d) = dom_ok i d" "dom_ok i (add_memory n d) = dom_ok i d"
  "dom_ok i (free_memory n d) = dom_ok i d" "dom_ok i (domain_new tick i nm)"
  by (auto simp: dom_ok_def domain_ops domain_new_def)

lemma dom_change_owner [simp]: "fst (change_owner a f t r) = fst (transfer_ownership a f t r)"
  by (simp add: change_owner_def split: prod.splits)

text \<open>A new domain gets a number no domain has.\<close>

lemma create_domain_simps:
  assumes "ds_inv s"
  shows "dget (fst (create_domain tick nm s)) = (dget s)(next_id (registry s) \<mapsto> domain_new tick (next_id (registry s)) nm)"
    and "snd (create_domain tick nm s) = next_id (registry s)" and "dget s (next_id (registry s)) = None"
    and "heap_reg (fst (create_domain tick nm s)) = heap_reg s" and "rref_reg (fst (create_domain tick nm s)) = rref_reg s"
    and "next_id (registry (fst (create_domain tick nm s))) = wadd64 (next_id (registry s)) 1"
    and "exchange_heap (fst (create_domain tick nm s)) = exchange_heap s"
proof -
  show "dget s (next_id (registry s)) = None"
    using ds_invD(6) [OF assms, of "next_id (registry s)"] by (cases "dget s (next_id (registry s))") auto
qed (use ds_invD(1) [OF assms] in \<open>simp_all add: create_domain_def generate_id_def\<close>)

lemma ds_inv_create:
  assumes "ds_inv s" and "next_id (registry s) + 1 < U64_MOD"
  shows "ds_inv (fst (create_domain tick nm s))"
proof (rule ds_invI)
  note D = ds_invD [OF assms(1)] and C = create_domain_simps [OF assms(1)]
  show "bt_wf (domains (registry (fst (create_domain tick nm s))))"
    using D(1) by (simp add: create_domain_def generate_id_def wf_insert)
  have n: "wadd64 (next_id (registry s)) (Suc 0) = next_id (registry s) + 1" using assms(2) by (simp add: wadd64_exact)
  show "i < next_id (registry (fst (create_domain tick nm s))) \<and> dom_ok i d"
    if "dget (fst (create_domain tick nm s)) i = Some d" for i d
    using that D(6) [of i d] by (auto simp: C n split: if_splits)
qed (use ds_invD [OF assms(1)] assms(2) in \<open>simp_all add: create_domain_simps [OF assms(1)] wadd64_exact\<close>)

lemma ds_inv_reclaim: "ds_inv s \<Longrightarrow> ds_inv (reclaim_domain_resources i s)"
  by (simp add: reclaim_domain_resources_def Let_def ds_inv_mut reclaim_spec(1) ds_invD(2))

lemma ds_inv_notify:
  "ds_inv s \<Longrightarrow> ds_inv (fold (\<lambda>dep. with_domain_mut dep (\<lambda>d. d\<lparr>last_error := m\<rparr>)) ds s)"
  by (induction ds arbitrary: s) (simp_all add: ds_inv_mut)

lemma ds_inv_boot: "ds_inv (domain_init tick (ds_new\<lparr>exchange_heap := h\<rparr>))"
  by (rule ds_invI) (auto simp: domain_init_def ds_new_def KERNEL_def Let_def split: if_splits)

lemma ds_inv_exec:
  assumes inv: "ds_inv s" and fit: "fits s q"
  shows "ds_inv (dom_exec q s)"
proof -
  note D = ds_invD [OF inv] and mut = ds_inv_mut
  have reg: "reg_inv (fst (transfer_ownership a f t (heap_reg s)))" "reg_inv (unregister_simple a (heap_reg s))"
    "reg_inv (fst (reclaim_all f (rref_reg s)))" for a f t
    using D by (simp_all add: hreg.transfer_invar unregister_simple_spec(1) reclaim_spec(1))
  show ?thesis
  proof (cases q)
    case (DRegister p n i)
    with fit D have "reg_inv (register_simple p n i (heap_reg s))" by (simp add: hreg.add)
    with inv DRegister show ?thesis by (simp add: register_heap_object_def mut)
  next
    case (DSpawn tick nm t)
    with fit inv have "ds_inv (fst (create_domain tick nm s))" by (intro ds_inv_create) simp_all
    with DSpawn show ?thesis by (auto simp: spawn_domain_task_def set_domain_state_def mut split: prod.splits)
  qed (use inv fit reg in \<open>auto simp: ds_inv_create start_domain_def stop_domain_def terminate_domain_def
      handle_domain_panic_def set_domain_state_def add_task_to_domain_def remove_task_from_domain_def
      unregister_heap_object_def ds_transfer_ownership_def lc_terminate_domain_def lc_handle_domain_panic_def
      rref_reclaim_domain_resources_def restart_domain_def add_domain_dependency_def set_current_domain_def
      Let_def mut ds_inv_reclaim ds_inv_notify split: option.splits DomainState.splits\<close>)
qed

lemma ds_inv_reach: "reach fits s \<Longrightarrow> ds_inv s"
  by (induction rule: reach.induct) (simp_all add: ds_inv_boot ds_inv_exec)

subsection \<open>Reclaiming, termination and crashes\<close>

lemma reclaim_simps:
  assumes "reg_inv (heap_reg s)"
  shows "dget (reclaim_domain_resources i s) =
      (dget s)(i := map_option (\<lambda>d. d\<lparr>rref_count := 0, allocated_memory := 0\<rparr>) (dget s i))"
    and "heap_reg (reclaim_domain_resources i s) = fst (reclaim_all i (heap_reg s))"
    and "owners (heap_reg (reclaim_domain_resources i s)) a =
      (if owners (heap_reg s) a = Some i then None else owners (heap_reg s) a)"
  using reclaim_spec(2) [OF assms] by (simp_all add: reclaim_domain_resources_def Let_def)

lemma dget_notify:
  "dget (fold (\<lambda>dep. with_domain_mut dep (\<lambda>d. d\<lparr>last_error := m\<rparr>)) ds s) j =
     (if j \<in> set ds then map_option (\<lambda>d. d\<lparr>last_error := m\<rparr>) (dget s j) else dget s j)"
  "heap_reg (fold (\<lambda>dep. with_domain_mut dep (\<lambda>d. d\<lparr>last_error := m\<rparr>)) ds s) = heap_reg s"
  by (induction ds arbitrary: s) (auto simp: option.map_comp comp_def)

definition after_termination :: "DomainId \<Rightarrow> Domain \<Rightarrow> DomainId \<Rightarrow> Domain \<Rightarrow> Domain" where
  "after_termination i d j d' =
     (let d1 = (if j = i then d'\<lparr>dom_state := Terminated, rref_count := 0, allocated_memory := 0\<rparr> else d')
      in if j \<in> set (dependents d) then d1\<lparr>last_error := Some (terminated_msg i)\<rparr> else d1)"

lemma terminate_Inl:
  "terminate_domain i s = (s', Inl e) \<Longrightarrow> s' = s \<and> (i = KERNEL \<or> dget s i = None)"
  by (auto simp: terminate_domain_def Let_def split: if_splits option.splits)

lemma terminate_Inr:
  assumes "ds_inv s" and "terminate_domain i s = (s', Inr u)"
  obtains d where "i \<noteq> KERNEL" and "dget s i = Some d"
    and "dget s' = (\<lambda>j. map_option (after_termination i d j) (dget s j))"
    and "heap_reg s' = fst (reclaim_all i (heap_reg s))"
proof -
  from assms(2) obtain d where d: "i \<noteq> KERNEL" "dget s i = Some d"
    and s': "s' = fold (\<lambda>dep. with_domain_mut dep (\<lambda>d. d\<lparr>last_error := Some (terminated_msg i)\<rparr>)) (dependents d)
      (reclaim_domain_resources i (with_domain_mut i (\<lambda>d. d\<lparr>dom_state := Terminated\<rparr>) s))"
    by (auto simp: terminate_domain_def Let_def split: if_splits option.splits)
  note R = reclaim_simps [of "with_domain_mut i (\<lambda>d. d\<lparr>dom_state := Terminated\<rparr>) s", simplified, OF ds_invD(2) [OF assms(1)]]
  have "dget s' j = map_option (after_termination i d j) (dget s j)" for j
    unfolding s' by (cases "dget s j") (auto simp: dget_notify R(1) after_termination_def d(2))
  moreover have "heap_reg s' = fst (reclaim_all i (heap_reg s))"
    unfolding s' by (simp add: dget_notify R(2))
  ultimately show ?thesis using that d by blast
qed

subsection \<open>Accounting\<close>

text \<open>How many objects a domain owns, and that single updates of the owner map move this number by one.\<close>

definition owned :: "(nat \<Rightarrow> DomainId option) \<Rightarrow> DomainId \<Rightarrow> nat" where
  "owned f i = card {a. f a = Some i}"

lemma owned_upd:
  assumes "finite (dom f)"
  shows "owned (f(a := v)) i = owned f i - (if f a = Some i then 1 else 0) + (if v = Some i then 1 else 0)"
proof -
  let ?A = "{b. f b = Some i}"
  have fin: "finite ?A" using assms by (rule finite_subset [rotated]) auto
  have e: "{b. (f(a := v)) b = Some i} = (if v = Some i then insert a (?A - {a}) else ?A - {a})" by auto
  have "card (insert a (?A - {a})) = Suc (card (?A - {a}))" using fin by (intro card_insert_disjoint) simp_all
  then show ?thesis unfolding owned_def e by (simp only: card_Diff_singleton_if split: if_split) simp
qed

lemma owned_pos: "finite (dom f) \<Longrightarrow> f a = Some i \<Longrightarrow> 0 < owned f i"
  by (auto simp: owned_def card_gt_0_iff intro: finite_subset [of _ "dom f"])

lemma finite_owners [simp]: "finite (dom (owners r))"
  by (rule finite_subset [OF _ finite_dom_map_of [of "objects r"]]) (auto simp: owners_def)

text \<open>Every object has a single reference: nothing in the domain system shares one.\<close>

definition sole :: "HeapRegistry \<Rightarrow> bool" where
  "sole r = (\<forall>a obj. bt_get (objects r) a = Some obj \<longrightarrow> ref_count obj = 1)"

lemma sole_ops:
  assumes "reg_inv r" and "sole r"
  shows "sole (register_simple a n d r)" "sole (unregister_simple a r)"
    "sole (fst (transfer_ownership a f t r))" "sole (fst (reclaim_all d r))"
proof -
  note wf = reg_invD(1) [OF assms(1)]
  show "sole (register_simple a n d r)" "sole (unregister_simple a r)" "sole (fst (transfer_ownership a f t r))"
    using wf assms(2)
    by (auto simp: sole_def register_simple_def register_def unregister_simple_def count_freed_def drop_index_def
        transfer_ownership_def Let_def split: option.splits if_splits)
  show "sole (fst (reclaim_all d r))"
    using assms(2) map_of_filter_keys [of "\<lambda>k. k \<notin> set (bt_list (owner_index r) d)" "objects r"]
    by (auto simp: sole_def reclaim_all_def Let_def reclaim_fold split: if_splits)
qed

lemma transfer_sole:
  assumes "reg_inv r" and "sole r" and "owners r a = Some f"
  shows "owners (fst (transfer_ownership a f t r)) = (owners r)(a \<mapsto> t)"
proof -
  have "\<exists>r'. transfer_ownership a f t r = (r', Inr ())"
    using assms(2,3) by (auto simp: sole_def owners_def transfer_ownership_def Let_def split: option.splits)
  with hreg.transfer_Inr [OF assms(1)] show ?thesis by fastforce
qed

text \<open>Registrations succeed and name existing domains.\<close>

fun acct_fits :: "DomainSystem \<Rightarrow> dom_op \<Rightarrow> bool" where
  "acct_fits s (DRegister p n i) =
     (p + n < U64_MOD \<and> dget s i \<noteq> None \<and> bt_get (objects (heap_reg s)) p = None \<and> \<not> check_overlap (heap_reg s) p n)"
| "acct_fits s (DTransfer p i) = (dget s i \<noteq> None)"
| "acct_fits s q = fits s q"

definition acct :: "DomainSystem \<Rightarrow> bool" where
  "acct s = (sole (heap_reg s) \<and> (\<forall>a i. owners (heap_reg s) a = Some i \<longrightarrow> dget s i \<noteq> None) \<and>
     (\<forall>i d. dget s i = Some d \<longrightarrow> rref_count d = owned (owners (heap_reg s)) i))"

lemma owned_reclaim:
  assumes "reg_inv r"
  shows "owned (owners (fst (reclaim_all d r))) i = (if i = d then 0 else owned (owners r) i)"
proof -
  have "{a. owners (fst (reclaim_all d r)) a = Some i} = (if i = d then {} else {a. owners r a = Some i})"
    by (auto simp: reclaim_spec(2) [OF assms] split: if_splits)
  then show ?thesis by (simp add: owned_def)
qed

text \<open>An update that leaves the object count of a domain alone, and one of another part of the state.\<close>

lemma acct_mut:
  assumes "acct s" and "\<And>d. rref_count (f d) = rref_count d"
  shows "acct (with_domain_mut i f s)"
  using assms unfolding acct_def by (auto split: if_splits)

lemma acct_cong:
  "acct s \<Longrightarrow> heap_reg s' = heap_reg s \<Longrightarrow> dget s' = dget s \<Longrightarrow> acct s'"
  by (simp add: acct_def)

lemma acct_reclaim:
  assumes "ds_inv s" and "acct s"
  shows "acct (reclaim_domain_resources i s)"
proof -
  note I = ds_invD(2) [OF assms(1)]
  note R = reclaim_simps [OF I, of i]
  from assms(2) have "sole (heap_reg s)" by (simp add: acct_def)
  then have "sole (heap_reg (reclaim_domain_resources i s))" using sole_ops(4) [OF I] by (simp add: R(2))
  moreover have "dget (reclaim_domain_resources i s) j \<noteq> None"
    if "owners (heap_reg (reclaim_domain_resources i s)) a = Some j" for a j
    using that assms(2) unfolding acct_def by (auto simp: R(1,3) split: if_splits)
  moreover have "rref_count d = owned (owners (heap_reg (reclaim_domain_resources i s))) j"
    if "dget (reclaim_domain_resources i s) j = Some d" for j d
    using that assms(2) unfolding acct_def by (auto simp: R(1,2) owned_reclaim [OF I] split: if_splits)
  ultimately show ?thesis by (simp add: acct_def)
qed

lemma acct_notify:
  "acct s \<Longrightarrow> acct (fold (\<lambda>dep. with_domain_mut dep (\<lambda>d. d\<lparr>last_error := m\<rparr>)) ds s)"
  by (induction ds arbitrary: s) (simp_all add: acct_mut)

lemma acct_create:
  assumes "ds_inv s" and "acct s"
  shows "acct (fst (create_domain tick nm s))"
proof -
  note C = create_domain_simps [OF assms(1)]
  have "owners (heap_reg s) a \<noteq> Some (next_id (registry s))" for a
    using assms(2) C(3) unfolding acct_def by metis
  then have "owned (owners (heap_reg s)) (next_id (registry s)) = 0" by (simp add: owned_def)
  with assms(2) show ?thesis unfolding acct_def by (auto simp: C(1,4) domain_new_def split: if_splits)
qed

text \<open>Registration, removal and transfer move the counters of the domains with the owner map.\<close>

lemma acct_register:
  assumes "ds_inv s" and "acct s" and "acct_fits s (DRegister p n i)"
  shows "acct (register_heap_object p n i s)"
proof -
  note I = ds_invD(2) [OF assms(1)]
  from assms(3) have ok: "\<exists>g. snd (register p n i 0 (heap_reg s)) = Inr g" "p + n < U64_MOD"
    by (auto simp: register_def Let_def)
  with register_spec(2) [OF I] have o: "owners (heap_reg s) p = None"
    "owners (register_simple p n i (heap_reg s)) = (owners (heap_reg s))(p \<mapsto> i)"
    by (auto simp: register_simple_def)
  from assms(2) sole_ops(1) [OF I] have "sole (register_simple p n i (heap_reg s))" by (simp add: acct_def)
  with assms(2,3) o show ?thesis
    unfolding acct_def register_heap_object_def
    by (auto simp: owned_upd increment_rref_def add_memory_def split: if_splits)
qed

lemma acct_unregister:
  assumes "ds_inv s" and "acct s"
  shows "acct (unregister_heap_object p s)"
proof (cases "get_object (heap_reg s) p")
  case None
  with assms show ?thesis by (simp add: unregister_heap_object_def)
next
  case (Some obj)
  note I = ds_invD(2) [OF assms(1)]
  from Some have o: "owners (heap_reg s) p = Some (owner obj)" by (simp add: owners_def get_object_def)
  note pos = owned_pos [OF finite_owners o]
  from assms(2) sole_ops(2) [OF I] have "sole (unregister_simple p (heap_reg s))" by (simp add: acct_def)
  with assms(2) o pos unregister_simple_spec(2) [OF I, of p] Some show ?thesis
    unfolding acct_def unregister_heap_object_def
    by (auto simp: owned_upd decrement_rref_def free_memory_def split: if_splits)
qed

lemma rref_count_simps:
  "rref_count (free_memory n (decrement_rref d)) = rref_count d - 1"
  "rref_count (add_memory n (increment_rref d)) = rref_count d + 1"
  by (simp_all add: domain_ops)

lemma acct_transfer:
  assumes "ds_inv s" and "acct s" and "dget s i \<noteq> None"
  shows "acct (fst (ds_transfer_ownership p i s))"
proof (cases "get_object (heap_reg s) p")
  case None
  with assms show ?thesis by (simp add: ds_transfer_ownership_def)
next
  case (Some obj)
  note I = ds_invD(2) [OF assms(1)]
  from assms(2) have sole: "sole (heap_reg s)" by (simp add: acct_def)
  from Some have o: "owners (heap_reg s) p = Some (owner obj)" by (simp add: owners_def get_object_def)
  note pos = owned_pos [OF finite_owners o]
  let ?s = "fst (ds_transfer_ownership p i s)"
  have r: "heap_reg ?s = fst (transfer_ownership p (owner obj) i (heap_reg s))"
    using Some by (simp add: ds_transfer_ownership_def Let_def)
  then have H: "sole (heap_reg ?s)" "owners (heap_reg ?s) = (owners (heap_reg s))(p \<mapsto> i)"
    using sole_ops(3) [OF I sole] transfer_sole [OF I sole o] by simp_all
  have cnt: "map_option rref_count (dget ?s j) =
      map_option (\<lambda>d. rref_count d - (if j = owner obj then 1 else 0) + (if j = i then 1 else 0)) (dget s j)" for j
    using Some by (cases "dget s j") (auto simp: ds_transfer_ownership_def Let_def rref_count_simps)
  show ?thesis unfolding acct_def
  proof (intro conjI allI impI)
    show "sole (heap_reg ?s)" by (rule H)
    fix a j assume "owners (heap_reg ?s) a = Some j"
    then have "dget s j \<noteq> None" using assms(2,3) unfolding acct_def H(2) by (cases "a = p") auto
    with cnt [of j] show "dget ?s j \<noteq> None" by auto
  next
    fix j d assume d: "dget ?s j = Some d"
    with cnt [of j] obtain d0 where d0: "dget s j = Some d0"
      "rref_count d = rref_count d0 - (if j = owner obj then 1 else 0) + (if j = i then 1 else 0)"
      by (cases "dget s j") auto
    with assms(2) have "rref_count d0 = owned (owners (heap_reg s)) j" by (simp add: acct_def)
    with d0(2) o show "rref_count d = owned (owners (heap_reg ?s)) j"
      unfolding H(2) by (simp add: owned_upd)
  qed
qed

lemma acct_boot: "acct (domain_init tick (ds_new\<lparr>exchange_heap := h\<rparr>))"
  by (simp add: acct_def sole_def owners_def owned_def domain_init_def ds_new_def hr_new_def domain_new_def Let_def)

lemma acct_exec:
  assumes inv: "ds_inv s" and a: "acct s" and fit: "acct_fits s q"
  shows "acct (dom_exec q s)"
proof (cases q)
  case (DSpawn tick nm t)
  from acct_create [OF inv a, of tick nm] DSpawn show ?thesis
    by (auto simp: spawn_domain_task_def set_domain_state_def acct_mut add_task_def split: prod.splits)
next
  case (DTerminate i)
  have "acct (reclaim_domain_resources i (with_domain_mut i (\<lambda>d. d\<lparr>dom_state := Terminated\<rparr>) s))"
    using inv a by (simp add: acct_reclaim acct_mut ds_inv_mut)
  with a DTerminate show ?thesis
    by (simp add: terminate_domain_def Let_def acct_notify split: option.splits)
next
  case (DRegister p n i)
  with acct_register [OF inv a, of p n i] fit show ?thesis by simp
next
  case (DTransfer p i)
  with acct_transfer [OF inv a, of i p] fit show ?thesis by simp
next
  case (DUnregister p)
  with acct_unregister [OF inv a, of p] show ?thesis by simp
next
  case (DLcTerminate i)
  with a show ?thesis
    by (auto simp: lc_terminate_domain_def rref_reclaim_domain_resources_def set_domain_state_def
        intro!: acct_cong [of "with_domain_mut i (\<lambda>d. d\<lparr>dom_state := Terminated\<rparr>) s"] acct_mut)
next
  case (DLcPanic i msg)
  with a show ?thesis
    by (auto simp: lc_handle_domain_panic_def rref_reclaim_domain_resources_def
        intro!: acct_cong [of "with_domain_mut i (\<lambda>d. d\<lparr>dom_state := Stopped, panic_message := Some msg\<rparr>) s"] acct_mut)
next
  case (DSetCurrent i)
  with a show ?thesis by (auto simp: set_current_domain_def intro: acct_cong)
qed (use inv a in \<open>auto simp: acct_create acct_reclaim acct_mut ds_inv_mut start_domain_def stop_domain_def
    handle_domain_panic_def set_domain_state_def add_task_to_domain_def remove_task_from_domain_def
    restart_domain_def add_domain_dependency_def add_task_def remove_task_def add_dependency_def add_dependent_def
    split: option.splits DomainState.splits\<close>)

lemma acct_fits_fits: "acct_fits s q \<Longrightarrow> fits s q"
  by (cases q) simp_all

lemma acct_reach: "reach acct_fits s \<Longrightarrow> ds_inv s \<and> acct s"
  by (induction rule: reach.induct) (auto simp: ds_inv_boot acct_boot ds_inv_exec acct_exec acct_fits_fits)

subsection \<open>The life cycle as an abstract machine\<close>

text \<open>The moves a domain can make; nothing suspends a domain or sends it back to initialisation.\<close>

inductive life :: "DomainState \<Rightarrow> DomainState \<Rightarrow> bool" where
  starts: "life Initializing Running"
| stops: "life st Stopped"
| ends: "life st Terminated"
| restarts: "is_runnable st = False \<Longrightarrow> st \<noteq> Suspended \<Longrightarrow> life st Running"

inductive_simps life_simps: "life st st'"

code_pred life .

text \<open>The domain whose state an operation is allowed to move.\<close>

fun subject :: "dom_op \<Rightarrow> DomainId option" where
  "subject (DStart i) = Some i"
| "subject (DStop i) = Some i"
| "subject (DTerminate i) = Some i"
| "subject (DPanic i _) = Some i"
| "subject (DLcTerminate i) = Some i"
| "subject (DLcPanic i _) = Some i"
| "subject (DRestart i) = Some i"
| "subject (DSetState i _) = Some i"
| "subject _ = None"

lemma state_notify:
  "map_option dom_state (dget (fold (\<lambda>dep. with_domain_mut dep (\<lambda>d. d\<lparr>last_error := m\<rparr>)) ds s) j) =
     map_option dom_state (dget s j)"
  by (cases "dget s j") (simp_all add: dget_notify)

lemma state_reclaim:
  "map_option dom_state (dget (reclaim_domain_resources i s) j) = map_option dom_state (dget s j)"
  by (cases "dget s j") (auto simp: reclaim_domain_resources_def Let_def)

lemma state_mut:
  "map_option dom_state (dget (with_domain_mut i f s) j) =
     map_option (\<lambda>d. if j = i then dom_state (f d) else dom_state d) (dget s j)"
  by (cases "dget s j") auto

lemma state_upd [simp]:
  "dom_state (add_task t d) = dom_state d" "dom_state (remove_task t d) = dom_state d"
  "dom_state (add_dependency e d) = dom_state d" "dom_state (add_dependent e d) = dom_state d"
  "dom_state (increment_rref d) = dom_state d" "dom_state (decrement_rref d) = dom_state d"
  "dom_state (add_memory n d) = dom_state d" "dom_state (free_memory n d) = dom_state d"
  by (simp_all add: domain_ops)

lemmas exec_defs = start_domain_def stop_domain_def terminate_domain_def handle_domain_panic_def
  set_domain_state_def add_task_to_domain_def remove_task_from_domain_def register_heap_object_def
  unregister_heap_object_def ds_transfer_ownership_def lc_terminate_domain_def lc_handle_domain_panic_def
  rref_reclaim_domain_resources_def restart_domain_def add_domain_dependency_def set_current_domain_def

text \<open>An operation that has another subject, or none, leaves the state of a domain alone.\<close>

lemma exec_other:
  assumes "ds_inv s" and "dget s i = Some d" and "subject q \<noteq> Some i"
  shows "get_domain_state i (dom_exec q s) = Some (dom_state d)"
proof -
  note C = create_domain_simps [OF assms(1)]
  have ne: "i \<noteq> next_id (registry s)" using C(3) assms(2) by auto
  show ?thesis
    using assms(2,3) ne unfolding get_domain_state_def
    by (cases q) (auto simp: exec_defs C(1,2) spawn_domain_task_def case_prod_unfold Let_def state_notify
        state_reclaim state_mut simp del: map_option_eq_Some split: option.splits DomainState.splits)
qed

lemma exec_subject:
  assumes "dget s i = Some d" and "subject q = Some i" and "\<And>st. q \<noteq> DSetState i st"
  shows "\<exists>st. get_domain_state i (dom_exec q s) = Some st \<and> (st = dom_state d \<or> life (dom_state d) st)"
  using assms unfolding get_domain_state_def
  by (cases q) (auto simp: exec_defs Let_def with_domain_def state_notify state_reclaim state_mut life_simps
      simp del: map_option_eq_Some split: option.splits DomainState.splits)

subsection \<open>Properties\<close>

text \<open>A run of the system, for the witnesses.\<close>

lemma reach_fold:
  assumes "reach G s" and "\<And>k. k < length qs \<Longrightarrow> G (fold dom_exec (take k qs) s) (qs ! k)"
  shows "reach G (fold dom_exec qs s)"
  using assms
proof (induction qs arbitrary: s)
  case (Cons q qs)
  have "reach G (dom_exec q s)" using Cons.prems(1) Cons.prems(2) [of 0] by (auto intro: reach.exec)
  moreover have "G (fold dom_exec (take k qs) (dom_exec q s)) (qs ! k)" if "k < length qs" for k
    using Cons.prems(2) [of "Suc k"] that by simp
  ultimately show ?case using Cons.IH by simp
qed simp

definition demo :: DomainSystem where
  "demo = fold dom_exec [DCreate 5 ''net'', DCreate 6 ''fs'', DStart 1, DRegister 4096 64 1, DTransfer 4096 2]
     (domain_init 0 (ds_new\<lparr>exchange_heap := eh_empty\<rparr>))"

lemma demo_reach: "reach acct_fits demo"
  unfolding demo_def
proof (rule reach_fold [OF reach.boot])
  let ?qs = "[DCreate 5 ''net'', DCreate 6 ''fs'', DStart 1, DRegister 4096 64 1, DTransfer 4096 2]"
  fix k assume "k < length ?qs"
  then consider "k = 0" | "k = 1" | "k = 2" | "k = 3" | "k = 4" by fastforce
  then show "acct_fits (fold dom_exec (take k ?qs) (domain_init 0 (ds_new\<lparr>exchange_heap := eh_empty\<rparr>))) (?qs ! k)"
    by cases (hypsubst, code_simp)+
qed

text \<open>
  C24: Every state the system reaches from boot is well-formed: the kernel domain exists; every domain is
  filed under its own number, below the next number to be given out, with no task or dependency
  listed twice; and both heap registries are consistent. A domain created in such a state gets a
  number no domain has, starts out initialising and empty, and disturbs no other domain.
\<close>

theorem domains_reachable_wellformed:
  assumes "reach fits s"
  shows "with_domain KERNEL dom_id s = Some KERNEL \<and> reg_inv (heap_reg s) \<and> reg_inv (rref_reg s) \<and>
    (\<forall>i. with_domain i (\<lambda>d. dom_id d = i \<and> i < next_id (registry s) \<and> distinct (tasks d) \<and>
       distinct (dependencies d) \<and> distinct (dependents d)) s \<noteq> Some False) \<and>
    (case create_domain tick nm s of (s', i) \<Rightarrow>
       get_domain_state i s = None \<and> get_domain_state i s' = Some Initializing \<and>
       with_domain i rref_count s' = Some 0 \<and> (\<forall>j. j \<noteq> i \<longrightarrow> with_domain j id s' = with_domain j id s))"
proof -
  note inv = ds_inv_reach [OF assms]
  note D = ds_invD [OF inv] and C = create_domain_simps [OF inv]
  have "case create_domain tick nm s of (s', i) \<Rightarrow>
       get_domain_state i s = None \<and> get_domain_state i s' = Some Initializing \<and>
       with_domain i rref_count s' = Some 0 \<and> (\<forall>j. j \<noteq> i \<longrightarrow> with_domain j id s' = with_domain j id s)"
    by (simp add: case_prod_unfold C get_domain_state_def with_domain_def domain_new_def)
  with D show ?thesis by (auto simp: with_domain_def dom_ok_def)
qed

theorem domains_reachable_wellformed_witness:
  "with_domain KERNEL dom_id demo = Some KERNEL"
  using domains_reachable_wellformed [OF reach_mono [OF demo_reach acct_fits_fits]] by simp

text \<open>
  C25: Termination returns exactly what the domain held. It is refused, changing nothing, only for the
  kernel and for a missing domain; otherwise the domain is terminated, its counters are zero, every
  object it owned is gone from the heap registry, the objects of other domains keep their owners,
  the domains that depend on it get the notice, and nothing else about another domain changes.
\<close>

theorem terminate_domain_exact:
  assumes "reach fits s"
  shows "case terminate_domain i s of
      (s', Inl _) \<Rightarrow> s' = s \<and> (i = KERNEL \<or> get_domain_state i s = None)
    | (s', Inr _) \<Rightarrow> i \<noteq> KERNEL \<and> get_domain_state i s' = Some Terminated \<and>
        with_domain i (\<lambda>d. (rref_count d, allocated_memory d)) s' = Some (0, 0) \<and>
        (\<forall>a. get_object (heap_reg s') a =
           (if map_option owner (get_object (heap_reg s) a) = Some i then None else get_object (heap_reg s) a)) \<and>
        (\<forall>j. j \<noteq> i \<longrightarrow> with_domain j id s' = with_domain j (\<lambda>d. if with_domain i (\<lambda>e. j \<in> set (dependents e)) s = Some True
           then d\<lparr>last_error := Some (terminated_msg i)\<rparr> else d) s)"
proof -
  note inv = ds_inv_reach [OF assms]
  obtain s' res where t: "terminate_domain i s = (s', res)" by (cases "terminate_domain i s")
  show ?thesis
  proof (cases res)
    case (Inl e)
    with terminate_Inl t show ?thesis by (fastforce simp: get_domain_state_def)
  next
    case (Inr u)
    from terminate_Inr [OF inv t [unfolded Inr]] obtain d where d: "i \<noteq> KERNEL" "dget s i = Some d"
      "dget s' = (\<lambda>j. map_option (after_termination i d j) (dget s j))"
      "heap_reg s' = fst (reclaim_all i (heap_reg s))" .
    have "get_object (heap_reg s') a =
        (if map_option owner (get_object (heap_reg s) a) = Some i then None else get_object (heap_reg s) a)" for a
      using reclaim_get_object [OF ds_invD(2) [OF inv]] by (simp add: d(4))
    with d t Inr show ?thesis
      by (auto simp: get_domain_state_def with_domain_def after_termination_def Let_def option.map_comp comp_def
          intro!: option.map_cong)
  qed
qed

theorem terminate_domain_exact_witness:
  "get_domain_state 2 (fst (terminate_domain 2 demo)) = Some Terminated \<and>
   get_object (heap_reg (fst (terminate_domain 2 demo))) 4096 = None"
proof -
  have "get_domain_state 2 demo = Some Initializing"
    "map_option owner (get_object (heap_reg demo) 4096) = Some 2" by code_simp+
  with terminate_domain_exact [OF reach_mono [OF demo_reach acct_fits_fits], of 2] show ?thesis
    by (cases "terminate_domain 2 demo") (auto simp: KERNEL_def split: sum.splits)
qed





text \<open>
  The kernel domain cannot be stopped or terminated through the domain system: in every state
  reached without a crash report for the kernel itself, a life-cycle termination of it or a raw
  state change, it is running, and requests to stop or terminate it fail without any effect.
\<close>

fun spares_kernel :: "dom_op \<Rightarrow> bool" where
  "spares_kernel (DPanic i _) = (i \<noteq> KERNEL)"
| "spares_kernel (DLcPanic i _) = (i \<noteq> KERNEL)"
| "spares_kernel (DLcTerminate i) = (i \<noteq> KERNEL)"
| "spares_kernel (DSetState i _) = (i \<noteq> KERNEL)"
| "spares_kernel _ = True"

lemma kernel_running_exec:
  assumes "ds_inv s" and "spares_kernel q" and "get_domain_state KERNEL s = Some Running"
  shows "get_domain_state KERNEL (dom_exec q s) = Some Running"
proof (cases "subject q = Some KERNEL")
  case False
  from assms(3) obtain d where d: "dget s KERNEL = Some d" "dom_state d = Running" by (auto simp: get_domain_state_def)
  from exec_other [OF assms(1) d(1) False] d(2) show ?thesis by simp
next
  case True
  with assms(2,3) show ?thesis
    by (cases q) (auto simp: start_domain_def stop_domain_def terminate_domain_def restart_domain_def
        get_domain_state_def with_domain_def)
qed

lemma kernel_keeps_running:
  assumes "reach (\<lambda>s q. fits s q \<and> spares_kernel q) s"
  shows "get_domain_state KERNEL s = Some Running \<and>
    (\<exists>e. stop_domain KERNEL s = (s, Inl e)) \<and> (\<exists>e. terminate_domain KERNEL s = (s, Inl e))"
proof -
  from assms have "ds_inv s \<and> get_domain_state KERNEL s = Some Running"
  proof (induction rule: reach.induct)
    case (boot tick h)
    show ?case using ds_inv_boot by (simp add: get_domain_state_def domain_init_def ds_new_def Let_def)
  next
    case (exec s q)
    then show ?case by (simp add: ds_inv_exec kernel_running_exec)
  qed
  then show ?thesis by (simp add: stop_domain_def terminate_domain_def)
qed

subsection \<open>Reclaimed memory\<close>

definition object_block :: "HeapRegistry \<Rightarrow> usize \<Rightarrow> Layout \<times> usize" where
  "object_block r a = (\<lparr>l_size = (case get_object r a of None \<Rightarrow> 0 | Some obj \<Rightarrow> size obj), l_align = 8\<rparr>, a)"

lemma free_objects:
  assumes "list_all (\<lambda>a. get_object r a \<noteq> None) as"
  shows "fold (free_object r) as h = fold (\<lambda>(l, p). eh_deallocate l p) (map (object_block r) as) h"
  using assms
proof (induction as arbitrary: h)
  case (Cons a as)
  then show ?case by (auto simp: free_object_def object_block_def)
qed simp

lemma domain_objects:
  assumes "reg_inv r"
  shows "(case get_domain_objects r i of None \<Rightarrow> [] | Some v \<Rightarrow> v) = bt_list (owner_index r) i"
    and "distinct (bt_list (owner_index r) i)"
    and "a \<in> set (bt_list (owner_index r) i) \<longleftrightarrow> owners r a = Some i"
proof -
  note ix = reg_invD(4) [OF assms]
  show "(case get_domain_objects r i of None \<Rightarrow> [] | Some v \<Rightarrow> v) = bt_list (owner_index r) i"
    by (simp add: get_domain_objects_def bt_list_def)
  show "distinct (bt_list (owner_index r) i)" using ix by (simp add: index_ok_def)
  show "a \<in> set (bt_list (owner_index r) i) \<longleftrightarrow> owners r a = Some i"
    using index_mem [OF ix, of a i] by (auto simp: owners_shape)
qed

text \<open>
  C28: Crash containment. When a domain crashes, it is stopped with its message recorded, every other
  domain and every object of another domain is left exactly as it was, and the memory of all its
  objects is back on the free list of the exchange heap, which stays well-formed, provided these
  objects were blocks of that heap. So the fault of one domain neither leaks memory nor reaches another.
\<close>

theorem crash_contained:
  assumes "reach fits s" and "eh_inv lo hi (exchange_heap s)"
    and "\<And>a. owners (heap_reg s) a = Some i \<Longrightarrow> eh_placed lo hi (fst (object_block (heap_reg s) a)) a \<and>
      eh_extent (fst (object_block (heap_reg s) a)) a \<inter> eh_bytes (exchange_heap s) = {}"
    and "\<And>a b. owners (heap_reg s) a = Some i \<Longrightarrow> owners (heap_reg s) b = Some i \<Longrightarrow> a \<noteq> b \<Longrightarrow>
      eh_extent (fst (object_block (heap_reg s) a)) a \<inter> eh_extent (fst (object_block (heap_reg s) b)) b = {}"
    and "s' = handle_domain_panic i msg s"
  shows "eh_inv lo hi (exchange_heap s') \<and>
    eh_bytes (exchange_heap s') = eh_bytes (exchange_heap s) \<union>
      (\<Union>a \<in> {a. owners (heap_reg s) a = Some i}. eh_extent (fst (object_block (heap_reg s) a)) a) \<and>
    (\<forall>a. owners (heap_reg s') a \<noteq> Some i) \<and>
    (\<forall>a d. d \<noteq> i \<longrightarrow> (owners (heap_reg s') a = Some d \<longleftrightarrow> owners (heap_reg s) a = Some d)) \<and>
    (\<forall>j. j \<noteq> i \<longrightarrow> with_domain j id s' = with_domain j id s) \<and>
    with_domain i (\<lambda>d. (dom_state d, panic_message d, rref_count d)) s' =
      with_domain i (\<lambda>_. (Stopped, Some msg, 0)) s"
proof -
  let ?r = "heap_reg s" and ?h = "exchange_heap s"
  let ?as = "bt_list (owner_index ?r) i"
  note inv = ds_invD(2) [OF ds_inv_reach [OF assms(1)]]
  note as = domain_objects [OF inv, where i = i]
  have h': "exchange_heap s' = fold (\<lambda>(l, p). eh_deallocate l p) (map (object_block ?r) ?as) ?h"
  proof -
    have "list_all (\<lambda>a. get_object ?r a \<noteq> None) ?as"
      using as(3) by (auto simp: list_all_iff owners_def get_object_def)
    from free_objects [OF this] show ?thesis
      by (simp add: assms(5) handle_domain_panic_def reclaim_domain_resources_def Let_def as(1))
  qed
  have b: "object_block ?r a = (fst (object_block ?r a), a)" for a by (simp add: object_block_def)
  have "sorted_wrt (\<lambda>a b. eh_extent (fst (object_block ?r a)) a \<inter> eh_extent (fst (object_block ?r b)) b = {}) ?as"
    using as(2,3) assms(4) by (intro distinct_sorted_wrt) simp_all
  then have srt: "sorted_wrt (\<lambda>b b'. eh_extent (fst b) (snd b) \<inter> eh_extent (fst b') (snd b') = {}) (map (object_block ?r) ?as)"
    by (simp add: sorted_wrt_map object_block_def)
  have "eh_placed lo hi l p \<and> eh_extent l p \<inter> eh_bytes ?h = {}" if "(l, p) \<in> set (map (object_block ?r) ?as)" for l p
    using that assms(3) as(3) by (auto simp: object_block_def)
  from exchange.release_all [OF assms(2) srt this]
  have heap: "eh_inv lo hi (exchange_heap s')" "eh_bytes (exchange_heap s') = eh_bytes ?h \<union>
      (\<Union>a \<in> {a. owners ?r a = Some i}. eh_extent (fst (object_block ?r a)) a)"
    unfolding h' using as(3) by (auto simp: object_block_def)
  note R = reclaim_simps [of "with_domain_mut i (\<lambda>d. d\<lparr>dom_state := Stopped, panic_message := Some msg\<rparr>) s", simplified, OF inv]
  have "owners (heap_reg s') = (\<lambda>a. if owners ?r a = Some i then None else owners ?r a)"
    by (simp add: assms(5) handle_domain_panic_def R(2) reclaim_spec(2) [OF inv])
  moreover have "dget s' = (dget s)(i := map_option (\<lambda>d. d\<lparr>dom_state := Stopped, panic_message := Some msg,
      rref_count := 0, allocated_memory := 0\<rparr>) (dget s i))"
    by (simp add: assms(5) handle_domain_panic_def R(1) option.map_comp comp_def)
  ultimately show ?thesis using heap by (simp add: with_domain_def option.map_comp comp_def)
qed

text \<open>A domain holding the first block of a fresh exchange heap.\<close>

definition crash_demo :: DomainSystem where
  "crash_demo = fold dom_exec [DCreate 5 ''net'', DRegister 4096 64 1]
     (domain_init 0 (ds_new\<lparr>exchange_heap := fst (eh_allocate \<lparr>l_size = 64, l_align = 8\<rparr> (eh_init 4096 4096 eh_empty))\<rparr>))"

lemma crash_demo_reach: "reach fits crash_demo"
  unfolding crash_demo_def
proof (rule reach_fold [OF reach.boot])
  let ?qs = "[DCreate 5 ''net'', DRegister 4096 64 1]"
  let ?h = "fst (eh_allocate \<lparr>l_size = 64, l_align = 8\<rparr> (eh_init 4096 4096 eh_empty))"
  fix k assume "k < length ?qs"
  then consider "k = 0" | "k = 1" by fastforce
  then show "fits (fold dom_exec (take k ?qs) (domain_init 0 (ds_new\<lparr>exchange_heap := ?h\<rparr>))) (?qs ! k)"
    by cases (hypsubst, code_simp)+
qed

theorem crash_contained_witness:
  "{4096..<4160} \<subseteq> eh_bytes (exchange_heap (handle_domain_panic 1 ''trap'' crash_demo))"
proof -
  let ?l = "\<lparr>l_size = 64, l_align = 8\<rparr>" and ?h = "eh_init 4096 4096 eh_empty"
  have h: "eh_inv 4096 8192 ?h" using eh_init_inv [of 4096 4096 eh_empty] by (simp add: SIZE_OF_FREE_BLOCK_def U64_MOD_def)
  have l: "layout_ok ?l" by (auto simp: layout_ok_def intro!: exI [of _ 3])
  have a: "snd (eh_allocate ?l ?h) = Some 4096" by code_simp
  then have "eh_allocate ?l ?h = (fst (eh_allocate ?l ?h), Some 4096)" by (simp add: prod_eq_iff)
  note A = exchange.alloc_Some [OF h l this]
  have e: "exchange_heap crash_demo = fst (eh_allocate ?l ?h)"
    by (simp add: crash_demo_def create_domain_def generate_id_def register_heap_object_def domain_init_def ds_new_def Let_def)
  have o: "objects (heap_reg crash_demo) =
      [(4096, \<lparr>address = 4096, size = 64, owner = 1, type_id = 0, generation = 1, ref_count = 1\<rparr>)]"
    by code_simp
  then have ow: "owners (heap_reg crash_demo) a = Some 1 \<longleftrightarrow> a = 4096"
    and b: "object_block (heap_reg crash_demo) 4096 = (?l, 4096)" for a
    by (auto simp: owners_def object_block_def get_object_def)
  have c: "eh_bytes (exchange_heap (handle_domain_panic 1 ''trap'' crash_demo)) = eh_bytes (exchange_heap crash_demo) \<union>
      (\<Union>a \<in> {a. owners (heap_reg crash_demo) a = Some 1}. eh_extent (fst (object_block (heap_reg crash_demo) a)) a)"
  proof (rule crash_contained [OF crash_demo_reach _ _ _ refl, THEN conjunct2, THEN conjunct1])
    show "eh_inv 4096 8192 (exchange_heap crash_demo)" using A by (simp add: e)
    fix a assume "owners (heap_reg crash_demo) a = Some 1"
    then have "a = 4096" by (simp only: ow)
    moreover have "eh_extent ?l 4096 \<inter> eh_bytes (exchange_heap crash_demo) = {}" using A unfolding e by blast
    ultimately show "eh_placed 4096 8192 (fst (object_block (heap_reg crash_demo) a)) a \<and>
        eh_extent (fst (object_block (heap_reg crash_demo) a)) a \<inter> eh_bytes (exchange_heap crash_demo) = {}"
      using A by (simp add: b)
  qed (simp only: ow)
  have "{a. owners (heap_reg crash_demo) a = Some 1} = {4096}" unfolding ow by simp
  then show ?thesis unfolding c by (auto simp: b eh_extent_def eff_size_def SIZE_OF_FREE_BLOCK_def)
qed

end
