(* ===== verification/RRef.thy ===== *)
theory RRef
  imports Domains
begin

text \<open>
  Remote references (\<open>src/src/ipc/rref.rs\<close>): values on the exchange heap whose owner is tracked by
  a heap registry of their own. The lemmas compose the exchange heap with the registry: for every
  program that creates, moves and drops references, the registry and the references agree.
  The destructor of the value is not modelled.
\<close>

subsection \<open>Remote references\<close>

record 'a RRef =
  rr_ptr :: usize
  rr_owner :: DomainId
  rr_value :: 'a

datatype AccessError = RRefNotOwner

text \<open>
  \<open>layout\<close> is \<open>Layout::new::<T>()\<close>; the value written to the exchange heap travels with the reference.
  A failed allocation is the panic of \<open>expect\<close>, the value \<open>None\<close>.
\<close>

definition rref_new :: "Layout \<Rightarrow> DomainId \<Rightarrow> 'a \<Rightarrow> DomainSystem \<Rightarrow> (DomainSystem \<times> 'a RRef) option" where
  "rref_new layout own v s =
     (case eh_allocate layout (exchange_heap s) of
        (h, None) \<Rightarrow> None
      | (h, Some p) \<Rightarrow>
          Some (s\<lparr>exchange_heap := h, rref_reg := register_simple p (l_size layout) own (rref_reg s)\<rparr>,
                \<lparr>rr_ptr = p, rr_owner = own, rr_value = v\<rparr>))"

definition move_to :: "DomainId \<Rightarrow> 'a RRef \<Rightarrow> DomainSystem \<Rightarrow> DomainSystem \<times> 'a RRef" where
  "move_to new_owner r s =
     (s\<lparr>rref_reg := fst (change_owner (rr_ptr r) (rr_owner r) new_owner (rref_reg s))\<rparr>, r\<lparr>rr_owner := new_owner\<rparr>)"

text \<open>\<open>as_ref_checked\<close>, and with the same check \<open>as_mut_checked\<close>.\<close>

definition as_ref_checked :: "'a RRef \<Rightarrow> DomainId \<Rightarrow> AccessError + 'a" where
  "as_ref_checked r requester = (if rr_owner r = requester then Inr (rr_value r) else Inl RRefNotOwner)"

definition into_inner :: "Layout \<Rightarrow> 'a RRef \<Rightarrow> DomainSystem \<Rightarrow> DomainSystem \<times> 'a" where
  "into_inner layout r s =
     (let s1 = s\<lparr>rref_reg := unregister_simple (rr_ptr r) (rref_reg s)\<rparr>
      in (s1\<lparr>exchange_heap := eh_deallocate layout (rr_ptr r) (exchange_heap s1)\<rparr>, rr_value r))"

definition rref_drop :: "Layout \<Rightarrow> 'a RRef \<Rightarrow> DomainSystem \<Rightarrow> DomainSystem" where
  "rref_drop layout r s = fst (into_inner layout r s)"

subsection \<open>Programs over references\<close>

text \<open>
  The references alive in the system with their layouts. A reference is used linearly: moving it
  replaces it, dropping it or taking the value out removes it.
\<close>

datatype 'a rr_op = RNew Layout DomainId 'a | RMove Layout "'a RRef" DomainId | RDrop Layout "'a RRef"

type_synonym 'a live = "(Layout \<times> 'a RRef) list"

fun rr_step :: "'a rr_op \<Rightarrow> DomainSystem \<times> 'a live \<Rightarrow> DomainSystem \<times> 'a live" where
  "rr_step (RNew l d v) (s, live) =
     (case rref_new l d v s of None \<Rightarrow> (s, live) | Some (s', r) \<Rightarrow> (s', (l, r) # live))"
| "rr_step (RMove l r d) (s, live) =
     (if (l, r) \<in> set live
      then case move_to d r s of (s', r') \<Rightarrow> (s', map (\<lambda>b. if b = (l, r) then (l, r') else b) live)
      else (s, live))"
| "rr_step (RDrop l r) (s, live) =
     (if (l, r) \<in> set live then (rref_drop l r s, remove1 (l, r) live) else (s, live))"

definition rr_run :: "'a rr_op list \<Rightarrow> DomainSystem \<times> 'a live \<Rightarrow> DomainSystem \<times> 'a live" where
  "rr_run = fold rr_step"

fun rr_fits :: "'a rr_op \<Rightarrow> bool" where
  "rr_fits (RNew l _ _) = layout_ok l"
| "rr_fits _ = True"

abbreviation rr_extent :: "Layout \<times> 'a RRef \<Rightarrow> nat set" where
  "rr_extent b \<equiv> eh_extent (fst b) (rr_ptr (snd b))"

text \<open>
  Live references occupy disjoint allocated blocks, the registry holds exactly them, each with the
  size of its layout and the owner the reference itself carries.
\<close>

definition rr_inv :: "usize \<Rightarrow> usize \<Rightarrow> DomainSystem \<times> 'a live \<Rightarrow> bool" where
  "rr_inv lo hi st = (case st of (s, live) \<Rightarrow>
     eh_inv lo hi (exchange_heap s) \<and> reg_inv (rref_reg s) \<and> sole (rref_reg s) \<and>
     sorted_wrt (\<lambda>b b'. rr_extent b \<inter> rr_extent b' = {}) live \<and>
     (\<forall>b \<in> set live. eh_placed lo hi (fst b) (rr_ptr (snd b)) \<and> rr_extent b \<inter> eh_bytes (exchange_heap s) = {} \<and>
        shape (rref_reg s) (rr_ptr (snd b)) = Some (rr_ptr (snd b), l_size (fst b), rr_owner (snd b))) \<and>
     dom (shape (rref_reg s)) = (\<lambda>b. rr_ptr (snd b)) ` set live)"

lemma rr_invI:
  assumes "eh_inv lo hi (exchange_heap s)" "reg_inv (rref_reg s)" "sole (rref_reg s)"
    "sorted_wrt (\<lambda>b b'. rr_extent b \<inter> rr_extent b' = {}) live"
    "\<And>b. b \<in> set live \<Longrightarrow> eh_placed lo hi (fst b) (rr_ptr (snd b)) \<and> rr_extent b \<inter> eh_bytes (exchange_heap s) = {} \<and>
        shape (rref_reg s) (rr_ptr (snd b)) = Some (rr_ptr (snd b), l_size (fst b), rr_owner (snd b))"
    "dom (shape (rref_reg s)) = (\<lambda>b. rr_ptr (snd b)) ` set live"
  shows "rr_inv lo hi (s, live)"
  using assms by (simp add: rr_inv_def)

lemma rr_invD:
  assumes "rr_inv lo hi (s, live)"
  shows "eh_inv lo hi (exchange_heap s)" "reg_inv (rref_reg s)" "sole (rref_reg s)"
    "sorted_wrt (\<lambda>b b'. rr_extent b \<inter> rr_extent b' = {}) live"
    "b \<in> set live \<Longrightarrow> eh_placed lo hi (fst b) (rr_ptr (snd b)) \<and> rr_extent b \<inter> eh_bytes (exchange_heap s) = {} \<and>
        shape (rref_reg s) (rr_ptr (snd b)) = Some (rr_ptr (snd b), l_size (fst b), rr_owner (snd b))"
    "dom (shape (rref_reg s)) = (\<lambda>b. rr_ptr (snd b)) ` set live"
  using assms by (simp_all add: rr_inv_def)

lemma extent_mem [simp]: "p \<in> eh_extent l p"
  by (simp add: eh_extent_def eff_size_def SIZE_OF_FREE_BLOCK_def)

lemma distinct_ptrs:
  assumes "sorted_wrt (\<lambda>b b'. rr_extent b \<inter> rr_extent b' = {}) live"
  shows "distinct (map (\<lambda>b. rr_ptr (snd b)) live)"
proof -
  have "rr_ptr (snd b) \<noteq> rr_ptr (snd b')" if "rr_extent b \<inter> rr_extent b' = {}" for b b' :: "Layout \<times> 'a RRef"
    using that extent_mem [of "rr_ptr (snd b)" "fst b"] extent_mem [of "rr_ptr (snd b)" "fst b'"] by fastforce
  note ne = this
  from assms show ?thesis
  proof (induction live)
    case (Cons b live)
    then have "\<forall>b' \<in> set live. rr_ptr (snd b) \<noteq> rr_ptr (snd b')" using ne [of b] by simp
    with Cons show ?case by auto
  qed simp
qed

text \<open>A block taken from the free list overlaps no registered object, so the registration succeeds.\<close>

lemma fresh_registers:
  assumes inv: "rr_inv lo hi (s, live)" and pl: "eh_placed lo hi l p" and fr: "eh_extent l p \<subseteq> eh_bytes (exchange_heap s)"
  shows "\<exists>g. snd (register p (l_size l) d 0 (rref_reg s)) = Inr g" and "p + l_size l < U64_MOD"
proof -
  note D = rr_invD [OF inv]
  from D(1) have "hi + 2 ^ 30 \<le> U64_MOD" by (simp add: eh_inv_def)
  with pl show fit: "p + l_size l < U64_MOD" by (auto simp: eh_placed_def eff_size_def max_def split: if_splits)
  have out: "{b..<b + m} \<inter> eh_extent l p = {} \<and> b \<notin> eh_extent l p" if "shape (rref_reg s) b = Some (x, m, e)" for b x m e
  proof -
    from that have "b \<in> dom (shape (rref_reg s))" by blast
    with D(6) obtain r where r: "r \<in> set live" "rr_ptr (snd r) = b" by auto
    with D(5) [OF r(1)] that have m: "m = l_size (fst r)" "rr_extent r \<inter> eh_bytes (exchange_heap s) = {}" by simp_all
    have "{b..<b + m} \<subseteq> rr_extent r" using m(1) r(2) by (auto simp: eh_extent_def eff_size_def)
    moreover have "b \<in> rr_extent r" using r(2) by simp
    ultimately show ?thesis using m(2) fr by blast
  qed
  have "shape (rref_reg s) p = None" using out [of p] by (cases "shape (rref_reg s) p") auto
  then have "bt_get (objects (rref_reg s)) p = None" by (simp add: shape_def)
  moreover have "\<not> check_overlap (rref_reg s) p (l_size l)"
    unfolding check_overlap_iff [OF D(2) fit]
  proof (intro notI, elim exE conjE)
    fix b m e assume b: "shape (rref_reg s) b = Some (b, m, e)" "b < p + l_size l" "p < b + m"
    show False
    proof (cases "b \<le> p")
      case True
      with b(3) out [OF b(1)] extent_mem [of p l] show False by (auto simp del: extent_mem)
    next
      case False
      with b(2) have "b \<in> eh_extent l p" by (simp add: eh_extent_def eff_size_def)
      with out [OF b(1)] show False by simp
    qed
  qed
  ultimately show "\<exists>g. snd (register p (l_size l) d 0 (rref_reg s)) = Inr g" by (simp add: register_def Let_def)
qed

lemma register_shape:
  assumes "reg_inv r" and "snd (register a n d 0 r) = Inr g"
  shows "shape (register_simple a n d r) = (shape r)(a \<mapsto> (a, n, d))"
  using assms reg_invD(1) [OF assms(1)]
  by (auto simp: register_simple_def register_def Let_def shape_def split: if_splits)

lemma rr_inv_new:
  assumes inv: "rr_inv lo hi (s, live)" and l: "layout_ok l" and new: "rref_new l d v s = Some (s', r)"
  shows "rr_inv lo hi (s', (l, r) # live)"
proof -
  note D = rr_invD [OF inv]
  from new obtain h p where a: "eh_allocate l (exchange_heap s) = (h, Some p)"
    and s': "s' = s\<lparr>exchange_heap := h, rref_reg := register_simple p (l_size l) d (rref_reg s)\<rparr>"
    and r: "r = \<lparr>rr_ptr = p, rr_owner = d, rr_value = v\<rparr>"
    by (auto simp: rref_new_def split: prod.splits option.splits)
  note A = exchange.alloc_Some [OF D(1) l a]
  from fresh_registers(1) [OF inv, of l p d] fresh_registers(2) [OF inv, of l p] A obtain g where g: "snd (register p (l_size l) d 0 (rref_reg s)) = Inr g"
    and fit: "p + l_size l < U64_MOD" by blast
  have sh: "shape (rref_reg s') = (shape (rref_reg s))(p \<mapsto> (p, l_size l, d))"
    using register_shape [OF D(2) g] by (simp add: s')
  have hs: "exchange_heap s' = h" by (simp add: s')
  have free: "eh_extent l p \<inter> rr_extent b = {} \<and> rr_extent b \<inter> eh_bytes h = {}" if "b \<in> set live" for b
    using A D(5) [OF that] by blast
  have old: "rr_ptr (snd b) \<noteq> p" if "b \<in> set live" for b
    using free [OF that] extent_mem [of p l] extent_mem [of p "fst b"] by (auto simp del: extent_mem)
  show ?thesis
  proof (rule rr_invI)
    show "eh_inv lo hi (exchange_heap s')" using A by (simp add: s')
    show "reg_inv (rref_reg s')" "sole (rref_reg s')" using D(2,3) fit by (simp_all add: s' hreg.add sole_ops)
    show "sorted_wrt (\<lambda>b b'. rr_extent b \<inter> rr_extent b' = {}) ((l, r) # live)" using D(4) free by (simp add: r)
    show "dom (shape (rref_reg s')) = (\<lambda>b. rr_ptr (snd b)) ` set ((l, r) # live)" using D(6) by (simp add: sh r)
    fix b assume "b \<in> set ((l, r) # live)"
    then show "eh_placed lo hi (fst b) (rr_ptr (snd b)) \<and> rr_extent b \<inter> eh_bytes (exchange_heap s') = {} \<and>
        shape (rref_reg s') (rr_ptr (snd b)) = Some (rr_ptr (snd b), l_size (fst b), rr_owner (snd b))"
    proof (cases "b = (l, r)")
      case True
      then show ?thesis using A by (auto simp: sh r hs)
    next
      case False
      with \<open>b \<in> set ((l, r) # live)\<close> have "b \<in> set live" by simp
      with D(5) free old show ?thesis by (simp add: sh hs)
    qed
  qed
qed

lemma transfer_shape:
  assumes "reg_inv r" and "sole r" and "shape r a = Some (x, n, f)"
  shows "shape (fst (transfer_ownership a f t r)) = (shape r)(a \<mapsto> (x, n, t))"
  using assms reg_invD(1) [OF assms(1)]
  by (auto simp: sole_def shape_def transfer_ownership_def drop_index_def Let_def fun_eq_iff split: option.splits)

lemma live_key:
  assumes "rr_inv lo hi (s, live)" and "(l, r) \<in> set live" and "b \<in> set live"
  shows "rr_ptr (snd b) = rr_ptr r \<longleftrightarrow> b = (l, r)"
proof -
  have "inj_on (\<lambda>b. rr_ptr (snd b)) (set live)"
    using distinct_ptrs [OF rr_invD(4) [OF assms(1)]] by (simp only: distinct_map)
  from inj_on_eq_iff [OF this assms(3,2)] show ?thesis by simp
qed

lemma rr_inv_move:
  assumes inv: "rr_inv lo hi (s, live)" and mem: "(l, r) \<in> set live"
  shows "rr_inv lo hi (rr_step (RMove l r d) (s, live))"
proof -
  note D = rr_invD [OF inv]
  define f where "f = (\<lambda>b. if b = (l, r) then (l, r\<lparr>rr_owner := d\<rparr>) else b)"
  let ?s = "s\<lparr>rref_reg := fst (transfer_ownership (rr_ptr r) (rr_owner r) d (rref_reg s))\<rparr>"
  have sh: "shape (rref_reg ?s) = (shape (rref_reg s))(rr_ptr r \<mapsto> (rr_ptr r, l_size l, d))"
    using transfer_shape [OF D(2,3)] D(5) [OF mem] by simp
  have same: "rr_extent (f b) = rr_extent b" "rr_ptr (snd (f b)) = rr_ptr (snd b)" "fst (f b) = fst b" for b by (simp_all add: f_def)
  have key: "rr_ptr (snd b) = rr_ptr r \<longleftrightarrow> b = (l, r)" if "b \<in> set live" for b
    by (rule live_key [OF inv mem that])
  have "rr_inv lo hi (?s, map f live)"
  proof (rule rr_invI)
    show "eh_inv lo hi (exchange_heap ?s)" using D(1) by simp
    show "reg_inv (rref_reg ?s)" "sole (rref_reg ?s)" using D(2,3) by (simp_all add: hreg.transfer_invar sole_ops)
    show "sorted_wrt (\<lambda>b b'. rr_extent b \<inter> rr_extent b' = {}) (map f live)"
      unfolding sorted_wrt_map same by (rule D(4))
    have "(\<lambda>b. rr_ptr (snd b)) ` set (map f live) = (\<lambda>b. rr_ptr (snd b)) ` set live"
      by (simp add: image_image same)
    with D(6) mem show "dom (shape (rref_reg ?s)) = (\<lambda>b. rr_ptr (snd b)) ` set (map f live)" unfolding sh by force
    fix b assume "b \<in> set (map f live)"
    then obtain b0 where b0: "b0 \<in> set live" "b = f b0" by auto
    from D(5) [OF b0(1)] key [OF b0(1)] show "eh_placed lo hi (fst b) (rr_ptr (snd b)) \<and> rr_extent b \<inter> eh_bytes (exchange_heap ?s) = {} \<and>
        shape (rref_reg ?s) (rr_ptr (snd b)) = Some (rr_ptr (snd b), l_size (fst b), rr_owner (snd b))"
      unfolding sh b0(2) by (cases "b0 = (l, r)") (simp_all add: f_def)
  qed
  with mem show ?thesis by (simp add: move_to_def f_def)
qed

lemma rr_inv_drop:
  assumes inv: "rr_inv lo hi (s, live)" and mem: "(l, r) \<in> set live"
  shows "rr_inv lo hi (rref_drop l r s, remove1 (l, r) live)"
proof -
  note D = rr_invD [OF inv]
  let ?s = "rref_drop l r s"
  have s: "exchange_heap ?s = eh_deallocate l (rr_ptr r) (exchange_heap s)"
    "rref_reg ?s = unregister_simple (rr_ptr r) (rref_reg s)" by (simp_all add: rref_drop_def into_inner_def Let_def)
  have sh: "shape (rref_reg ?s) = (shape (rref_reg s))(rr_ptr r := None)"
    using reg_invD(1) [OF D(2)] unfolding s(2)
    by (auto simp: unregister_simple_def shape_def count_freed_def drop_index_def fun_eq_iff split: option.splits)
  from D(5) [OF mem] have h: "eh_inv lo hi (exchange_heap ?s)"
    "eh_bytes (exchange_heap ?s) = eh_bytes (exchange_heap s) \<union> eh_extent l (rr_ptr r)"
    unfolding s(1) using exchange.dealloc [OF D(1)] exchange.dealloc_free [OF D(1)] by simp_all
  have dist: "distinct live" using distinct_ptrs [OF D(4)] by (simp add: distinct_map)
  have key: "rr_ptr (snd b) = rr_ptr r \<longleftrightarrow> b = (l, r)" if "b \<in> set live" for b
    by (rule live_key [OF inv mem that])
  show ?thesis
  proof (rule rr_invI)
    show "eh_inv lo hi (exchange_heap ?s)" by (rule h)
    show "reg_inv (rref_reg ?s)" "sole (rref_reg ?s)" unfolding s using D(2,3) by (simp_all add: unregister_simple_spec sole_ops)
    show "sorted_wrt (\<lambda>b b'. rr_extent b \<inter> rr_extent b' = {}) (remove1 (l, r) live)" by (rule sorted_wrt_remove1 [OF D(4)])
    show "dom (shape (rref_reg ?s)) = (\<lambda>b. rr_ptr (snd b)) ` set (remove1 (l, r) live)"
      unfolding sh using D(6) dist key mem by (auto simp: image_iff)
    fix b assume b: "b \<in> set (remove1 (l, r) live)"
    then have b': "b \<in> set live" "b \<noteq> (l, r)" using dist by auto
    have "rr_extent (l, r) \<inter> rr_extent b = {}" using remove1_disjoint [OF D(4) mem b] by simp
    with D(5) [OF b'(1)] key [OF b'(1)] b'(2) h(2)
    show "eh_placed lo hi (fst b) (rr_ptr (snd b)) \<and> rr_extent b \<inter> eh_bytes (exchange_heap ?s) = {} \<and>
        shape (rref_reg ?s) (rr_ptr (snd b)) = Some (rr_ptr (snd b), l_size (fst b), rr_owner (snd b))"
      unfolding sh h(2) by auto
  qed
qed

lemma rr_inv_step:
  assumes "rr_inv lo hi (s, live)" and "rr_fits q"
  shows "rr_inv lo hi (rr_step q (s, live))"
proof (cases q)
  case (RNew l d v)
  show ?thesis
  proof (cases "rref_new l d v s")
    case None
    with assms(1) RNew show ?thesis by simp
  next
    case (Some p)
    obtain s' r where "p = (s', r)" by (cases p)
    with rr_inv_new [OF assms(1)] assms(2) Some RNew show ?thesis by simp
  qed
next
  case (RMove l r d)
  show ?thesis
  proof (cases "(l, r) \<in> set live")
    case True
    with rr_inv_move [OF assms(1)] RMove show ?thesis by blast
  qed (use assms(1) RMove in simp)
next
  case (RDrop l r)
  then show ?thesis using rr_inv_drop [OF assms(1), of l r] assms(1) by simp
qed

lemma rr_inv_run:
  "rr_inv lo hi st \<Longrightarrow> list_all rr_fits qs \<Longrightarrow> rr_inv lo hi (rr_run qs st)"
proof (induction qs arbitrary: st)
  case (Cons q qs)
  obtain s live where "st = (s, live)" by (cases st)
  with Cons rr_inv_step [of lo hi s live q] show ?case by (simp add: rr_run_def)
qed (simp add: rr_run_def)

text \<open>
  C29: Whatever program of creations, moves and drops of remote references runs on a fresh exchange
  heap, the registry lists exactly the live references, each under the owner it carries itself, no
  two of them share memory, each lies aligned inside the heap, and the crash of one domain
  takes no reference of another out of the registry.
\<close>

theorem rref_ownership_consistent:
  assumes "0 < a" and "SIZE_OF_FREE_BLOCK \<le> n" and "a + n + 2 ^ 30 \<le> U64_MOD" and "list_all rr_fits qs"
    and "(s, live) = rr_run qs (ds_new\<lparr>exchange_heap := eh_init a n eh_empty\<rparr>, [])"
  shows "{(p, d). map_option owner (get_object (rref_reg s) p) = Some d} = (\<lambda>(l, r). (rr_ptr r, rr_owner r)) ` set live \<and>
    sorted_wrt (\<lambda>(l, r) (l', r'). {rr_ptr r..<rr_ptr r + l_size l} \<inter> {rr_ptr r'..<rr_ptr r' + l_size l'} = {}) live \<and>
    (\<forall>(l, r) \<in> set live. a \<le> rr_ptr r \<and> rr_ptr r + l_size l \<le> a + n \<and> eff_align l dvd rr_ptr r \<and>
       (\<forall>d. d \<noteq> rr_owner r \<longrightarrow> map_option owner (get_object (rref_reg (rref_reclaim_domain_resources d s)) (rr_ptr r)) =
          Some (rr_owner r)))"
proof -
  have "objects hr_new = []" by (simp add: hr_new_def)
  then have "sole hr_new" "shape hr_new = Map.empty" by (auto simp: sole_def shape_def)
  then have "rr_inv a (a + n) (ds_new\<lparr>exchange_heap := eh_init a n eh_empty\<rparr>, [])"
    using eh_init_inv [OF assms(1-3)] by (intro rr_invI) (simp_all add: ds_new_def)
  from rr_inv_run [OF this assms(4)] have inv: "rr_inv a (a + n) (s, live)" by (simp add: assms(5))
  note D = rr_invD [OF inv]
  have ow: "map_option owner (get_object r p) = owners r p" for r p by (simp add: owners_def get_object_def)
  have own: "owners (rref_reg s) (rr_ptr (snd b)) = Some (rr_owner (snd b))" if "b \<in> set live" for b
    using D(5) [OF that] by (simp add: owners_shape)
  have "{(p, d). owners (rref_reg s) p = Some d} \<subseteq> (\<lambda>(l, r). (rr_ptr r, rr_owner r)) ` set live"
  proof clarify
    fix p d assume o: "owners (rref_reg s) p = Some d"
    then have "p \<in> dom (shape (rref_reg s))" by (auto simp: owners_shape)
    with D(6) obtain b where b: "b \<in> set live" "rr_ptr (snd b) = p" by auto
    with own [OF b(1)] o show "(p, d) \<in> (\<lambda>(l, r). (rr_ptr r, rr_owner r)) ` set live"
      by (auto intro!: image_eqI [OF _ b(1)] simp: case_prod_unfold)
  qed
  moreover have "(\<lambda>(l, r). (rr_ptr r, rr_owner r)) ` set live \<subseteq> {(p, d). owners (rref_reg s) p = Some d}"
    using own by (auto simp: case_prod_unfold)
  moreover have "sorted_wrt (\<lambda>(l, r) (l', r'). {rr_ptr r..<rr_ptr r + l_size l} \<inter> {rr_ptr r'..<rr_ptr r' + l_size l'} = {}) live"
  proof (rule sorted_wrt_mono_rel [OF _ D(4)])
    have sub: "{p..<p + l_size l} \<subseteq> eh_extent l p" for p l by (auto simp: eh_extent_def eff_size_def)
    fix b b' assume "rr_extent b \<inter> rr_extent b' = {}"
    then show "(\<lambda>(l, r) (l', r'). {rr_ptr r..<rr_ptr r + l_size l} \<inter> {rr_ptr r'..<rr_ptr r' + l_size l'} = {}) b b'"
      using sub [of "rr_ptr (snd b)" "fst b"] sub [of "rr_ptr (snd b')" "fst b'"] unfolding case_prod_unfold by blast
  qed
  moreover have "a \<le> rr_ptr r \<and> rr_ptr r + l_size l \<le> a + n \<and> eff_align l dvd rr_ptr r \<and>
       (\<forall>d. d \<noteq> rr_owner r \<longrightarrow> owners (rref_reg (rref_reclaim_domain_resources d s)) (rr_ptr r) = Some (rr_owner r))"
    if "(l, r) \<in> set live" for l r
    using D(5) [OF that] own [OF that] hreg.reclaim_other [OF D(2)]
    by (auto simp: eh_placed_def eff_size_def rref_reclaim_domain_resources_def max_def split: if_splits)
  ultimately show ?thesis unfolding ow by blast
qed

theorem rref_ownership_consistent_witness:
  "{(p, d). map_option owner (get_object (rref_reg (fst (rr_run [RNew \<lparr>l_size = 8, l_align = 8\<rparr> 1 True,
       RMove \<lparr>l_size = 8, l_align = 8\<rparr> \<lparr>rr_ptr = 4096, rr_owner = 1, rr_value = True\<rparr> 2]
       (ds_new\<lparr>exchange_heap := eh_init 4096 4096 eh_empty\<rparr>, [])))) p) = Some d} = {(4096, 2)}"
proof -
  let ?qs = "[RNew \<lparr>l_size = 8, l_align = 8\<rparr> 1 True,
       RMove \<lparr>l_size = 8, l_align = 8\<rparr> \<lparr>rr_ptr = 4096, rr_owner = 1, rr_value = True\<rparr> 2]"
  let ?st = "rr_run ?qs (ds_new\<lparr>exchange_heap := eh_init 4096 4096 eh_empty\<rparr>, [])"
  have "list_all rr_fits ?qs" by (auto simp: layout_ok_def intro!: exI [of _ 3])
  note rref_ownership_consistent [OF _ _ _ this, of 4096 4096 "fst ?st" "snd ?st", THEN conjunct1]
  moreover have "snd ?st = [(\<lparr>l_size = 8, l_align = 8\<rparr>, \<lparr>rr_ptr = 4096, rr_owner = 2, rr_value = True\<rparr>)]" by code_simp
  ultimately show ?thesis by (simp add: SIZE_OF_FREE_BLOCK_def U64_MOD_def)
qed

end
