(* ===== verification/Fifo.thy ===== *)
theory Fifo
  imports Prelude
begin

text \<open>
  The contract of a first-in first-out carrier, stated once for the ring buffer, the pipe and the
  zero-copy channel: every step takes some items in and gives some out, and what it gives out
  followed by what is still inside is what was inside followed by what came in. The lemmas carry
  this to sequences of steps: nothing is lost, duplicated or reordered.
\<close>

fun fifo_run ::
  "('q \<Rightarrow> 's \<Rightarrow> 's \<times> 'x list \<times> 'x list) \<Rightarrow> 'q list \<Rightarrow> 's \<Rightarrow> 's \<times> 'x list \<times> 'x list" where
  "fifo_run step [] s = (s, [], [])"
| "fifo_run step (q # qs) s =
     (case step q s of (s1, ins, outs) \<Rightarrow>
       (case fifo_run step qs s1 of (s2, ins', outs') \<Rightarrow> (s2, ins @ ins', outs @ outs')))"

lemma fifo_run_append:
  "fifo_run step (ps @ qs) s =
     (case fifo_run step ps s of (s1, ins, outs) \<Rightarrow>
       (case fifo_run step qs s1 of (s2, ins', outs') \<Rightarrow> (s2, ins @ ins', outs @ outs')))"
  by (induction ps arbitrary: s) (auto split: prod.splits)

lemma fifo_run_trans:
  "fifo_run step ps s = (s1, i1, o1) \<Longrightarrow> fifo_run step qs s1 = (s2, i2, o2) \<Longrightarrow>
     fifo_run step (ps @ qs) s = (s2, i1 @ i2, o1 @ o2)"
  by (simp add: fifo_run_append)

locale fifo =
  fixes invar :: "'s \<Rightarrow> bool"
    and contents :: "'s \<Rightarrow> 'x list"
    and bound :: "'s \<Rightarrow> nat"
    and step :: "'q \<Rightarrow> 's \<Rightarrow> 's \<times> 'x list \<times> 'x list"
  assumes step_fifo: "invar s \<Longrightarrow> step q s = (s', ins, outs) \<Longrightarrow>
      invar s' \<and> outs @ contents s' = contents s @ ins \<and> bound s' = bound s"
    and within: "invar s \<Longrightarrow> length (contents s) \<le> bound s"
begin

lemma run_fifo:
  "invar s \<Longrightarrow> fifo_run step qs s = (s', ins, outs) \<Longrightarrow>
     invar s' \<and> outs @ contents s' = contents s @ ins \<and> bound s' = bound s"
proof (induction qs arbitrary: s s' ins outs)
  case (Cons q qs)
  obtain s1 i1 o1 where q: "step q s = (s1, i1, o1)" by (cases "step q s")
  obtain s2 i2 o2 where r: "fifo_run step qs s1 = (s2, i2, o2)" by (cases "fifo_run step qs s1")
  note A = step_fifo [OF Cons.prems(1) q]
  note B = Cons.IH [OF A [THEN conjunct1] r]
  have "(o1 @ o2) @ contents s2 = o1 @ contents s1 @ i2" using B by simp
  also have "\<dots> = contents s @ i1 @ i2" using A by (metis append.assoc)
  finally show ?case using A B Cons.prems(2) q r by auto
qed simp

text \<open>From an empty carrier, what comes out is a prefix of what went in, and the gap is bounded.\<close>

lemma run_prefix:
  assumes "invar s" and "contents s = []" and "fifo_run step qs s = (s', ins, outs)"
  shows "ins = outs @ contents s'" and "length ins \<le> length outs + bound s"
  using run_fifo [OF assms(1,3)] within [of s'] assms(2) by auto

end

end
