(* ===== verification/Pipe.thy ===== *)
theory Pipe
  imports BTreeMap Fifo "HOL-Library.List_Lexorder" "HOL-Library.Char_ord"
begin

text \<open>
  Pipes (\<open>src/src/ipc/pipe.rs\<close>): the ring buffer with its wrapping positions, the pipe with its
  two ends, flags, statistics and wait queues, and the pipe manager. A waker is a number; an
  operation returns the wakers it wakes. Pipes shared through \<open>Arc\<close> live in a store indexed by
  their number. The ring buffer refines a bounded queue of bytes, also when its positions wrap.
\<close>

subsection \<open>The ring buffer\<close>

record RingBuffer =
  buffer :: "u8 list"
  capacity :: usize
  read_pos :: usize
  write_pos :: usize

definition rb_new :: "usize \<Rightarrow> RingBuffer" where
  "rb_new n = \<lparr>buffer = replicate n 0, capacity = n, read_pos = 0, write_pos = 0\<rparr>"

definition rb_len :: "RingBuffer \<Rightarrow> usize" where
  "rb_len b = wsub64 (write_pos b) (read_pos b)"

definition available :: "RingBuffer \<Rightarrow> usize" where
  "available b = wsub64 (capacity b) (rb_len b)"

definition rb_is_empty :: "RingBuffer \<Rightarrow> bool" where
  "rb_is_empty b = (rb_len b = 0)"

definition is_full :: "RingBuffer \<Rightarrow> bool" where
  "is_full b = (capacity b \<le> rb_len b)"

definition rb_write :: "u8 list \<Rightarrow> RingBuffer \<Rightarrow> RingBuffer \<times> usize" where
  "rb_write dat b =
     (let to_write = min (length dat) (available b)
      in if to_write = 0 then (b, 0)
         else (b\<lparr>buffer := fold (\<lambda>i buf. buf[wadd64 (write_pos b) i mod capacity b := dat ! i]) [0..<to_write] (buffer b),
                 write_pos := wadd64 (write_pos b) to_write\<rparr>, to_write))"

text \<open>Copying \<open>n\<close> bytes from the read position into the caller's buffer.\<close>

definition copy_out :: "RingBuffer \<Rightarrow> usize \<Rightarrow> u8 list \<Rightarrow> u8 list" where
  "copy_out b n buf = fold (\<lambda>i buf. buf[i := buffer b ! (wadd64 (read_pos b) i mod capacity b)]) [0..<n] buf"

definition rb_read :: "u8 list \<Rightarrow> RingBuffer \<Rightarrow> RingBuffer \<times> u8 list \<times> usize" where
  "rb_read buf b =
     (let to_read = min (length buf) (rb_len b)
      in if to_read = 0 then (b, buf, 0)
         else (b\<lparr>read_pos := wadd64 (read_pos b) to_read\<rparr>, copy_out b to_read buf, to_read))"

definition peek :: "u8 list \<Rightarrow> RingBuffer \<Rightarrow> u8 list \<times> usize" where
  "peek buf b =
     (let to_read = min (length buf) (rb_len b)
      in if to_read = 0 then (buf, 0) else (copy_out b to_read buf, to_read))"

subsection \<open>The pipe\<close>

definition PIPE_BUFFER_DEFAULT :: usize where "PIPE_BUFFER_DEFAULT = 65536"
definition PIPE_BUFFER_MIN :: usize where "PIPE_BUFFER_MIN = 4096"
definition PIPE_BUFFER_MAX :: usize where "PIPE_BUFFER_MAX = 1048576"

datatype PipeError = BrokenPipe | WouldBlock | InvalidFd | CreationFailed | PipeOutOfMemory
  | ReaderClosed | WriterClosed | Timeout | Interrupted

record PipeFlags =
  non_blocking :: bool
  cloexec :: bool
  direct :: bool

definition pipe_flags_default :: PipeFlags where
  "pipe_flags_default = \<lparr>non_blocking = False, cloexec = False, direct = False\<rparr>"

record PipeStats =
  bytes_read :: u64
  bytes_written :: u64
  read_ops :: u64
  write_ops :: u64
  read_blocks :: u64
  write_blocks :: u64

definition pipe_stats_new :: PipeStats where
  "pipe_stats_new = \<lparr>bytes_read = 0, bytes_written = 0, read_ops = 0, write_ops = 0, read_blocks = 0, write_blocks = 0\<rparr>"

type_synonym waker = nat

record PipeInner =
  pipe_id :: u64
  pipe_buffer :: RingBuffer
  reader_open :: bool
  writer_open :: bool
  read_wakers :: "waker list"
  write_wakers :: "waker list"
  pipe_stats :: PipeStats
  pipe_flags :: PipeFlags

datatype 'a Poll = Ready 'a | Pending

definition pipe_inner_new :: "u64 \<Rightarrow> usize \<Rightarrow> PipeFlags \<Rightarrow> PipeInner" where
  "pipe_inner_new i n fl =
     \<lparr>pipe_id = i, pipe_buffer = rb_new n, reader_open = True, writer_open = True, read_wakers = [],
      write_wakers = [], pipe_stats = pipe_stats_new, pipe_flags = fl\<rparr>"

definition close_reader :: "PipeInner \<Rightarrow> PipeInner \<times> waker list" where
  "close_reader p = (p\<lparr>reader_open := False, write_wakers := []\<rparr>, write_wakers p)"

definition close_writer :: "PipeInner \<Rightarrow> PipeInner \<times> waker list" where
  "close_writer p = (p\<lparr>writer_open := False, read_wakers := []\<rparr>, read_wakers p)"

text \<open>The buffer of the caller is an argument and part of the result.\<close>

definition poll_read ::
  "u8 list \<Rightarrow> waker \<Rightarrow> PipeInner \<Rightarrow> PipeInner \<times> u8 list \<times> (PipeError + usize) Poll \<times> waker list" where
  "poll_read buf w p =
     (if \<not> writer_open p \<and> rb_is_empty (pipe_buffer p) then (p, buf, Ready (Inr 0), [])
      else case rb_read buf (pipe_buffer p) of (b, buf', n) \<Rightarrow>
        (let p1 = p\<lparr>pipe_buffer := b\<rparr>; st = pipe_stats p
         in if n > 0
            then (p1\<lparr>pipe_stats := st\<lparr>bytes_read := wadd64 (bytes_read st) n, read_ops := wadd64 (read_ops st) 1\<rparr>,
                     write_wakers := drop 1 (write_wakers p1)\<rparr>, buf', Ready (Inr n), take 1 (write_wakers p1))
            else if non_blocking (pipe_flags p) then (p1, buf', Ready (Inl WouldBlock), [])
            else (p1\<lparr>pipe_stats := st\<lparr>read_blocks := wadd64 (read_blocks st) 1\<rparr>,
                     read_wakers := read_wakers p1 @ [w]\<rparr>, buf', Pending, [])))"

definition poll_write ::
  "u8 list \<Rightarrow> waker \<Rightarrow> PipeInner \<Rightarrow> PipeInner \<times> (PipeError + usize) Poll \<times> waker list" where
  "poll_write dat w p =
     (if \<not> reader_open p then (p, Ready (Inl BrokenPipe), [])
      else case rb_write dat (pipe_buffer p) of (b, n) \<Rightarrow>
        (let p1 = p\<lparr>pipe_buffer := b\<rparr>; st = pipe_stats p
         in if n > 0
            then (p1\<lparr>pipe_stats := st\<lparr>bytes_written := wadd64 (bytes_written st) n, write_ops := wadd64 (write_ops st) 1\<rparr>,
                     read_wakers := drop 1 (read_wakers p1)\<rparr>, Ready (Inr n), take 1 (read_wakers p1))
            else if non_blocking (pipe_flags p) then (p1, Ready (Inl WouldBlock), [])
            else (p1\<lparr>pipe_stats := st\<lparr>write_blocks := wadd64 (write_blocks st) 1\<rparr>,
                     write_wakers := write_wakers p1 @ [w]\<rparr>, Pending, [])))"

definition pipe_buffer_size :: "PipeInner \<Rightarrow> usize" where
  "pipe_buffer_size p = capacity (pipe_buffer p)"

definition data_len :: "PipeInner \<Rightarrow> usize" where
  "data_len p = rb_len (pipe_buffer p)"

definition read_sync :: "u8 list \<Rightarrow> PipeInner \<Rightarrow> PipeInner \<times> u8 list \<times> (PipeError + usize)" where
  "read_sync buf p =
     (case rb_read buf (pipe_buffer p) of (b, buf', n) \<Rightarrow>
        (p\<lparr>pipe_buffer := b\<rparr>, buf',
         if n > 0 then Inr n else if \<not> writer_open p then Inr 0 else Inl WouldBlock))"

definition write_sync :: "u8 list \<Rightarrow> PipeInner \<Rightarrow> PipeInner \<times> (PipeError + usize)" where
  "write_sync dat p =
     (if \<not> reader_open p then (p, Inl BrokenPipe)
      else case rb_write dat (pipe_buffer p) of (b, n) \<Rightarrow>
        (p\<lparr>pipe_buffer := b\<rparr>, if n > 0 then Inr n else Inl WouldBlock))"

subsection \<open>The pipe manager\<close>

record PipeManager =
  pm_next_id :: u64
  named_pipes :: "(string, u64) btree"
  total_created :: u64
  total_destroyed :: u64
  pipe_store :: "u64 \<Rightarrow> PipeInner option"

definition pm_new :: PipeManager where
  "pm_new = \<lparr>pm_next_id = 1, named_pipes = [], total_created = 0, total_destroyed = 0, pipe_store = Map.empty\<rparr>"

text \<open>\<open>create_with_options\<close>; \<open>create\<close> uses the default size and flags. Both ends hold the number.\<close>

definition create_with_options :: "usize \<Rightarrow> PipeFlags \<Rightarrow> PipeManager \<Rightarrow> PipeManager \<times> u64" where
  "create_with_options n fl m =
     (let i = pm_next_id m
      in (m\<lparr>pm_next_id := wadd64 i 1, total_created := wadd64 (total_created m) 1,
            pipe_store := (pipe_store m)(i \<mapsto> pipe_inner_new i n fl)\<rparr>, i))"

definition pm_create :: "PipeManager \<Rightarrow> PipeManager \<times> u64" where
  "pm_create m = create_with_options PIPE_BUFFER_DEFAULT pipe_flags_default m"

definition create_named :: "string \<Rightarrow> PipeManager \<Rightarrow> PipeManager \<times> (PipeError + u64)" where
  "create_named nm m =
     (let i = pm_next_id m;
          m1 = m\<lparr>pm_next_id := wadd64 i 1\<rparr>
      in if bt_get (named_pipes m) nm \<noteq> None then (m1, Inl CreationFailed)
         else (m1\<lparr>named_pipes := bt_insert nm i (named_pipes m),
                  total_created := wadd64 (total_created m) 1,
                  pipe_store := (pipe_store m)(i \<mapsto> pipe_inner_new i PIPE_BUFFER_DEFAULT pipe_flags_default)\<rparr>, Inr i))"

definition open_named :: "string \<Rightarrow> PipeManager \<Rightarrow> u64 option" where
  "open_named nm m = bt_get (named_pipes m) nm"

definition remove_named :: "string \<Rightarrow> PipeManager \<Rightarrow> PipeManager \<times> bool" where
  "remove_named nm m =
     (if bt_get (named_pipes m) nm \<noteq> None
      then (m\<lparr>named_pipes := bt_remove nm (named_pipes m), total_destroyed := wadd64 (total_destroyed m) 1\<rparr>, True)
      else (m, False))"

text \<open>Dropping an end closes it in the shared pipe.\<close>

definition drop_reader :: "u64 \<Rightarrow> PipeManager \<Rightarrow> PipeManager" where
  "drop_reader i m = m\<lparr>pipe_store := (pipe_store m)(i := map_option (\<lambda>p. fst (close_reader p)) (pipe_store m i))\<rparr>"

definition drop_writer :: "u64 \<Rightarrow> PipeManager \<Rightarrow> PipeManager" where
  "drop_writer i m = m\<lparr>pipe_store := (pipe_store m)(i := map_option (\<lambda>p. fst (close_writer p)) (pipe_store m i))\<rparr>"

subsection \<open>The ring buffer as a bounded queue\<close>

text \<open>
  The capacity divides \<open>2 ^ 64\<close>, as every size constant of the code does: then the positions may wrap
  and still address the next cell.
\<close>

definition rb_inv :: "RingBuffer \<Rightarrow> bool" where
  "rb_inv b = (length (buffer b) = capacity b \<and> capacity b dvd U64_MOD \<and> capacity b < U64_MOD \<and>
     read_pos b < U64_MOD \<and> write_pos b < U64_MOD \<and> rb_len b \<le> capacity b)"

definition cell :: "RingBuffer \<Rightarrow> nat \<Rightarrow> nat" where
  "cell b i = (read_pos b + i) mod capacity b"

definition contents :: "RingBuffer \<Rightarrow> u8 list" where
  "contents b = map (\<lambda>i. buffer b ! cell b i) [0..<rb_len b]"

lemma length_contents [simp]: "length (contents b) = rb_len b"
  by (simp add: contents_def)

lemma rb_capacity_pos: "rb_inv b \<Longrightarrow> 0 < capacity b"
  by (auto simp: rb_inv_def intro: Nat.gr0I)

lemma rb_new_inv: "n dvd U64_MOD \<Longrightarrow> n < U64_MOD \<Longrightarrow> rb_inv (rb_new n) \<and> contents (rb_new n) = []"
  by (simp add: rb_inv_def rb_new_def rb_len_def wsub64_def contents_def)

lemma write_pos_eq:
  assumes "rb_inv b"
  shows "write_pos b = wadd64 (read_pos b) (rb_len b)"
  using assms by (simp add: rb_inv_def rb_len_def wadd64_wsub64)

lemma rb_available:
  assumes "rb_inv b"
  shows "available b = capacity b - rb_len b"
  using assms by (simp add: rb_inv_def available_def wsub64_exact)

lemma cell_less: "rb_inv b \<Longrightarrow> cell b i < capacity b"
  by (simp add: cell_def rb_capacity_pos)

lemma cell_inj:
  assumes "cell b i = cell b j" and "i < capacity b" and "j < capacity b"
  shows "i = j"
  using mod_add_inj [of "read_pos b" i "capacity b" j] assms by (simp add: cell_def)

text \<open>Storing through an index function.\<close>

lemma fold_update:
  assumes "inj_on p {..<n}" and "\<And>i. i < n \<Longrightarrow> p i < length xs"
  shows "length (fold (\<lambda>i buf. buf[p i := d i]) [0..<n] xs) = length xs"
    and "i < n \<Longrightarrow> fold (\<lambda>i buf. buf[p i := d i]) [0..<n] xs ! p i = d i"
    and "k \<notin> p ` {..<n} \<Longrightarrow> fold (\<lambda>i buf. buf[p i := d i]) [0..<n] xs ! k = xs ! k"
proof -
  show len: "length (fold (\<lambda>i buf. buf[p i := d i]) [0..<n] xs) = length xs" for n
    by (induction n) simp_all
  show "k \<notin> p ` {..<n} \<Longrightarrow> fold (\<lambda>i buf. buf[p i := d i]) [0..<n] xs ! k = xs ! k"
    by (induction n) (auto simp: lessThan_Suc)
  show "fold (\<lambda>i buf. buf[p i := d i]) [0..<n] xs ! p i = d i" if "i < n"
    using assms that
  proof (induction n)
    case (Suc n)
    have "p i \<noteq> p n" if "i < n" using inj_onD [OF Suc.prems(1), of i n] that by auto
    moreover have "inj_on p {..<n}" using Suc.prems(1) by (rule inj_on_subset) auto
    ultimately show ?case using Suc len [of n] by (cases "i = n") auto
  qed simp
qed

lemma copy_out_eq:
  assumes "rb_inv b" and "n \<le> length buf" and "n \<le> rb_len b"
  shows "copy_out b n buf = take n (contents b) @ drop n buf"
proof (rule nth_equalityI)
  have pos: "wadd64 (read_pos b) i mod capacity b = cell b i" for i
    using assms(1) by (simp add: rb_inv_def wadd64_mod cell_def)
  have inj: "inj_on (\<lambda>i. i) {..<n}" by simp
  have less: "i < n \<Longrightarrow> i < length buf" for i using assms(2) by simp
  note F = fold_update [OF inj less, where d = "\<lambda>i. buffer b ! cell b i"]
  show len: "length (copy_out b n buf) = length (take n (contents b) @ drop n buf)"
    using assms F(1) by (simp add: copy_out_def pos)
  fix k assume "k < length (copy_out b n buf)"
  then show "copy_out b n buf ! k = (take n (contents b) @ drop n buf) ! k"
    using assms F(2) [of k] F(3) [of k] len
    by (cases "k < n") (simp_all add: copy_out_def pos nth_append contents_def)
qed

text \<open>The three operations against the queue.\<close>

lemma rb_write_spec:
  assumes inv: "rb_inv b" and w: "rb_write dat b = (b', n)"
  shows "n = min (length dat) (capacity b - length (contents b))" and "rb_inv b'"
    and "contents b' = contents b @ take n dat" and "capacity b' = capacity b"
proof -
  let ?L = "rb_len b"
  have n: "n = min (length dat) (capacity b - ?L)"
    using w by (auto simp: rb_write_def Let_def rb_available [OF inv] split: if_splits)
  then show "n = min (length dat) (capacity b - length (contents b))" by simp
  have I: "length (buffer b) = capacity b" "capacity b dvd U64_MOD" "capacity b < U64_MOD"
    "read_pos b < U64_MOD" "write_pos b < U64_MOD" "?L \<le> capacity b" using inv by (simp_all add: rb_inv_def)
  have nL: "?L + n \<le> capacity b" using n I(6) by simp
  have pos: "wadd64 (write_pos b) i mod capacity b = cell b (?L + i)" for i
    by (subst write_pos_eq [OF inv]) (use I(2) in \<open>simp add: wadd64_assoc wadd64_mod cell_def\<close>)
  have inj: "inj_on (\<lambda>i. cell b (?L + i)) {..<n}"
    by (rule inj_onI) (use nL in \<open>auto dest: cell_inj\<close>)
  have less: "i < n \<Longrightarrow> cell b (?L + i) < length (buffer b)" for i using cell_less [OF inv] I(1) by simp
  note F = fold_update [OF inj less, where d = "\<lambda>i. dat ! i"]
  show cap: "capacity b' = capacity b" using w by (auto simp: rb_write_def Let_def split: if_splits)
  have rp: "read_pos b' = read_pos b" using w by (auto simp: rb_write_def Let_def split: if_splits)
  have wp: "write_pos b' = wadd64 (write_pos b) n"
    using w I(5) by (auto simp: rb_write_def Let_def wadd64_def split: if_splits)
  have buf: "buffer b' = fold (\<lambda>i buf. buf[cell b (?L + i) := dat ! i]) [0..<n] (buffer b)"
    using w by (auto simp: rb_write_def Let_def pos split: if_splits)
  have "rb_len b' = wsub64 (wadd64 (write_pos b) n) (read_pos b)" by (simp add: rb_len_def rp wp)
  also have "\<dots> = ?L + n"
    by (subst write_pos_eq [OF inv]) (use nL I in \<open>simp add: wadd64_assoc wsub64_wadd64\<close>)
  finally have len: "rb_len b' = ?L + n" .
  show "rb_inv b'" using I nL len F(1) unfolding rb_inv_def cap rp wp buf by simp
  show "contents b' = contents b @ take n dat"
  proof (rule nth_equalityI)
    show "length (contents b') = length (contents b @ take n dat)" using n by (simp add: len)
    fix k assume "k < length (contents b')"
    then have k: "k < ?L + n" by (simp add: len)
    have c: "contents b' ! k = buffer b' ! cell b k" using k by (simp add: contents_def len cell_def rp cap)
    show "contents b' ! k = (contents b @ take n dat) ! k"
    proof (cases "k < ?L")
      case True
      have "cell b k \<notin> (\<lambda>i. cell b (?L + i)) ` {..<n}" using True nL by (auto dest!: cell_inj)
      with F(3) True show ?thesis unfolding c buf by (simp add: nth_append contents_def)
    next
      case False
      with k F(2) [of "k - ?L"] show ?thesis unfolding c buf by (simp add: nth_append)
    qed
  qed
qed

lemma rb_read_spec:
  assumes inv: "rb_inv b" and r: "rb_read buf b = (b', buf', n)"
  shows "n = min (length buf) (length (contents b))" and "rb_inv b'" and "contents b' = drop n (contents b)"
    and "buf' = take n (contents b) @ drop n buf" and "capacity b' = capacity b"
proof -
  let ?L = "rb_len b"
  have n: "n = min (length buf) ?L" using r by (auto simp: rb_read_def Let_def split: if_splits)
  then show "n = min (length buf) (length (contents b))" by simp
  have I: "length (buffer b) = capacity b" "capacity b dvd U64_MOD" "capacity b < U64_MOD"
    "read_pos b < U64_MOD" "write_pos b < U64_MOD" "?L \<le> capacity b" using inv by (simp_all add: rb_inv_def)
  show "buf' = take n (contents b) @ drop n buf"
    using r n copy_out_eq [OF inv, of n buf] by (auto simp: rb_read_def Let_def split: if_splits)
  show cap: "capacity b' = capacity b" using r by (auto simp: rb_read_def Let_def split: if_splits)
  have same: "buffer b' = buffer b" "write_pos b' = write_pos b"
    using r by (auto simp: rb_read_def Let_def split: if_splits)
  have rp: "read_pos b' = wadd64 (read_pos b) n"
    using r I(4) by (auto simp: rb_read_def Let_def wadd64_def split: if_splits)
  have "rb_len b' = wsub64 (write_pos b) (wadd64 (read_pos b) n)" by (simp add: rb_len_def rp same)
  also have "\<dots> = ?L - n"
    by (subst write_pos_eq [OF inv]) (use n I in \<open>simp add: wsub64_wadd64_both\<close>)
  finally have len: "rb_len b' = ?L - n" .
  show "rb_inv b'" using I len unfolding rb_inv_def cap same rp by simp
  have "cell b' i = cell b (n + i)" for i
    using wadd64_mod [OF I(2), of "wadd64 (read_pos b) n" i] I(2)
    by (simp add: cell_def rp cap wadd64_assoc wadd64_mod)
  moreover have "n \<le> ?L" using n by simp
  ultimately show "contents b' = drop n (contents b)"
    by (intro nth_equalityI) (auto simp: contents_def len same less_diff_conv add.commute)
qed

lemma peek_spec:
  assumes "rb_inv b"
  shows "peek buf b = (let n = min (length buf) (length (contents b)) in (take n (contents b) @ drop n buf, n))"
  using copy_out_eq [OF assms, of "min (length buf) (rb_len b)" buf] by (simp add: peek_def Let_def)

subsection \<open>Runs of a ring buffer\<close>

datatype rb_op = RbWrite "u8 list" | RbRead "u8 list" | RbPeek "u8 list"

fun rb_step :: "rb_op \<Rightarrow> RingBuffer \<Rightarrow> RingBuffer \<times> u8 list \<times> u8 list" where
  "rb_step (RbWrite dat) b = (case rb_write dat b of (b', n) \<Rightarrow> (b', take n dat, []))"
| "rb_step (RbRead buf) b = (case rb_read buf b of (b', buf', n) \<Rightarrow> (b', [], take n buf'))"
| "rb_step (RbPeek buf) b = (b, [], [])"

lemma rb_step_fifo:
  assumes "rb_inv b" and "rb_step q b = (b', ins, outs)"
  shows "rb_inv b' \<and> outs @ contents b' = contents b @ ins \<and> capacity b' = capacity b"
proof (cases q)
  case (RbWrite dat)
  obtain n where "rb_write dat b = (b', n)" using assms(2) RbWrite by (auto split: prod.splits)
  with rb_write_spec [OF assms(1)] assms(2) RbWrite show ?thesis by auto
next
  case (RbRead buf)
  obtain buf' n where r: "rb_read buf b = (b', buf', n)" using assms(2) RbRead by (auto split: prod.splits)
  note R = rb_read_spec [OF assms(1) r]
  have "n \<le> length (contents b)" using R(1) by simp
  then have "take n buf' = take n (contents b)" by (simp add: R(4))
  with R assms(2) RbRead r show ?thesis by auto
qed (use assms in auto)

interpretation ring: fifo rb_inv contents capacity rb_step
proof unfold_locales
  show "length (contents s) \<le> capacity s" if "rb_inv s" for s using that by (simp add: rb_inv_def)
qed (rule rb_step_fifo)

subsection \<open>Runs of a pipe\<close>

datatype pipe_op = PollRead "u8 list" waker | PollWrite "u8 list" waker | ReadSync "u8 list"
  | WriteSync "u8 list" | CloseReader | CloseWriter

text \<open>The bytes a step accepts from the writer, and those it delivers to the reader.\<close>

fun pipe_step :: "pipe_op \<Rightarrow> PipeInner \<Rightarrow> PipeInner \<times> u8 list \<times> u8 list" where
  "pipe_step (PollRead buf w) p =
     (case poll_read buf w p of
        (p', buf', Ready (Inr n), _) \<Rightarrow> (p', [], take n buf')
      | (p', _, _, _) \<Rightarrow> (p', [], []))"
| "pipe_step (PollWrite dat w) p =
     (case poll_write dat w p of
        (p', Ready (Inr n), _) \<Rightarrow> (p', take n dat, [])
      | (p', _, _) \<Rightarrow> (p', [], []))"
| "pipe_step (ReadSync buf) p =
     (case read_sync buf p of (p', buf', Inr n) \<Rightarrow> (p', [], take n buf') | (p', _, Inl _) \<Rightarrow> (p', [], []))"
| "pipe_step (WriteSync dat) p =
     (case write_sync dat p of (p', Inr n) \<Rightarrow> (p', take n dat, []) | (p', Inl _) \<Rightarrow> (p', [], []))"
| "pipe_step CloseReader p = (fst (close_reader p), [], [])"
| "pipe_step CloseWriter p = (fst (close_writer p), [], [])"

text \<open>Every step is a step of the ring buffer inside, or leaves it alone.\<close>

lemma pipe_step_ring:
  assumes "pipe_step q p = (p', ins, outs)"
  shows "(\<exists>r. rb_step r (pipe_buffer p) = (pipe_buffer p', ins, outs)) \<or>
    pipe_buffer p' = pipe_buffer p \<and> ins = [] \<and> outs = []"
proof (cases q)
  case (PollRead buf w)
  have "rb_step (RbRead buf) (pipe_buffer p) = (pipe_buffer p', ins, outs) \<or>
      pipe_buffer p' = pipe_buffer p \<and> ins = [] \<and> outs = []"
    using assms PollRead by (auto simp: poll_read_def Let_def split: if_splits prod.splits)
  then show ?thesis by blast
next
  case (PollWrite dat w)
  have "rb_step (RbWrite dat) (pipe_buffer p) = (pipe_buffer p', ins, outs) \<or>
      pipe_buffer p' = pipe_buffer p \<and> ins = [] \<and> outs = []"
    using assms PollWrite by (auto simp: poll_write_def Let_def split: if_splits prod.splits)
  then show ?thesis by blast
next
  case (ReadSync buf)
  have "rb_step (RbRead buf) (pipe_buffer p) = (pipe_buffer p', ins, outs)"
    using assms ReadSync by (auto simp: read_sync_def split: if_splits prod.splits)
  then show ?thesis by blast
next
  case (WriteSync dat)
  have "rb_step (RbWrite dat) (pipe_buffer p) = (pipe_buffer p', ins, outs) \<or>
      pipe_buffer p' = pipe_buffer p \<and> ins = [] \<and> outs = []"
    using assms WriteSync by (auto simp: write_sync_def split: if_splits prod.splits)
  then show ?thesis by blast
qed (use assms in \<open>auto simp: close_reader_def close_writer_def\<close>)

interpretation pipe: fifo "\<lambda>p. rb_inv (pipe_buffer p)" "\<lambda>p. contents (pipe_buffer p)" pipe_buffer_size pipe_step
proof unfold_locales
  fix p p' q ins outs
  assume inv: "rb_inv (pipe_buffer p)" and q: "pipe_step q p = (p', ins, outs)"
  from pipe_step_ring [OF q] show "rb_inv (pipe_buffer p') \<and>
      outs @ contents (pipe_buffer p') = contents (pipe_buffer p) @ ins \<and> pipe_buffer_size p' = pipe_buffer_size p"
    using rb_step_fifo [OF inv] inv by (auto simp: pipe_buffer_size_def)
qed (simp add: pipe_buffer_size_def rb_inv_def)

subsection \<open>Draining a closed pipe\<close>

lemma poll_read_closed:
  assumes "rb_inv (pipe_buffer p)" and "\<not> writer_open p" and "buf \<noteq> []"
  obtains p' n where "pipe_step (PollRead buf w) p = (p', [], take n (contents (pipe_buffer p)))"
    and "rb_inv (pipe_buffer p')" and "\<not> writer_open p'"
    and "contents (pipe_buffer p') = drop n (contents (pipe_buffer p))"
    and "n = 0 \<longleftrightarrow> contents (pipe_buffer p) = []"
    and "n = 0 \<Longrightarrow> poll_read buf w p = (p, buf, Ready (Inr 0), [])"
proof (cases "rb_is_empty (pipe_buffer p)")
  case True
  then have "contents (pipe_buffer p) = []" by (simp add: contents_def rb_is_empty_def)
  with that [of p 0] assms(1,2) True show ?thesis by (simp add: poll_read_def)
next
  case False
  obtain b buf' n where r: "rb_read buf (pipe_buffer p) = (b, buf', n)" by (cases "rb_read buf (pipe_buffer p)")
  note R = rb_read_spec [OF assms(1) r]
  have ne: "contents (pipe_buffer p) \<noteq> []" using False by (auto simp: contents_def rb_is_empty_def)
  then have "0 < length buf" "0 < length (contents (pipe_buffer p))" 
    using assms(3) by (simp_all del: length_contents)
  then have n: "0 < n" "n \<le> length (contents (pipe_buffer p))" unfolding R(1) by simp_all
  then have "take n buf' = take n (contents (pipe_buffer p))" by (simp add: R(4))
  with n ne False r R(2,3) assms(2) show ?thesis
    by (intro that [of "fst (poll_read buf w p)" n]) (simp_all add: poll_read_def Let_def)
qed

lemma drain:
  assumes "rb_inv (pipe_buffer p)" and "\<not> writer_open p" and "buf \<noteq> []" and "length (contents (pipe_buffer p)) \<le> n"
  shows "\<exists>p'. fifo_run pipe_step (replicate n (PollRead buf w)) p = (p', [], contents (pipe_buffer p)) \<and>
    rb_inv (pipe_buffer p') \<and> \<not> writer_open p' \<and> contents (pipe_buffer p') = []"
  using assms
proof (induction n arbitrary: p)
  case (Suc n)
  from poll_read_closed [OF Suc.prems(1-3), of w] obtain p1 k
    where s: "pipe_step (PollRead buf w) p = (p1, [], take k (contents (pipe_buffer p)))"
    and p1: "rb_inv (pipe_buffer p1)" "\<not> writer_open p1" "contents (pipe_buffer p1) = drop k (contents (pipe_buffer p))"
    and k: "k = 0 \<longleftrightarrow> contents (pipe_buffer p) = []" by metis
  have "length (contents (pipe_buffer p1)) \<le> n" using k Suc.prems(4) by (cases "k = 0") (auto simp: p1(3))
  from Suc.IH [OF p1(1,2) Suc.prems(3) this] s show ?case by (auto simp: p1(3))
qed (auto simp: contents_def)

subsection \<open>Properties\<close>

text \<open>
  The ring buffer implements a bounded byte queue, also when its 64-bit positions have wrapped: a
  write appends as many bytes as fit, a read and a peek fill the caller's buffer from the front and
  leave the rest of it alone, a read removes exactly what it returned, and a byte never overwrites
  an unread one.
\<close>

lemma ring_buffer_refines:
  assumes "rb_inv b"
  shows "(case rb_write dat b of (b', n) \<Rightarrow> n = min (length dat) (capacity b - length (contents b)) \<and>
      rb_inv b' \<and> contents b' = contents b @ take n dat) \<and>
    (case rb_read buf b of (b', buf', n) \<Rightarrow> n = min (length buf) (length (contents b)) \<and>
      rb_inv b' \<and> contents b' = drop n (contents b) \<and> buf' = take n (contents b) @ drop n buf) \<and>
    peek buf b = (let n = min (length buf) (length (contents b)) in (take n (contents b) @ drop n buf, n))"
  using rb_write_spec [OF assms, of dat] rb_read_spec [OF assms, of buf] peek_spec [OF assms]
  by (simp split: prod.splits)

text \<open>
  C30: A pipe is first-in first-out under every interleaving of blocking, non-blocking and polled reads
  and writes and of closing either end: the bytes accepted from writers are exactly those
  delivered to readers, in order, followed by those still buffered, never more than the capacity.
\<close>

theorem pipe_fifo:
  assumes "n dvd U64_MOD" and "n < U64_MOD"
    and "fifo_run pipe_step qs (pipe_inner_new i n fl) = (p, ins, outs)"
  shows "ins = outs @ contents (pipe_buffer p) \<and> length ins \<le> length outs + n"
  using pipe.run_prefix [OF _ _ assms(3)] rb_new_inv [OF assms(1,2)]
  by (simp add: pipe_inner_new_def pipe_buffer_size_def rb_new_def)

theorem pipe_fifo_witness:
  "take 2 (fst (snd (fifo_run pipe_step [WriteSync [1, 2, 3], PollRead [0, 0] 7, CloseWriter] (pipe_inner_new 1 4 pipe_flags_default)))) =
   snd (snd (fifo_run pipe_step [WriteSync [1, 2, 3], PollRead [0, 0] 7, CloseWriter] (pipe_inner_new 1 4 pipe_flags_default)))"
proof -
  let ?r = "fifo_run pipe_step [WriteSync [1, 2, 3], PollRead [0, 0] 7, CloseWriter] (pipe_inner_new 1 4 pipe_flags_default)"
  have l: "length (snd (snd ?r)) = 2" by code_simp
  obtain p ins outs where r: "?r = (p, ins, outs)" by (rule prod_cases3)
  from pipe_fifo [OF _ _ r] have "ins = outs @ contents (pipe_buffer p)" by (simp add: U64_MOD_def)
  with l show ?thesis unfolding r by simp
qed

text \<open>
  Once the writer has closed, a reader with a non-empty buffer is never left waiting: as many polls
  as bytes are buffered deliver all of them in order, and every poll from then on reports the
  end of the stream.
\<close>

lemma pipe_drains:
  assumes "rb_inv (pipe_buffer p)" and "\<not> writer_open p" and "buf \<noteq> []"
  shows "\<exists>p'. fifo_run pipe_step (replicate (data_len p) (PollRead buf w)) p = (p', [], contents (pipe_buffer p)) \<and>
    poll_read buf w p' = (p', buf, Ready (Inr 0), [])"
proof -
  from drain [OF assms, of "data_len p" w] obtain p'
    where p': "fifo_run pipe_step (replicate (data_len p) (PollRead buf w)) p = (p', [], contents (pipe_buffer p))"
    "rb_inv (pipe_buffer p')" "\<not> writer_open p'" "contents (pipe_buffer p') = []" by (auto simp: data_len_def)
  from poll_read_closed [OF p'(2,3) assms(3), of w] p'(4) have "poll_read buf w p' = (p', buf, Ready (Inr 0), [])" by metis
  with p'(1) show ?thesis by blast
qed

end
