(* ===== verification/Channel.thy ===== *)
theory Channel
  imports RRef Pipe
begin

text \<open>
  Zero-copy channels (the second half of \<open>src/src/ipc/pipe.rs\<close>): a bounded queue of remote
  references with two ends. The layout of the element type is an argument. A reference that a
  failed send has consumed is dropped, as in Rust. The lemmas show that a channel is
  first-in first-out and compose it with the registry of the references.
\<close>

subsection \<open>The channel\<close>

datatype ChannelError = Disconnected | Full | Empty | SendClosed | RecvClosed

record 'a ZeroCopyChannel =
  queue :: "'a RRef list"
  sender_open :: bool
  receiver_open :: bool
  send_wakers :: "waker list"
  recv_wakers :: "waker list"
  ch_capacity :: usize

definition ch_new :: "usize \<Rightarrow> 'a ZeroCopyChannel" where
  "ch_new n = \<lparr>queue = [], sender_open = True, receiver_open = True, send_wakers = [], recv_wakers = [],
     ch_capacity = n\<rparr>"

definition ch_send ::
  "Layout \<Rightarrow> 'a RRef \<Rightarrow> DomainSystem \<Rightarrow> 'a ZeroCopyChannel \<Rightarrow>
   DomainSystem \<times> 'a ZeroCopyChannel \<times> (ChannelError + unit) \<times> waker list" where
  "ch_send l r s c =
     (if \<not> receiver_open c then (rref_drop l r s, c, Inl RecvClosed, [])
      else if ch_capacity c \<le> length (queue c) then (rref_drop l r s, c, Inl Full, [])
      else (s, c\<lparr>queue := queue c @ [r], recv_wakers := drop 1 (recv_wakers c)\<rparr>, Inr (), take 1 (recv_wakers c)))"

definition ch_recv :: "'a ZeroCopyChannel \<Rightarrow> 'a ZeroCopyChannel \<times> (ChannelError + 'a RRef) \<times> waker list" where
  "ch_recv c =
     (if \<not> sender_open c \<and> queue c = [] then (c, Inl Disconnected, [])
      else case queue c of
        r # rs \<Rightarrow> (c\<lparr>queue := rs, send_wakers := drop 1 (send_wakers c)\<rparr>, Inr r, take 1 (send_wakers c))
      | [] \<Rightarrow> (c, Inl Empty, []))"

definition poll_send ::
  "Layout \<Rightarrow> 'a RRef \<Rightarrow> waker \<Rightarrow> DomainSystem \<Rightarrow> 'a ZeroCopyChannel \<Rightarrow>
   DomainSystem \<times> 'a ZeroCopyChannel \<times> (ChannelError + unit) Poll \<times> waker list" where
  "poll_send l r w s c =
     (case ch_send l r s c of
        (s', c', Inr _, ws) \<Rightarrow> (s', c', Ready (Inr ()), ws)
      | (s', c', Inl e, ws) \<Rightarrow>
          if e = Full then (s', c'\<lparr>send_wakers := send_wakers c' @ [w]\<rparr>, Pending, ws)
          else (s', c', Ready (Inl e), ws))"

definition poll_recv ::
  "waker \<Rightarrow> 'a ZeroCopyChannel \<Rightarrow> 'a ZeroCopyChannel \<times> (ChannelError + 'a RRef) Poll \<times> waker list" where
  "poll_recv w c =
     (case ch_recv c of
        (c', Inr r, ws) \<Rightarrow> (c', Ready (Inr r), ws)
      | (c', Inl e, ws) \<Rightarrow>
          if e = Empty
          then if \<not> sender_open c' then (c', Ready (Inl Disconnected), ws)
               else (c'\<lparr>recv_wakers := recv_wakers c' @ [w]\<rparr>, Pending, ws)
          else (c', Ready (Inl e), ws))"

definition close_sender :: "'a ZeroCopyChannel \<Rightarrow> 'a ZeroCopyChannel \<times> waker list" where
  "close_sender c = (c\<lparr>sender_open := False, recv_wakers := []\<rparr>, recv_wakers c)"

definition close_receiver :: "'a ZeroCopyChannel \<Rightarrow> 'a ZeroCopyChannel \<times> waker list" where
  "close_receiver c = (c\<lparr>receiver_open := False, send_wakers := []\<rparr>, send_wakers c)"

subsection \<open>The two ends\<close>

text \<open>\<open>ZeroCopySender::send\<close>; the panic of a failed allocation is \<open>None\<close>.\<close>

definition sender_send ::
  "Layout \<Rightarrow> DomainId \<Rightarrow> 'a \<Rightarrow> DomainSystem \<Rightarrow> 'a ZeroCopyChannel \<Rightarrow>
   (DomainSystem \<times> 'a ZeroCopyChannel \<times> (ChannelError + unit) \<times> waker list) option" where
  "sender_send l own v s c = map_option (\<lambda>(s', r). ch_send l r s' c) (rref_new l own v s)"

definition receiver_recv ::
  "DomainId \<Rightarrow> DomainSystem \<Rightarrow> 'a ZeroCopyChannel \<Rightarrow> DomainSystem \<times> 'a ZeroCopyChannel \<times> (ChannelError + 'a RRef)" where
  "receiver_recv own s c =
     (case ch_recv c of
        (c', Inr r, _) \<Rightarrow> (case move_to own r s of (s', r') \<Rightarrow> (s', c', Inr r'))
      | (c', Inl e, _) \<Rightarrow> (s, c', Inl e))"

text \<open>\<open>recv_into\<close> consumes the receiver, which closes it.\<close>

definition recv_into ::
  "Layout \<Rightarrow> DomainId \<Rightarrow> DomainSystem \<Rightarrow> 'a ZeroCopyChannel \<Rightarrow> DomainSystem \<times> 'a ZeroCopyChannel \<times> (ChannelError + 'a)" where
  "recv_into l own s c =
     (case receiver_recv own s c of
        (s', c', Inr r) \<Rightarrow> (case into_inner l r s' of (s'', v) \<Rightarrow> (s'', fst (close_receiver c'), Inr v))
      | (s', c', Inl e) \<Rightarrow> (s', fst (close_receiver c'), Inl e))"

subsection \<open>Runs of a channel\<close>

datatype 'a ch_op = ChSend 'a | ChRecv | ChCloseSender | ChCloseReceiver

text \<open>The values a step accepts and those it delivers; a panic leaves the state alone.\<close>

fun ch_step ::
  "Layout \<Rightarrow> DomainId \<Rightarrow> DomainId \<Rightarrow> 'a ch_op \<Rightarrow> DomainSystem \<times> 'a ZeroCopyChannel \<Rightarrow>
   (DomainSystem \<times> 'a ZeroCopyChannel) \<times> 'a list \<times> 'a list" where
  "ch_step l d e (ChSend v) (s, c) =
     (case sender_send l d v s c of
        None \<Rightarrow> ((s, c), [], [])
      | Some (s', c', res, _) \<Rightarrow> ((s', c'), if res = Inr () then [v] else [], []))"
| "ch_step l d e ChRecv (s, c) =
     (case receiver_recv e s c of
        (s', c', Inr r) \<Rightarrow> ((s', c'), [], [rr_value r])
      | (s', c', Inl _) \<Rightarrow> ((s', c'), [], []))"
| "ch_step l d e ChCloseSender (s, c) = ((s, fst (close_sender c)), [], [])"
| "ch_step l d e ChCloseReceiver (s, c) = ((s, fst (close_receiver c)), [], [])"

lemma rref_new_value: "rref_new l d v s = Some (s', r) \<Longrightarrow> rr_value r = v \<and> rr_owner r = d"
  by (auto simp: rref_new_def split: prod.splits option.splits)

lemma ch_step_fifo:
  assumes "length (queue c) \<le> ch_capacity c" and "ch_step l d e q (s, c) = ((s', c'), ins, outs)"
  shows "length (queue c') \<le> ch_capacity c' \<and> ch_capacity c' = ch_capacity c \<and>
    outs @ map rr_value (queue c') = map rr_value (queue c) @ ins"
proof (cases q)
  case (ChSend v)
  show ?thesis
  proof (cases "rref_new l d v s")
    case None
    with assms ChSend show ?thesis by (simp add: sender_send_def)
  next
    case (Some p)
    obtain s1 r where "p = (s1, r)" by (cases p)
    with assms ChSend Some rref_new_value [of l d v s s1 r] show ?thesis
      by (auto simp: sender_send_def ch_send_def split: if_splits)
  qed
next
  case ChRecv
  with assms show ?thesis
    by (auto simp: receiver_recv_def ch_recv_def move_to_def split: if_splits list.splits)
qed (use assms in \<open>auto simp: close_sender_def close_receiver_def\<close>)

interpretation channel: fifo "\<lambda>(s, c). length (queue c) \<le> ch_capacity c" "\<lambda>(s, c). map rr_value (queue c)"
  "\<lambda>(s, c). ch_capacity c" "ch_step l d e" for l d e
proof unfold_locales
  fix st st' :: "DomainSystem \<times> 'a ZeroCopyChannel" and q ins outs
  assume inv: "case st of (s, c) \<Rightarrow> length (queue c) \<le> ch_capacity c" and q: "ch_step l d e q st = (st', ins, outs)"
  obtain s c s' c' where st: "st = (s, c)" "st' = (s', c')" by (cases st, cases st')
  from inv st have "length (queue c) \<le> ch_capacity c" by simp
  from ch_step_fifo [OF this q [unfolded st]]
  show "(case st' of (s, c) \<Rightarrow> length (queue c) \<le> ch_capacity c) \<and>
      outs @ (case st' of (s, c) \<Rightarrow> map rr_value (queue c)) = (case st of (s, c) \<Rightarrow> map rr_value (queue c)) @ ins \<and>
      (case st' of (s, c) \<Rightarrow> ch_capacity c) = (case st of (s, c) \<Rightarrow> ch_capacity c)"
    unfolding st by simp
qed auto

subsection \<open>Properties\<close>

text \<open>
  C31: A zero-copy channel delivers exactly the accepted values, in order: after any sequence of sends,
  receives and closes, the values sent successfully are those received followed by those still
  queued, and never more than the capacity are queued.
\<close>

theorem channel_fifo:
  assumes "fifo_run (ch_step l d e) qs (s, ch_new n) = ((s', c'), ins, outs)"
  shows "ins = outs @ map rr_value (queue c') \<and> length ins \<le> length outs + n"
  using channel.run_prefix [OF _ _ assms] by (simp add: ch_new_def)

theorem channel_fifo_witness:
  "fst (snd (fifo_run (ch_step \<lparr>l_size = 8, l_align = 8\<rparr> 1 2) [ChSend (5 :: nat), ChSend 6, ChRecv]
     (ds_new\<lparr>exchange_heap := eh_init 4096 4096 eh_empty\<rparr>, ch_new 4))) = [5, 6]"
proof -
  let ?r = "fifo_run (ch_step \<lparr>l_size = 8, l_align = 8\<rparr> 1 2) [ChSend (5 :: nat), ChSend 6, ChRecv]
     (ds_new\<lparr>exchange_heap := eh_init 4096 4096 eh_empty\<rparr>, ch_new 4)"
  have v: "snd (snd ?r) = [5]" "map rr_value (queue (snd (fst ?r))) = [6]" by code_simp+
  have "?r = ((fst (fst ?r), snd (fst ?r)), fst (snd ?r), snd (snd ?r))" by (simp only: prod.collapse)
  from channel_fifo [OF this, THEN conjunct1] show ?thesis unfolding v by (simp only: append.simps)
qed

text \<open>
  C32: Handing a value over moves its ownership with it. On any consistent heap, a value sent by one
  domain and received by another arrives unchanged; the reference and the registry both name the
  receiver, the sender's access is refused, no memory was copied (the address is the one allocated
  by the send), and the heap, registry and references stay consistent.
\<close>

theorem zero_copy_handover:
  assumes "rr_inv lo hi (s, live)" and "layout_ok l" and "receiver_open c" and "queue c = []" and "0 < ch_capacity c"
    and "sender_send l d v s c = Some (s1, c1, res, ws)" and "receiver_recv e s1 c1 = (s2, c2, res')"
  shows "res = Inr () \<and> (\<exists>r. res' = Inr r \<and> rr_value r = v \<and> as_ref_checked r e = Inr v \<and>
    (d \<noteq> e \<longrightarrow> as_ref_checked r d = Inl RRefNotOwner) \<and>
    map_option owner (get_object (rref_reg s1) (rr_ptr r)) = Some d \<and>
    map_option owner (get_object (rref_reg s2) (rr_ptr r)) = Some e \<and> rr_inv lo hi (s2, (l, r) # live))"
proof -
  from assms(6) obtain r0 where new: "rref_new l d v s = Some (s1, r0)"
    and c1: "res = Inr ()" "queue c1 = [r0]"
    using assms(3-5) by (auto simp: sender_send_def ch_send_def split: if_splits)
  note inv1 = rr_inv_new [OF assms(1,2) new] and val = rref_new_value [OF new]
  have r: "res' = Inr (r0\<lparr>rr_owner := e\<rparr>)" "s2 = fst (move_to e r0 s1)"
    using assms(7) c1(2) by (auto simp: receiver_recv_def ch_recv_def move_to_def)
  let ?r = "r0\<lparr>rr_owner := e\<rparr>"
  have "(l, r0) \<notin> set live"
    using distinct_ptrs [OF rr_invD(4) [OF inv1]] by (auto simp: image_iff)
  then have "map (\<lambda>b. if b = (l, r0) then (l, ?r) else b) live = live" by (intro map_idI) auto
  with rr_inv_move [OF inv1, of l r0 e] r(2) have inv2: "rr_inv lo hi (s2, (l, ?r) # live)"
    by (simp add: move_to_def)
  have own: "map_option owner (get_object (rref_reg s) (rr_ptr q)) = Some (rr_owner q)"
    if "rr_inv lo hi (s, (l, q) # live)" for s q
    using rr_invD(5) [OF that, of "(l, q)"] by (auto simp: get_object_def shape_def)
  from own [OF inv1] own [OF inv2] val r(1) c1(1) inv2 show ?thesis by (auto simp: as_ref_checked_def)
qed

text \<open>A consistent state with one channel hop in it, for the witnesses.\<close>

lemma fresh_rr_inv: "rr_inv 4096 8192 (ds_new\<lparr>exchange_heap := eh_init 4096 4096 eh_empty\<rparr>, [])"
proof -
  have "objects hr_new = []" by (simp add: hr_new_def)
  then have "sole hr_new" "shape hr_new = Map.empty" by (auto simp: sole_def shape_def)
  moreover have "eh_inv 4096 8192 (eh_init 4096 4096 eh_empty)"
    using eh_init_inv [of 4096 4096 eh_empty] by (simp add: SIZE_OF_FREE_BLOCK_def U64_MOD_def)
  ultimately show ?thesis by (intro rr_invI) (simp_all add: ds_new_def)
qed

lemma word_layout: "layout_ok \<lparr>l_size = 8, l_align = 8\<rparr>"
  by (auto simp: layout_ok_def intro!: exI [of _ 3])

theorem zero_copy_handover_witness:
  "\<exists>r. snd (snd (receiver_recv 2 (fst (the (sender_send \<lparr>l_size = 8, l_align = 8\<rparr> 1 (7 :: nat)
       (ds_new\<lparr>exchange_heap := eh_init 4096 4096 eh_empty\<rparr>) (ch_new 1))))
       (fst (snd (the (sender_send \<lparr>l_size = 8, l_align = 8\<rparr> 1 (7 :: nat)
       (ds_new\<lparr>exchange_heap := eh_init 4096 4096 eh_empty\<rparr>) (ch_new 1))))))) = Inr r \<and>
     rr_value r = 7 \<and> as_ref_checked r 2 = Inr 7 \<and> as_ref_checked r 1 = Inl RRefNotOwner"
proof -
  let ?s = "ds_new\<lparr>exchange_heap := eh_init 4096 4096 eh_empty\<rparr>" and ?l = "\<lparr>l_size = 8, l_align = 8\<rparr>"
  let ?x = "sender_send ?l 1 (7 :: nat) ?s (ch_new 1)"
  have "map_option (\<lambda>_. ()) ?x = Some ()" by code_simp
  then obtain s1 c1 res ws where x: "?x = Some (s1, c1, res, ws)" by (cases ?x) auto
  obtain s2 c2 res' where y: "receiver_recv 2 s1 c1 = (s2, c2, res')" by (rule prod_cases3)
  from zero_copy_handover [OF fresh_rr_inv word_layout _ _ _ x y] obtain r where "res' = Inr r" "rr_value r = 7"
    "as_ref_checked r 2 = Inr 7" "as_ref_checked r 1 = Inl RRefNotOwner" by (auto simp: ch_new_def)
  then show ?thesis unfolding x by (simp add: y)
qed

text \<open>
  A polled send on a full channel answers that it is pending although the value is already gone:
  the reference has been dropped, its object is no longer registered and its memory is free, while
  the queue is unchanged, so the caller that is woken later has nothing left to send.
\<close>

lemma poll_send_full_drops:
  assumes "rr_inv lo hi (s, live)" and "(l, r) \<in> set live" and "receiver_open c" and "ch_capacity c \<le> length (queue c)"
  shows "case poll_send l r w s c of (s', c', res, _) \<Rightarrow>
    res = Pending \<and> queue c' = queue c \<and> get_object (rref_reg s) (rr_ptr r) \<noteq> None \<and>
    get_object (rref_reg s') (rr_ptr r) = None \<and> {rr_ptr r..<rr_ptr r + l_size l} \<subseteq> eh_bytes (exchange_heap s')"
proof -
  note D = rr_invD [OF assms(1)]
  have "shape (rref_reg s) (rr_ptr r) \<noteq> None" using D(5) [OF assms(2)] by simp
  moreover have "owners (rref_reg (rref_drop l r s)) (rr_ptr r) = None"
    using unregister_simple_spec(2) [OF D(2)] by (simp add: rref_drop_def into_inner_def Let_def)
  moreover have "eh_bytes (exchange_heap (rref_drop l r s)) = eh_bytes (exchange_heap s) \<union> eh_extent l (rr_ptr r)"
    using exchange.dealloc_free [OF D(1), of l "rr_ptr r"] D(5) [OF assms(2)]
    by (simp add: rref_drop_def into_inner_def Let_def)
  moreover have "{rr_ptr r..<rr_ptr r + l_size l} \<subseteq> eh_extent l (rr_ptr r)" by (auto simp: eh_extent_def eff_size_def)
  ultimately show ?thesis using assms(3,4)
    by (auto simp: poll_send_def ch_send_def get_object_def shape_def owners_def)
qed

end
