(* ===== verification/Bytes.thy ===== *)
theory Bytes
  imports Prelude
begin

text \<open>
  Numbers as bytes, little-endian as the machine stores them and big-endian as the network sends
  them, with the reads of fixed fields that parsers of binary formats use.
\<close>

definition to_le :: "nat \<Rightarrow> nat \<Rightarrow> u8 list" where
  "to_le k n = map (\<lambda>i. word_of_nat (n div 256 ^ i)) [0..<k]"

definition of_le :: "u8 list \<Rightarrow> nat" where
  "of_le bs = foldr (\<lambda>b acc. unat b + 256 * acc) bs 0"

definition to_be :: "nat \<Rightarrow> nat \<Rightarrow> u8 list" where
  "to_be k n = rev (to_le k n)"

definition of_be :: "u8 list \<Rightarrow> nat" where
  "of_be bs = of_le (rev bs)"

text \<open>The number in the \<open>n\<close> bytes from \<open>off\<close>.\<close>

definition le_field :: "u8 list \<Rightarrow> nat \<Rightarrow> nat \<Rightarrow> nat" where
  "le_field bs off n = of_le (take n (drop off bs))"

definition be_field :: "u8 list \<Rightarrow> nat \<Rightarrow> nat \<Rightarrow> nat" where
  "be_field bs off n = of_be (take n (drop off bs))"

lemma length_to_le [simp]: "length (to_le k n) = k" and length_to_be [simp]: "length (to_be k n) = k"
  by (simp_all add: to_le_def to_be_def)

lemma of_le_simps [simp]: "of_le [] = 0" "of_le (b # bs) = unat b + 256 * of_le bs"
  by (simp_all add: of_le_def)

lemma to_le_0 [simp]: "to_le 0 n = []"
  by (simp add: to_le_def)

lemma to_le_Suc [simp]: "to_le (Suc k) n = word_of_nat n # to_le k (n div 256)"
  by (simp add: to_le_def upt_conv_Cons map_Suc_upt [symmetric] div_mult2_eq del: upt_Suc)

lemma of_le_to_le: "of_le (to_le k n) = n mod 256 ^ k"
  by (induction k arbitrary: n) (simp_all add: unat_of_nat mod_mult2_eq)

lemma of_be_to_be: "of_be (to_be k n) = n mod 256 ^ k"
  by (simp add: of_be_def to_be_def of_le_to_le)

lemma of_le_less: "of_le bs < 256 ^ length bs"
proof (induction bs)
  case (Cons b bs)
  have "unat b < 256" using unsigned_less [of b] by simp
  with Cons show ?case by simp
qed simp

lemma of_be_less: "of_be bs < 256 ^ length bs"
  using of_le_less [of "rev bs"] by (simp add: of_be_def)

lemma to_le_of_le: "to_le (length bs) (of_le bs) = bs"
proof (induction bs)
  case (Cons b bs)
  have b: "unat b < 256" using unsigned_less [of b] by simp
  have "(256 :: u8) = 0" by (simp add: word_eq_iff_unsigned)
  then have "(256 :: u8) * word_of_nat (of_le bs) = 0" by (metis mult_zero_left)
  then have "(word_of_nat (unat b + 256 * of_le bs) :: u8) = b" by simp
  moreover have "(unat b + 256 * of_le bs) div 256 = of_le bs" using b by simp
  ultimately show ?case using Cons by simp
qed simp

lemma to_be_of_be: "length bs = k \<Longrightarrow> to_be k (of_be bs) = bs"
  using to_le_of_le [of "rev bs"] by (simp add: to_be_def of_be_def)

lemma field_less: "of_le (take n bs) < 256 ^ n" "of_be (take n bs) < 256 ^ n"
proof -
  have "(256 :: nat) ^ length (take n bs) \<le> 256 ^ n" by (rule power_increasing) auto
  then show "of_le (take n bs) < 256 ^ n" "of_be (take n bs) < 256 ^ n"
    using of_le_less [of "take n bs"] of_be_less [of "take n bs"] by linarith+
qed

lemma le_field_less: "le_field bs off n < 256 ^ n" and be_field_less: "be_field bs off n < 256 ^ n"
  by (simp_all add: le_field_def be_field_def field_less)

text \<open>Reading a field of a file put together from its parts.\<close>

lemma le_field_skip: "length xs \<le> off \<Longrightarrow> le_field (xs @ ys) off n = le_field ys (off - length xs) n"
  by (simp add: le_field_def)

lemma le_field_here: "le_field (to_le n v @ ys) 0 n = v mod 256 ^ n" "le_field (to_le n v) 0 n = v mod 256 ^ n"
  by (simp_all add: le_field_def of_le_to_le)

lemma le_field_drop: "le_field (drop k bs) off n = le_field bs (k + off) n"
  by (simp add: le_field_def add.commute)

lemmas le_field_simps = le_field_skip le_field_here le_field_drop

end
