(* ===== verification/SharedMem.thy ===== *)
theory SharedMem
  imports RRef Pipe Bytes "HOL-Library.Sublist"
begin

text \<open>
  Shared memory (\<open>src/src/ipc/shared_mem.rs\<close>): regions with their attach counts, handles, the
  manager with its indexes by number, key and name, the System V and POSIX style entry points,
  typed regions and the ring buffer laid out in a region. Regions and handles are shared through
  \<open>Arc\<close>, so they live in stores: a region is referred to by its number, a handle by its
  position in the list of handles. Whether a reservation of memory succeeds is an argument.
\<close>

subsection \<open>Data\<close>

definition IPC_PRIVATE :: int where "IPC_PRIVATE = 0"
definition SHM_PAGE_SIZE :: usize where "SHM_PAGE_SIZE = 4096"

text \<open>\<open>ShmSize::page_aligned\<close>\<close>

definition page_aligned :: "usize \<Rightarrow> usize" where
  "page_aligned n = (wsub64 (wadd64 n SHM_PAGE_SIZE) 1 div SHM_PAGE_SIZE) * SHM_PAGE_SIZE"

record ShmPermissions =
  perm_read :: bool
  perm_write :: bool
  perm_execute :: bool
  perm_mode :: nat

definition shm_permissions_default :: ShmPermissions where
  "shm_permissions_default = \<lparr>perm_read = True, perm_write = True, perm_execute = False, perm_mode = 384\<rparr>"

definition SHM_READ_ONLY :: ShmPermissions where
  "SHM_READ_ONLY = \<lparr>perm_read = True, perm_write = False, perm_execute = False, perm_mode = 256\<rparr>"

definition SHM_READ_WRITE :: ShmPermissions where
  "SHM_READ_WRITE = \<lparr>perm_read = True, perm_write = True, perm_execute = False, perm_mode = 384\<rparr>"

record ShmFlags =
  fl_create :: bool
  fl_exclusive :: bool
  fl_remove_on_last_detach :: bool
  fl_huge_pages :: bool
  fl_locked :: bool

definition shm_flags_default :: ShmFlags where
  "shm_flags_default = \<lparr>fl_create = False, fl_exclusive = False, fl_remove_on_last_detach = False,
     fl_huge_pages = False, fl_locked = False\<rparr>"

datatype ShmError = ShmNotFound | ShmAlreadyExists | ShmPermissionDenied | ShmInvalidSize | ShmOutOfMemory
  | ShmInvalidAddress | ShmAlreadyAttached | ShmNotAttached | ShmInUse | ShmInvalidId | ShmNoResources

record ShmStats =
  st_attach_count :: usize
  st_total_attaches :: u64
  st_total_detaches :: u64
  st_created_at :: u64
  st_last_access :: u64
  st_last_modify :: u64

definition shm_stats_new :: ShmStats where
  "shm_stats_new = \<lparr>st_attach_count = 0, st_total_attaches = 0, st_total_detaches = 0,
     st_created_at = 0, st_last_access = 0, st_last_modify = 0\<rparr>"

record SharedMemoryRegion =
  rg_id :: u64
  rg_key :: int
  rg_size :: usize
  memory :: "u8 list"
  rg_permissions :: ShmPermissions
  rg_flags :: ShmFlags
  rg_stats :: ShmStats
  marked_for_removal :: bool
  rg_name :: "string option"

subsection \<open>Regions\<close>

definition region_new ::
  "(usize \<Rightarrow> bool) \<Rightarrow> u64 \<Rightarrow> int \<Rightarrow> usize \<Rightarrow> ShmPermissions \<Rightarrow> ShmFlags \<Rightarrow> ShmError + SharedMemoryRegion" where
  "region_new can_reserve i key n perms flags =
     (let aligned = page_aligned n
      in if \<not> can_reserve aligned then Inl ShmOutOfMemory
         else Inr \<lparr>rg_id = i, rg_key = key, rg_size = aligned, memory = replicate aligned 0, rg_permissions = perms,
           rg_flags = flags, rg_stats = shm_stats_new, marked_for_removal = False, rg_name = None\<rparr>)"

definition with_name ::
  "(usize \<Rightarrow> bool) \<Rightarrow> u64 \<Rightarrow> string \<Rightarrow> usize \<Rightarrow> ShmPermissions \<Rightarrow> ShmFlags \<Rightarrow> ShmError + SharedMemoryRegion" where
  "with_name can_reserve i nm n perms flags =
     map_sum id (\<lambda>r. r\<lparr>rg_name := Some nm\<rparr>) (region_new can_reserve i IPC_PRIVATE n perms flags)"

definition attach_count :: "SharedMemoryRegion \<Rightarrow> usize" where
  "attach_count r = st_attach_count (rg_stats r)"

definition region_attach :: "SharedMemoryRegion \<Rightarrow> SharedMemoryRegion" where
  "region_attach r = (let st = rg_stats r in
     r\<lparr>rg_stats := st\<lparr>st_attach_count := wadd64 (st_attach_count st) 1, st_total_attaches := wadd64 (st_total_attaches st) 1\<rparr>\<rparr>)"

definition region_detach :: "SharedMemoryRegion \<Rightarrow> SharedMemoryRegion \<times> bool" where
  "region_detach r = (let st = rg_stats r in
     (r\<lparr>rg_stats := st\<lparr>st_attach_count := wsub64 (st_attach_count st) 1, st_total_detaches := wadd64 (st_total_detaches st) 1\<rparr>\<rparr>,
      st_attach_count st = 1 \<and> marked_for_removal r))"

definition mark_for_removal :: "SharedMemoryRegion \<Rightarrow> SharedMemoryRegion" where
  "mark_for_removal r = r\<lparr>marked_for_removal := True\<rparr>"

definition can_be_removed :: "SharedMemoryRegion \<Rightarrow> bool" where
  "can_be_removed r = (marked_for_removal r \<and> attach_count r = 0)"

subsection \<open>The manager and its handles\<close>

record ShmHandle =
  h_region :: u64
  h_attached :: bool

record SharedMemoryManager =
  sm_next_id :: u64
  regions_by_id :: "(u64, u64) btree"
  regions_by_key :: "(int, u64) btree"
  regions_by_name :: "(string, u64) btree"
  sm_total_created :: u64
  sm_total_destroyed :: u64
  sm_total_bytes :: usize
  regions :: "u64 \<Rightarrow> SharedMemoryRegion option"
  handles :: "ShmHandle list"

definition sm_new :: SharedMemoryManager where
  "sm_new = \<lparr>sm_next_id = 1, regions_by_id = [], regions_by_key = [], regions_by_name = [], sm_total_created = 0,
     sm_total_destroyed = 0, sm_total_bytes = 0, regions = Map.empty, handles = []\<rparr>"

definition update_region :: "u64 \<Rightarrow> (SharedMemoryRegion \<Rightarrow> SharedMemoryRegion) \<Rightarrow> SharedMemoryManager \<Rightarrow> SharedMemoryManager" where
  "update_region i f m = m\<lparr>regions := (regions m)(i := map_option f (regions m i))\<rparr>"

definition sm_generate_id :: "SharedMemoryManager \<Rightarrow> SharedMemoryManager \<times> u64" where
  "sm_generate_id m = (m\<lparr>sm_next_id := wadd64 (sm_next_id m) 1\<rparr>, sm_next_id m)"

definition sm_create ::
  "(usize \<Rightarrow> bool) \<Rightarrow> int \<Rightarrow> usize \<Rightarrow> ShmPermissions \<Rightarrow> ShmFlags \<Rightarrow> SharedMemoryManager \<Rightarrow> SharedMemoryManager \<times> (ShmError + u64)" where
  "sm_create can_reserve key n perms flags m =
     (case (if key \<noteq> IPC_PRIVATE then bt_get (regions_by_key m) key else None) of
        Some i \<Rightarrow> (m, if fl_exclusive flags then Inl ShmAlreadyExists else Inr i)
      | None \<Rightarrow>
          (case sm_generate_id m of (m1, i) \<Rightarrow>
            (case region_new can_reserve i key n perms flags of
               Inl e \<Rightarrow> (m1, Inl e)
             | Inr r \<Rightarrow>
                 (let m2 = m1\<lparr>regions_by_id := bt_insert i i (regions_by_id m1), regions := (regions m1)(i \<mapsto> r)\<rparr>;
                      m3 = (if key \<noteq> IPC_PRIVATE then m2\<lparr>regions_by_key := bt_insert key i (regions_by_key m2)\<rparr> else m2)
                  in (m3\<lparr>sm_total_created := wadd64 (sm_total_created m3) 1,
                         sm_total_bytes := wadd64 (sm_total_bytes m3) (rg_size r)\<rparr>, Inr i)))))"

definition sm_create_named ::
  "(usize \<Rightarrow> bool) \<Rightarrow> string \<Rightarrow> usize \<Rightarrow> ShmPermissions \<Rightarrow> ShmFlags \<Rightarrow> SharedMemoryManager \<Rightarrow> SharedMemoryManager \<times> (ShmError + u64)" where
  "sm_create_named can_reserve nm n perms flags m =
     (case bt_get (regions_by_name m) nm of
        Some i \<Rightarrow> (m, if fl_exclusive flags then Inl ShmAlreadyExists else Inr i)
      | None \<Rightarrow>
          (case sm_generate_id m of (m1, i) \<Rightarrow>
            (case with_name can_reserve i nm n perms flags of
               Inl e \<Rightarrow> (m1, Inl e)
             | Inr r \<Rightarrow>
                 (let m2 = m1\<lparr>regions_by_id := bt_insert i i (regions_by_id m1), regions := (regions m1)(i \<mapsto> r)\<rparr>;
                      m3 = m2\<lparr>regions_by_name := bt_insert nm i (regions_by_name m2)\<rparr>
                  in (m3\<lparr>sm_total_created := wadd64 (sm_total_created m3) 1,
                         sm_total_bytes := wadd64 (sm_total_bytes m3) (rg_size r)\<rparr>, Inr i)))))"

definition get_by_key :: "int \<Rightarrow> SharedMemoryManager \<Rightarrow> u64 option" where
  "get_by_key key m = bt_get (regions_by_key m) key"

definition get_by_name :: "string \<Rightarrow> SharedMemoryManager \<Rightarrow> u64 option" where
  "get_by_name nm m = bt_get (regions_by_name m) nm"

text \<open>\<open>attach\<close> with \<open>ShmHandle::new\<close>: the new handle is the last of the list.\<close>

definition sm_attach :: "u64 \<Rightarrow> SharedMemoryManager \<Rightarrow> SharedMemoryManager \<times> (ShmError + nat)" where
  "sm_attach i m =
     (case bt_get (regions_by_id m) i of
        None \<Rightarrow> (m, Inl ShmNotFound)
      | Some ref \<Rightarrow> ((update_region ref region_attach m)\<lparr>handles := handles m @ [\<lparr>h_region = ref, h_attached = True\<rparr>]\<rparr>,
                    Inr (length (handles m))))"

definition do_remove :: "u64 \<Rightarrow> SharedMemoryRegion \<Rightarrow> SharedMemoryManager \<Rightarrow> SharedMemoryManager" where
  "do_remove i r m =
     (let m1 = m\<lparr>regions_by_id := bt_remove i (regions_by_id m)\<rparr>;
          m2 = (if rg_key r \<noteq> IPC_PRIVATE then m1\<lparr>regions_by_key := bt_remove (rg_key r) (regions_by_key m1)\<rparr> else m1);
          m3 = (case rg_name r of None \<Rightarrow> m2 | Some nm \<Rightarrow> m2\<lparr>regions_by_name := bt_remove nm (regions_by_name m2)\<rparr>)
      in m3\<lparr>sm_total_destroyed := wadd64 (sm_total_destroyed m3) 1,
            sm_total_bytes := wsub64 (sm_total_bytes m3) (rg_size r)\<rparr>)"

definition sm_remove :: "u64 \<Rightarrow> SharedMemoryManager \<Rightarrow> SharedMemoryManager \<times> (ShmError + unit)" where
  "sm_remove i m =
     (case bt_get (regions_by_id m) i of
        None \<Rightarrow> (m, Inl ShmNotFound)
      | Some ref \<Rightarrow>
          (let m1 = update_region ref mark_for_removal m
           in case regions m1 ref of
                None \<Rightarrow> (m1, Inl ShmNotFound)
              | Some r \<Rightarrow> if attach_count r > 0 then (m1, Inr ()) else (do_remove i r m1, Inr ())))"

record ShmInfo =
  info_id :: u64
  info_key :: int
  info_size :: usize
  info_attach_count :: usize
  info_permissions :: ShmPermissions
  info_name :: "string option"

definition sm_info :: "u64 \<Rightarrow> SharedMemoryManager \<Rightarrow> ShmInfo option" where
  "sm_info i m = Option.bind (bt_get (regions_by_id m) i) (\<lambda>ref. map_option (\<lambda>r.
     \<lparr>info_id = i, info_key = rg_key r, info_size = rg_size r, info_attach_count = attach_count r,
      info_permissions = rg_permissions r, info_name = rg_name r\<rparr>) (regions m ref))"

record ShmManagerStats =
  ms_total_created :: u64
  ms_total_destroyed :: u64
  ms_total_bytes :: usize
  ms_active_regions :: usize

definition sm_stats :: "SharedMemoryManager \<Rightarrow> ShmManagerStats" where
  "sm_stats m = \<lparr>ms_total_created = sm_total_created m, ms_total_destroyed = sm_total_destroyed m,
     ms_total_bytes = sm_total_bytes m, ms_active_regions = length (regions_by_id m)\<rparr>"

definition shmget :: "(usize \<Rightarrow> bool) \<Rightarrow> int \<Rightarrow> usize \<Rightarrow> ShmFlags \<Rightarrow> SharedMemoryManager \<Rightarrow> SharedMemoryManager \<times> (ShmError + u64)" where
  "shmget can_reserve key n flags m =
     (if fl_create flags \<or> key = IPC_PRIVATE then sm_create can_reserve key n shm_permissions_default flags m
      else (m, case get_by_key key m of None \<Rightarrow> Inl ShmNotFound | Some i \<Rightarrow> Inr i))"

definition shm_open :: "(usize \<Rightarrow> bool) \<Rightarrow> string \<Rightarrow> usize \<Rightarrow> ShmFlags \<Rightarrow> SharedMemoryManager \<Rightarrow> SharedMemoryManager \<times> (ShmError + u64)" where
  "shm_open can_reserve nm n flags m =
     (if fl_create flags then sm_create_named can_reserve nm n shm_permissions_default flags m
      else (m, case get_by_name nm m of None \<Rightarrow> Inl ShmNotFound | Some i \<Rightarrow> Inr i))"

definition shm_unlink :: "string \<Rightarrow> SharedMemoryManager \<Rightarrow> SharedMemoryManager \<times> (ShmError + unit)" where
  "shm_unlink nm m = (case get_by_name nm m of None \<Rightarrow> (m, Inl ShmNotFound) | Some i \<Rightarrow> sm_remove i m)"

subsection \<open>Access through a handle\<close>

text \<open>The bytes \<open>ShmHandle::read\<close> and \<open>write\<close> give access to: none once detached.\<close>

definition handle_slice :: "nat \<Rightarrow> SharedMemoryManager \<Rightarrow> u8 list option" where
  "handle_slice h m =
     (if h_attached (handles m ! h) then map_option memory (regions m (h_region (handles m ! h))) else None)"

definition splice :: "nat \<Rightarrow> 'b list \<Rightarrow> 'b list \<Rightarrow> 'b list" where
  "splice off dat mem = take off mem @ dat @ drop (off + length dat) mem"

definition store_slice :: "nat \<Rightarrow> u8 list \<Rightarrow> SharedMemoryManager \<Rightarrow> SharedMemoryManager" where
  "store_slice h mem m = update_region (h_region (handles m ! h)) (\<lambda>r. r\<lparr>memory := mem\<rparr>) m"

text \<open>The result is \<open>None\<close> where the slice expression panics, that is when the end has wrapped below the start.\<close>

definition write_at :: "nat \<Rightarrow> usize \<Rightarrow> u8 list \<Rightarrow> SharedMemoryManager \<Rightarrow> (SharedMemoryManager \<times> (ShmError + unit)) option" where
  "write_at h off dat m =
     (case handle_slice h m of
        None \<Rightarrow> Some (m, Inl ShmNotAttached)
      | Some mem \<Rightarrow>
          if length mem < wadd64 off (length dat) then Some (m, Inl ShmInvalidAddress)
          else if wadd64 off (length dat) < off then None
          else Some (store_slice h (splice off dat mem) m, Inr ()))"

definition read_at :: "nat \<Rightarrow> usize \<Rightarrow> u8 list \<Rightarrow> SharedMemoryManager \<Rightarrow> u8 list \<times> (ShmError + usize)" where
  "read_at h off buf m =
     (case handle_slice h m of
        None \<Rightarrow> (buf, Inl ShmNotAttached)
      | Some mem \<Rightarrow>
          if length mem \<le> off then (buf, Inl ShmInvalidAddress)
          else let to_read = min (length buf) (length mem - off)
               in (take to_read (drop off mem) @ drop to_read buf, Inr to_read))"

definition handle_detach :: "nat \<Rightarrow> SharedMemoryManager \<Rightarrow> SharedMemoryManager \<times> (ShmError + unit)" where
  "handle_detach h m =
     (if \<not> h_attached (handles m ! h) then (m, Inl ShmNotAttached)
      else (update_region (h_region (handles m ! h)) (\<lambda>r. fst (region_detach r))
              (m\<lparr>handles := (handles m)[h := (handles m ! h)\<lparr>h_attached := False\<rparr>]\<rparr>), Inr ()))"

definition handle_drop :: "nat \<Rightarrow> SharedMemoryManager \<Rightarrow> SharedMemoryManager" where
  "handle_drop h m = (if h_attached (handles m ! h) then fst (handle_detach h m) else m)"

subsection \<open>Typed regions\<close>

text \<open>
  How a value of the element type lies in memory is given by \<open>enc\<close> and \<open>dec\<close>, with \<open>esize\<close> for
  \<open>size_of::<T>()\<close>.
\<close>

record ZeroCopyRegion =
  zr_handle :: nat
  zr_owner :: DomainId

definition zr_attach :: "DomainId \<Rightarrow> u64 \<Rightarrow> SharedMemoryManager \<Rightarrow> SharedMemoryManager \<times> (ShmError + ZeroCopyRegion)" where
  "zr_attach own i m =
     (case sm_attach i m of
        (m', Inl e) \<Rightarrow> (m', Inl e)
      | (m', Inr h) \<Rightarrow> (m', Inr \<lparr>zr_handle = h, zr_owner = own\<rparr>))"

definition zr_new ::
  "(usize \<Rightarrow> bool) \<Rightarrow> usize \<Rightarrow> string \<Rightarrow> DomainId \<Rightarrow> SharedMemoryManager \<Rightarrow> SharedMemoryManager \<times> (ShmError + ZeroCopyRegion)" where
  "zr_new can_reserve esize nm own m =
     (case shm_open can_reserve nm esize (shm_flags_default\<lparr>fl_create := True\<rparr>) m of
        (m1, Inl e) \<Rightarrow> (m1, Inl e)
      | (m1, Inr i) \<Rightarrow> zr_attach own i m1)"

definition zr_open :: "string \<Rightarrow> DomainId \<Rightarrow> SharedMemoryManager \<Rightarrow> SharedMemoryManager \<times> (ShmError + ZeroCopyRegion)" where
  "zr_open nm own m = (case get_by_name nm m of None \<Rightarrow> (m, Inl ShmNotFound) | Some i \<Rightarrow> zr_attach own i m)"

definition zr_write :: "('a \<Rightarrow> u8 list) \<Rightarrow> usize \<Rightarrow> ZeroCopyRegion \<Rightarrow> 'a \<Rightarrow> SharedMemoryManager \<Rightarrow> SharedMemoryManager \<times> (ShmError + unit)" where
  "zr_write enc esize z v m =
     (case handle_slice (zr_handle z) m of
        None \<Rightarrow> (m, Inl ShmNotAttached)
      | Some mem \<Rightarrow> if length mem < esize then (m, Inl ShmInvalidSize)
                   else (store_slice (zr_handle z) (splice 0 (enc v) mem) m, Inr ()))"

definition zr_read :: "(u8 list \<Rightarrow> 'a) \<Rightarrow> usize \<Rightarrow> ZeroCopyRegion \<Rightarrow> SharedMemoryManager \<Rightarrow> ShmError + 'a" where
  "zr_read dec esize z m =
     (case handle_slice (zr_handle z) m of
        None \<Rightarrow> Inl ShmNotAttached
      | Some mem \<Rightarrow> if length mem < esize then Inl ShmInvalidSize else Inr (dec (take esize mem)))"

text \<open>\<open>read_as_rref\<close> and \<open>write_from_rref\<close>, with the layout of the type for the exchange heap.\<close>

definition read_as_rref ::
  "(u8 list \<Rightarrow> 'a) \<Rightarrow> Layout \<Rightarrow> ZeroCopyRegion \<Rightarrow> SharedMemoryManager \<Rightarrow> DomainSystem \<Rightarrow> (DomainSystem \<times> (ShmError + 'a RRef)) option" where
  "read_as_rref dec l z m s =
     (case zr_read dec (l_size l) z m of
        Inl e \<Rightarrow> Some (s, Inl e)
      | Inr v \<Rightarrow> map_option (\<lambda>(s', r). (s', Inr r)) (rref_new l (zr_owner z) v s))"

definition write_from_rref ::
  "('a \<Rightarrow> u8 list) \<Rightarrow> Layout \<Rightarrow> ZeroCopyRegion \<Rightarrow> 'a RRef \<Rightarrow> SharedMemoryManager \<Rightarrow> DomainSystem \<Rightarrow>
   SharedMemoryManager \<times> DomainSystem \<times> (ShmError + unit)" where
  "write_from_rref enc l z r m s =
     (case into_inner l r s of (s', v) \<Rightarrow>
       (case zr_write enc (l_size l) z v m of (m', res) \<Rightarrow> (m', s', res)))"

subsection \<open>The ring buffer in a region\<close>

text \<open>A 64-bit number in memory, least significant byte first.\<close>

abbreviation le64 :: "nat \<Rightarrow> u8 list" where
  "le64 n \<equiv> to_le 8 n"

abbreviation of_le64 :: "u8 list \<Rightarrow> nat" where
  "of_le64 bs \<equiv> of_le bs"

text \<open>\<open>SharedRingHeader\<close>: write position, read position, capacity and element size, eight bytes each.\<close>

definition RING_HEADER :: usize where "RING_HEADER = 32"

definition hdr_write_pos :: "u8 list \<Rightarrow> usize" where "hdr_write_pos mem = of_le64 (take 8 mem)"
definition hdr_read_pos :: "u8 list \<Rightarrow> usize" where "hdr_read_pos mem = of_le64 (take 8 (drop 8 mem))"
definition hdr_capacity :: "u8 list \<Rightarrow> usize" where "hdr_capacity mem = of_le64 (take 8 (drop 16 mem))"

record SharedRingBuffer =
  sr_handle :: nat
  sr_producer :: DomainId
  sr_consumer :: DomainId
  sr_capacity :: usize

definition sr_create ::
  "(usize \<Rightarrow> bool) \<Rightarrow> usize \<Rightarrow> string \<Rightarrow> usize \<Rightarrow> DomainId \<Rightarrow> DomainId \<Rightarrow> SharedMemoryManager \<Rightarrow>
   SharedMemoryManager \<times> (ShmError + SharedRingBuffer)" where
  "sr_create can_reserve esize nm cap pd cs m =
     (let total_size = wadd64 RING_HEADER ((cap * esize) mod U64_MOD)
      in case shm_open can_reserve nm total_size (shm_flags_default\<lparr>fl_create := True, fl_exclusive := True\<rparr>) m of
           (m1, Inl e) \<Rightarrow> (m1, Inl e)
         | (m1, Inr i) \<Rightarrow>
             (case sm_attach i m1 of
                (m2, Inl e) \<Rightarrow> (m2, Inl e)
              | (m2, Inr h) \<Rightarrow>
                  (case handle_slice h m2 of
                     None \<Rightarrow> (m2, Inl ShmNotAttached)
                   | Some mem \<Rightarrow>
                       (store_slice h (splice 0 (le64 0 @ le64 0 @ le64 cap @ le64 esize) mem) m2,
                        Inr \<lparr>sr_handle = h, sr_producer = pd, sr_consumer = cs, sr_capacity = cap\<rparr>))))"

definition sr_open :: "string \<Rightarrow> DomainId \<Rightarrow> DomainId \<Rightarrow> SharedMemoryManager \<Rightarrow> SharedMemoryManager \<times> (ShmError + SharedRingBuffer)" where
  "sr_open nm pd cs m =
     (case get_by_name nm m of
        None \<Rightarrow> (m, Inl ShmNotFound)
      | Some i \<Rightarrow>
          (case sm_attach i m of
             (m1, Inl e) \<Rightarrow> (m1, Inl e)
           | (m1, Inr h) \<Rightarrow>
               (case handle_slice h m1 of
                  None \<Rightarrow> (m1, Inl ShmNotAttached)
                | Some mem \<Rightarrow> (m1, Inr \<lparr>sr_handle = h, sr_producer = pd, sr_consumer = cs, sr_capacity = hdr_capacity mem\<rparr>))))"

text \<open>\<open>push\<close> and \<open>pop\<close> on the bytes of the region; a capacity of zero is the division panic, \<open>None\<close>.\<close>

definition push_mem :: "('a \<Rightarrow> u8 list) \<Rightarrow> usize \<Rightarrow> usize \<Rightarrow> 'a \<Rightarrow> u8 list \<Rightarrow> (u8 list \<times> (ShmError + unit)) option" where
  "push_mem enc esize cap v mem =
     (if cap = 0 then None
      else let w = hdr_write_pos mem; next_write = wadd64 w 1 mod cap
           in if next_write = hdr_read_pos mem then Some (mem, Inl ShmOutOfMemory)
              else Some (splice 0 (le64 next_write) (splice (RING_HEADER + w * esize) (enc v) mem), Inr ()))"

definition pop_mem :: "(u8 list \<Rightarrow> 'a) \<Rightarrow> usize \<Rightarrow> usize \<Rightarrow> u8 list \<Rightarrow> (u8 list \<times> (ShmError + 'a)) option" where
  "pop_mem dec esize cap mem =
     (let r = hdr_read_pos mem
      in if r = hdr_write_pos mem then Some (mem, Inl ShmNotFound)
         else let v = dec (take esize (drop (RING_HEADER + r * esize) mem))
              in if cap = 0 then None else Some (splice 8 (le64 (wadd64 r 1 mod cap)) mem, Inr v))"

definition sr_push ::
  "('a \<Rightarrow> u8 list) \<Rightarrow> usize \<Rightarrow> SharedRingBuffer \<Rightarrow> 'a \<Rightarrow> SharedMemoryManager \<Rightarrow> (SharedMemoryManager \<times> (ShmError + unit)) option" where
  "sr_push enc esize b v m =
     (case handle_slice (sr_handle b) m of
        None \<Rightarrow> Some (m, Inl ShmNotAttached)
      | Some mem \<Rightarrow> map_option (\<lambda>(mem', res). (store_slice (sr_handle b) mem' m, res)) (push_mem enc esize (sr_capacity b) v mem))"

definition sr_pop ::
  "(u8 list \<Rightarrow> 'a) \<Rightarrow> usize \<Rightarrow> SharedRingBuffer \<Rightarrow> SharedMemoryManager \<Rightarrow> (SharedMemoryManager \<times> (ShmError + 'a)) option" where
  "sr_pop dec esize b m =
     (case handle_slice (sr_handle b) m of
        None \<Rightarrow> Some (m, Inl ShmNotAttached)
      | Some mem \<Rightarrow> map_option (\<lambda>(mem', res). (store_slice (sr_handle b) mem' m, res)) (pop_mem dec esize (sr_capacity b) mem))"

definition pop_as_rref ::
  "(u8 list \<Rightarrow> 'a) \<Rightarrow> Layout \<Rightarrow> SharedRingBuffer \<Rightarrow> SharedMemoryManager \<Rightarrow> DomainSystem \<Rightarrow>
   (SharedMemoryManager \<times> DomainSystem \<times> (ShmError + 'a RRef)) option" where
  "pop_as_rref dec l b m s =
     Option.bind (sr_pop dec (l_size l) b m) (\<lambda>(m', res).
       case res of
         Inl e \<Rightarrow> Some (m', s, Inl e)
       | Inr v \<Rightarrow> map_option (\<lambda>(s', r). (m', s', Inr r)) (rref_new l (sr_consumer b) v s))"

definition sr_is_empty :: "SharedRingBuffer \<Rightarrow> SharedMemoryManager \<Rightarrow> bool" where
  "sr_is_empty b m =
     (case handle_slice (sr_handle b) m of None \<Rightarrow> True | Some mem \<Rightarrow> hdr_write_pos mem = hdr_read_pos mem)"

definition sr_is_full :: "SharedRingBuffer \<Rightarrow> SharedMemoryManager \<Rightarrow> bool" where
  "sr_is_full b m =
     (case handle_slice (sr_handle b) m of
        None \<Rightarrow> True | Some mem \<Rightarrow> wadd64 (hdr_write_pos mem) 1 mod sr_capacity b = hdr_read_pos mem)"

subsection \<open>Reading back from memory\<close>

lemma splice_length [simp]: "off + length d \<le> length mem \<Longrightarrow> length (splice off d mem) = length mem"
  by (simp add: splice_def)

lemma splice_same: "off + length d \<le> length mem \<Longrightarrow> n = length d \<Longrightarrow> take n (drop off (splice off d mem)) = d"
  by (simp add: splice_def)

lemma splice_nth:
  assumes "off + length d \<le> length mem" and "k < length mem"
  shows "splice off d mem ! k = (if off \<le> k \<and> k < off + length d then d ! (k - off) else mem ! k)"
  using assms by (auto simp: splice_def nth_append)

lemma splice_other:
  assumes "off + length d \<le> length mem" and "a + n \<le> off \<or> off + length d \<le> a" and "a + n \<le> length mem"
  shows "take n (drop a (splice off d mem)) = take n (drop a mem)"
  using assms by (intro nth_equalityI) (auto simp: splice_nth)

lemma of_le64 [simp]: "n < U64_MOD \<Longrightarrow> of_le64 (le64 n) = n"
  by (simp add: of_le_to_le U64_MOD_def del: to_le_Suc)

subsection \<open>The ring buffer is a queue\<close>

text \<open>What is assumed of the memory representation of the element type.\<close>

locale layout_codec =
  fixes enc :: "'a \<Rightarrow> u8 list"
    and dec :: "u8 list \<Rightarrow> 'a"
    and esize :: nat
  assumes enc_length: "length (enc v) = esize"
    and dec_enc: "dec (enc v) = v"

text \<open>The element in a cell, and the queue between the two positions.\<close>

definition elem_at :: "(u8 list \<Rightarrow> 'a) \<Rightarrow> usize \<Rightarrow> u8 list \<Rightarrow> nat \<Rightarrow> 'a" where
  "elem_at dec esize mem i = dec (take esize (drop (RING_HEADER + i * esize) mem))"

definition ring_count :: "usize \<Rightarrow> u8 list \<Rightarrow> nat" where
  "ring_count cap mem = (hdr_write_pos mem + cap - hdr_read_pos mem) mod cap"

definition ring_contents :: "(u8 list \<Rightarrow> 'a) \<Rightarrow> usize \<Rightarrow> usize \<Rightarrow> u8 list \<Rightarrow> 'a list" where
  "ring_contents dec esize cap mem =
     map (\<lambda>i. elem_at dec esize mem ((hdr_read_pos mem + i) mod cap)) [0..<ring_count cap mem]"

definition ring_ok :: "usize \<Rightarrow> usize \<Rightarrow> u8 list \<Rightarrow> bool" where
  "ring_ok esize cap mem = (0 < cap \<and> cap < U64_MOD \<and> RING_HEADER + cap * esize \<le> length mem \<and>
     hdr_write_pos mem < cap \<and> hdr_read_pos mem < cap)"

datatype 'a ring_op = RingPush 'a | RingPop

text \<open>The values a step on the region accepts and delivers.\<close>

fun ring_step ::
  "('a \<Rightarrow> u8 list) \<Rightarrow> (u8 list \<Rightarrow> 'a) \<Rightarrow> usize \<Rightarrow> usize \<Rightarrow> 'a ring_op \<Rightarrow> u8 list \<Rightarrow> u8 list \<times> 'a list \<times> 'a list" where
  "ring_step enc dec esize cap (RingPush v) mem =
     (case push_mem enc esize cap v mem of Some (mem', Inr _) \<Rightarrow> (mem', [v], []) | _ \<Rightarrow> (mem, [], []))"
| "ring_step enc dec esize cap RingPop mem =
     (case pop_mem dec esize cap mem of Some (mem', Inr v) \<Rightarrow> (mem', [], [v]) | _ \<Rightarrow> (mem, [], []))"

text \<open>Moving one position on changes the count by one.\<close>

lemma ring_diff: "w < cap \<Longrightarrow> r < cap \<Longrightarrow> (w + cap - r) mod cap = (if r \<le> w then w - r else w + cap - (r::nat))"
  by (simp add: mod_if)

lemma ring_next: "w < cap \<Longrightarrow> (w + 1) mod cap = (if w + 1 = cap then 0 else w + (1::nat))"
  by simp

lemma ring_add: "r < cap \<Longrightarrow> d < cap \<Longrightarrow> (r + d) mod cap = (if r + d < cap then r + d else r + d - (cap::nat))"
  by (simp add: mod_if)

lemma ring_count_push:
  fixes w r cap :: nat
  assumes "w < cap" and "r < cap" and "(w + 1) mod cap \<noteq> r"
  shows "((w + 1) mod cap + cap - r) mod cap = (w + cap - r) mod cap + 1"
    and "(r + (w + cap - r) mod cap) mod cap = w" and "(w + cap - r) mod cap + 1 < cap"
proof -
  have n: "(w + 1) mod cap < cap" using assms(1) by simp
  note N = ring_next [OF assms(1)] and D = ring_diff [OF assms(1,2)]
  show "((w + 1) mod cap + cap - r) mod cap = (w + cap - r) mod cap + 1"
    unfolding ring_diff [OF n assms(2)] D using assms unfolding N by (auto split: if_splits)
  show "(w + cap - r) mod cap + 1 < cap" unfolding D using assms unfolding N by (auto split: if_splits)
  have "(w + cap - r) mod cap < cap" using assms(1) by simp
  from ring_add [OF assms(2) this] show "(r + (w + cap - r) mod cap) mod cap = w"
    unfolding D using assms by (auto split: if_splits)
qed

lemma ring_count_pop:
  fixes w r cap :: nat
  assumes "w < cap" and "r < cap" and "r \<noteq> w"
  shows "(w + cap - (r + 1) mod cap) mod cap = (w + cap - r) mod cap - 1" and "0 < (w + cap - r) mod cap"
proof -
  have n: "(r + 1) mod cap < cap" using assms(1) by simp
  show "(w + cap - (r + 1) mod cap) mod cap = (w + cap - r) mod cap - 1"
    unfolding ring_diff [OF assms(1) n] ring_diff [OF assms(1,2)] using assms unfolding ring_next [OF assms(2)] by auto
  show "0 < (w + cap - r) mod cap" unfolding ring_diff [OF assms(1,2)] using assms by auto
qed

context layout_codec
begin

lemma push_Some:
  assumes ok: "ring_ok esize cap mem" and p: "push_mem enc esize cap v mem = Some (mem', Inr u)"
  shows "ring_ok esize cap mem'" and "ring_contents dec esize cap mem' = ring_contents dec esize cap mem @ [v]"
    and "length mem' = length mem"
proof -
  define w r n where "w = hdr_write_pos mem" and "r = hdr_read_pos mem" and "n = (w + 1) mod cap"
  have cap: "0 < cap" "cap < U64_MOD" "w < cap" "r < cap" and fit: "RING_HEADER + cap * esize \<le> length mem"
    using ok by (simp_all add: ring_ok_def w_def r_def)
  have wn: "wadd64 w 1 mod cap = n" using cap by (simp add: n_def wadd64_exact)
  have ne: "n \<noteq> r" and m': "mem' = splice 0 (le64 n) (splice (RING_HEADER + w * esize) (enc v) mem)"
    using p cap wn by (auto simp: push_mem_def Let_def w_def r_def split: if_splits)
  note C = ring_count_push [OF cap(3,4) ne [unfolded n_def], folded n_def]
  have cell: "i * esize + esize \<le> cap * esize" if "i < cap" for i
    using mult_le_mono1 [of "i + 1" cap esize] that by simp
  have f1: "RING_HEADER + w * esize + length (enc v) \<le> length mem" using cell [OF cap(3)] fit by (simp add: enc_length)
  then have f2: "0 + length (le64 n) \<le> length (splice (RING_HEADER + w * esize) (enc v) mem)" by (simp add: RING_HEADER_def)
  show len: "length mem' = length mem" using f1 f2 by (simp add: m')
  have hw: "hdr_write_pos mem' = n"
    using splice_same [OF f2, of 8] cap(1,2) mod_less_divisor [OF cap(1), of "w + 1"]
    by (simp add: m' hdr_write_pos_def n_def less_trans [OF _ cap(2)])
  have "take 8 (drop 8 mem') = take 8 (drop 8 (splice (RING_HEADER + w * esize) (enc v) mem))"
    unfolding m' using f1 by (intro splice_other [OF f2]) (simp_all add: RING_HEADER_def)
  also have "\<dots> = take 8 (drop 8 mem)"
    using f1 by (intro splice_other) (simp_all add: RING_HEADER_def)
  finally have hr: "hdr_read_pos mem' = r" by (simp add: hdr_read_pos_def r_def)
  have el: "elem_at dec esize mem' i = (if i = w then v else elem_at dec esize mem i)" if "i < cap" for i
  proof -
    have "RING_HEADER + i * esize + esize \<le> length mem" using cell [OF that] fit by simp
    then have a: "take esize (drop (RING_HEADER + i * esize) mem') =
        take esize (drop (RING_HEADER + i * esize) (splice (RING_HEADER + w * esize) (enc v) mem))"
      unfolding m' using f1 by (intro splice_other [OF f2]) (simp_all add: RING_HEADER_def)
    show ?thesis
    proof (cases "i = w")
      case True
      with a splice_same [OF f1, of esize] show ?thesis by (simp add: elem_at_def enc_length dec_enc)
    next
      case False
      then have "i * esize + esize \<le> w * esize \<or> w * esize + esize \<le> i * esize"
        using mult_le_mono1 [of "i + 1" w esize] mult_le_mono1 [of "w + 1" i esize] by (cases "i < w") simp_all
      with False splice_other [OF f1, of "RING_HEADER + i * esize" esize] \<open>RING_HEADER + i * esize + esize \<le> length mem\<close>
      show ?thesis by (simp add: elem_at_def a enc_length)
    qed
  qed
  have cnt: "ring_count cap mem' = ring_count cap mem + 1" using C(1) by (simp add: ring_count_def hw hr w_def r_def)
  show "ring_ok esize cap mem'" using cap fit by (simp add: ring_ok_def len hw hr n_def)
  have pos: "(r + i) mod cap \<noteq> w" if "i < ring_count cap mem" for i
  proof
    assume "(r + i) mod cap = w"
    with C(2) have "(r + i) mod cap = (r + ring_count cap mem) mod cap" by (simp add: ring_count_def w_def r_def)
    from mod_add_inj [OF this] that C(3) show False by (simp add: ring_count_def w_def r_def)
  qed
  have "map (\<lambda>i. elem_at dec esize mem' ((r + i) mod cap)) [0..<ring_count cap mem] = ring_contents dec esize cap mem"
    using pos cap(1) by (simp add: ring_contents_def r_def el)
  moreover have "elem_at dec esize mem' ((r + ring_count cap mem) mod cap) = v"
    using C(2) cap(1) el [OF cap(3)] by (simp add: ring_count_def w_def r_def)
  ultimately show "ring_contents dec esize cap mem' = ring_contents dec esize cap mem @ [v]"
    by (simp add: ring_contents_def [of _ _ _ mem'] cnt hr)
qed

lemma pop_Some:
  assumes ok: "ring_ok esize cap mem" and p: "pop_mem dec esize cap mem = Some (mem', Inr v)"
  shows "ring_ok esize cap mem'" and "ring_contents dec esize cap mem = v # ring_contents dec esize cap mem'"
    and "length mem' = length mem"
proof -
  define w r n where "w = hdr_write_pos mem" and "r = hdr_read_pos mem" and "n = (r + 1) mod cap"
  have cap: "0 < cap" "cap < U64_MOD" "w < cap" "r < cap" and fit: "RING_HEADER + cap * esize \<le> length mem"
    using ok by (simp_all add: ring_ok_def w_def r_def)
  have rn: "wadd64 r 1 mod cap = n" using cap by (simp add: n_def wadd64_exact)
  have ne: "r \<noteq> w" and m': "mem' = splice 8 (le64 n) mem" and v: "v = elem_at dec esize mem r"
    using p cap rn by (auto simp: pop_mem_def Let_def w_def r_def elem_at_def split: if_splits)
  note C = ring_count_pop [OF cap(3,4) ne, folded n_def]
  have f: "8 + length (le64 n) \<le> length mem" using fit by (simp add: RING_HEADER_def)
  show len: "length mem' = length mem" using f by (simp add: m')
  have hr: "hdr_read_pos mem' = n"
    using splice_same [OF f, of 8] cap(1,2) mod_less_divisor [OF cap(1), of "r + 1"]
    by (simp add: m' hdr_read_pos_def n_def less_trans [OF _ cap(2)])
  have hw: "hdr_write_pos mem' = w"
    using splice_other [OF f, of 0 8] f by (simp add: m' hdr_write_pos_def w_def)
  have el: "elem_at dec esize mem' i = elem_at dec esize mem i" if "i < cap" for i
  proof -
    have "i * esize + esize \<le> cap * esize" using mult_le_mono1 [of "i + 1" cap esize] that by simp
    then show ?thesis using splice_other [OF f, of "RING_HEADER + i * esize" esize] fit
      by (simp add: elem_at_def m' RING_HEADER_def)
  qed
  have cnt: "ring_count cap mem = Suc (ring_count cap mem')" using C by (simp add: ring_count_def hw hr w_def r_def)
  show "ring_ok esize cap mem'" using cap fit by (simp add: ring_ok_def len hw hr n_def)
  have "(n + i) mod cap = (r + Suc i) mod cap" for i by (simp add: n_def mod_simps)
  then have "ring_contents dec esize cap mem' = map (\<lambda>i. elem_at dec esize mem ((r + Suc i) mod cap)) [0..<ring_count cap mem']"
    using cap(1) by (simp add: ring_contents_def hr el)
  then show "ring_contents dec esize cap mem = v # ring_contents dec esize cap mem'"
    using cap(4) by (simp add: ring_contents_def [of _ _ _ mem] cnt upt_conv_Cons map_Suc_upt [symmetric] v
        r_def [symmetric] del: upt_Suc)
qed

end

sublocale layout_codec \<subseteq> shared_ring: fifo "ring_ok esize cap" "ring_contents dec esize cap" "\<lambda>_. cap - 1"
  "ring_step enc dec esize cap" for cap
proof unfold_locales
  fix mem mem' q ins outs
  assume ok: "ring_ok esize cap mem" and q: "ring_step enc dec esize cap q mem = (mem', ins, outs)"
  then show "ring_ok esize cap mem' \<and> outs @ ring_contents dec esize cap mem' = ring_contents dec esize cap mem @ ins \<and>
      cap - 1 = cap - 1"
    using push_Some [OF ok] pop_Some [OF ok]
    by (cases q) (auto split: option.splits prod.splits sum.splits)
next
  fix mem :: "u8 list"
  assume "ring_ok esize cap mem"
  then have "ring_count cap mem < cap" by (simp add: ring_count_def ring_ok_def)
  then show "length (ring_contents dec esize cap mem) \<le> cap - 1" by (simp add: ring_contents_def)
qed

context layout_codec
begin

lemmas region_prefix = shared_ring.run_prefix

end

definition enc_u64 :: "bits64 \<Rightarrow> u8 list" where "enc_u64 w = le64 (unat w)"
definition dec_u64 :: "u8 list \<Rightarrow> bits64" where "dec_u64 bs = word_of_nat (of_le64 bs)"

interpretation u64_codec: layout_codec enc_u64 dec_u64 8
proof unfold_locales
  fix v :: bits64
  have "unat v < U64_MOD" using unsigned_less [of v] by (simp add: U64_MOD_def)
  then show "dec_u64 (enc_u64 v) = v" by (simp add: enc_u64_def dec_u64_def)
qed (simp add: enc_u64_def)

subsection \<open>The manager keeps its indexes exact\<close>

text \<open>An index by key or name lists exactly the registered regions that have one.\<close>

definition idx_ok ::
  "u64 set \<Rightarrow> (u64 \<Rightarrow> SharedMemoryRegion option) \<Rightarrow> ('k \<Rightarrow> u64 option) \<Rightarrow> (SharedMemoryRegion \<Rightarrow> 'k option) \<Rightarrow> bool" where
  "idx_ok ids regs idx label = (\<forall>k i. idx k = Some i \<longleftrightarrow> i \<in> ids \<and> (\<exists>r. regs i = Some r \<and> label r = Some k))"

definition key_label :: "SharedMemoryRegion \<Rightarrow> int option" where
  "key_label r = (if rg_key r = IPC_PRIVATE then None else Some (rg_key r))"

lemma idx_add:
  assumes "idx_ok ids regs idx label" and "i \<notin> ids" and "\<And>k. label r = Some k \<Longrightarrow> idx k = None"
  shows "idx_ok (insert i ids) (regs(i \<mapsto> r)) (case label r of None \<Rightarrow> idx | Some k \<Rightarrow> idx(k \<mapsto> i)) label"
proof (cases "label r")
  case None
  with assms(1,2) show ?thesis unfolding idx_ok_def by auto
next
  case (Some k)
  with assms(3) have n: "idx k = None" by simp
  then have "\<not> (\<exists>j r. j \<in> ids \<and> regs j = Some r \<and> label r = Some k)"
    using assms(1) unfolding idx_ok_def by (metis option.distinct(1))
  with Some n assms(1,2) show ?thesis unfolding idx_ok_def by auto
qed

lemma idx_del:
  assumes "idx_ok ids regs idx label" and "i \<in> ids" and "regs i = Some r"
  shows "idx_ok (ids - {i}) regs (case label r of None \<Rightarrow> idx | Some k \<Rightarrow> idx(k := None)) label"
proof (cases "label r")
  case None
  with assms(1,3) show ?thesis unfolding idx_ok_def by auto
next
  case (Some k)
  with assms have i: "idx k = Some i" unfolding idx_ok_def by blast
  have "j = i" if "j \<in> ids" "regs j = Some q" "label q = Some k" for j q
  proof -
    from assms(1) that have "idx k = Some j" unfolding idx_ok_def by blast
    with i show ?thesis by simp
  qed
  with Some assms(1,3) show ?thesis unfolding idx_ok_def by auto
qed

lemma idx_upd:
  assumes "idx_ok ids regs idx label" and "\<And>r. label (f r) = label r"
  shows "idx_ok ids (regs(i := map_option f (regs i))) idx label"
  using assms unfolding idx_ok_def by auto

definition live_handles :: "ShmHandle list \<Rightarrow> u64 \<Rightarrow> nat" where
  "live_handles hs i = length (filter (\<lambda>h. h_region h = i \<and> h_attached h) hs)"

definition region_bytes :: "u64 set \<Rightarrow> (u64 \<Rightarrow> SharedMemoryRegion option) \<Rightarrow> nat" where
  "region_bytes ids regs = (\<Sum>i \<in> ids. case regs i of None \<Rightarrow> 0 | Some r \<Rightarrow> rg_size r)"

abbreviation sm_ids :: "SharedMemoryManager \<Rightarrow> u64 set" where
  "sm_ids m \<equiv> dom (bt_get (regions_by_id m))"

definition region_ok :: "SharedMemoryManager \<Rightarrow> u64 \<Rightarrow> SharedMemoryRegion \<Rightarrow> bool" where
  "region_ok m i r = (i < sm_next_id m \<and> length (memory r) = rg_size r \<and> rg_size r < U64_MOD \<and>
     attach_count r = live_handles (handles m) i mod U64_MOD)"

definition sm_inv :: "SharedMemoryManager \<Rightarrow> bool" where
  "sm_inv m = (bt_wf (regions_by_id m) \<and> bt_wf (regions_by_key m) \<and> bt_wf (regions_by_name m) \<and>
     (\<forall>i j. bt_get (regions_by_id m) i = Some j \<longrightarrow> j = i \<and> regions m i \<noteq> None) \<and>
     (\<forall>i r. regions m i = Some r \<longrightarrow> region_ok m i r) \<and>
     (\<forall>h \<in> set (handles m). regions m (h_region h) \<noteq> None) \<and>
     idx_ok (sm_ids m) (regions m) (bt_get (regions_by_key m)) key_label \<and>
     idx_ok (sm_ids m) (regions m) (bt_get (regions_by_name m)) rg_name \<and>
     sm_total_bytes m = region_bytes (sm_ids m) (regions m) mod U64_MOD)"

lemma sm_invD:
  assumes "sm_inv m"
  shows "bt_wf (regions_by_id m)" "bt_wf (regions_by_key m)" "bt_wf (regions_by_name m)"
    "bt_get (regions_by_id m) i = Some j \<Longrightarrow> j = i \<and> regions m i \<noteq> None"
    "regions m i = Some r \<Longrightarrow> region_ok m i r"
    "h \<in> set (handles m) \<Longrightarrow> regions m (h_region h) \<noteq> None"
    "idx_ok (sm_ids m) (regions m) (bt_get (regions_by_key m)) key_label"
    "idx_ok (sm_ids m) (regions m) (bt_get (regions_by_name m)) rg_name"
    "sm_total_bytes m = region_bytes (sm_ids m) (regions m) mod U64_MOD"
  using assms by (simp_all add: sm_inv_def)

lemma sm_invI:
  assumes "bt_wf (regions_by_id m)" "bt_wf (regions_by_key m)" "bt_wf (regions_by_name m)"
    "\<And>i j. bt_get (regions_by_id m) i = Some j \<Longrightarrow> j = i \<and> regions m i \<noteq> None"
    "\<And>i r. regions m i = Some r \<Longrightarrow> region_ok m i r"
    "\<And>h. h \<in> set (handles m) \<Longrightarrow> regions m (h_region h) \<noteq> None"
    "idx_ok (sm_ids m) (regions m) (bt_get (regions_by_key m)) key_label"
    "idx_ok (sm_ids m) (regions m) (bt_get (regions_by_name m)) rg_name"
    "sm_total_bytes m = region_bytes (sm_ids m) (regions m) mod U64_MOD"
  shows "sm_inv m"
  using assms by (simp add: sm_inv_def)

lemma bytes_add:
  assumes "finite ids" and "i \<notin> ids"
  shows "region_bytes (insert i ids) (regs(i \<mapsto> r)) = rg_size r + region_bytes ids regs"
proof -
  have "region_bytes ids (regs(i \<mapsto> r)) = region_bytes ids regs"
    unfolding region_bytes_def using assms(2) by (intro sum.cong) auto
  then show ?thesis using assms by (simp add: region_bytes_def)
qed

lemma bytes_del:
  "finite ids \<Longrightarrow> i \<in> ids \<Longrightarrow> regs i = Some r \<Longrightarrow> region_bytes ids regs = rg_size r + region_bytes (ids - {i}) regs"
  by (simp add: region_bytes_def sum.remove [of ids i])

lemma bytes_upd:
  assumes "\<And>r. rg_size (f r) = rg_size r"
  shows "region_bytes ids (regs(i := map_option f (regs i))) = region_bytes ids regs"
  unfolding region_bytes_def using assms by (intro sum.cong) (auto split: option.splits)

lemma sm_new_inv: "sm_inv sm_new"
  by (simp add: sm_inv_def sm_new_def idx_ok_def region_bytes_def)

lemma fresh_region:
  assumes "sm_inv m"
  shows "regions m (sm_next_id m) = None" and "bt_get (regions_by_id m) (sm_next_id m) = None"
    and "live_handles (handles m) (sm_next_id m) = 0"
proof -
  show n: "regions m (sm_next_id m) = None"
    using sm_invD(5) [OF assms, of "sm_next_id m"] by (cases "regions m (sm_next_id m)") (auto simp: region_ok_def)
  then show "bt_get (regions_by_id m) (sm_next_id m) = None"
    using sm_invD(4) [OF assms, of "sm_next_id m"] by (cases "bt_get (regions_by_id m) (sm_next_id m)") auto
  have "h_region h \<noteq> sm_next_id m" if "h \<in> set (handles m)" for h using sm_invD(6) [OF assms that] n by auto
  then show "live_handles (handles m) (sm_next_id m) = 0" by (simp add: live_handles_def filter_empty_conv)
qed

text \<open>Taking a number without using it, and registering a new region under the next number.\<close>

lemma sm_inv_skip:
  assumes "sm_inv m" and "sm_next_id m + 1 < U64_MOD"
  shows "sm_inv (m\<lparr>sm_next_id := wadd64 (sm_next_id m) 1\<rparr>)"
  using assms by (fastforce simp: sm_inv_def region_ok_def wadd64_exact)

lemma sm_inv_add:
  assumes inv: "sm_inv m" and fit: "sm_next_id m + 1 < U64_MOD"
    and i: "i = sm_next_id m"
    and r: "length (memory r) = rg_size r" "attach_count r = 0" "rg_size r < U64_MOD"
    and keys: "\<And>k. key_label r = Some k \<Longrightarrow> bt_get (regions_by_key m) k = None"
    and names: "\<And>k. rg_name r = Some k \<Longrightarrow> bt_get (regions_by_name m) k = None"
    and m': "sm_next_id m' = wadd64 i 1" "regions_by_id m' = bt_insert i i (regions_by_id m)" "regions m' = (regions m)(i \<mapsto> r)"
      "regions_by_key m' = (case key_label r of None \<Rightarrow> regions_by_key m | Some k \<Rightarrow> bt_insert k i (regions_by_key m))"
      "regions_by_name m' = (case rg_name r of None \<Rightarrow> regions_by_name m | Some k \<Rightarrow> bt_insert k i (regions_by_name m))"
      "sm_total_bytes m' = wadd64 (sm_total_bytes m) (rg_size r)" "handles m' = handles m"
  shows "sm_inv m'"
proof -
  note D = sm_invD [OF inv] and F = fresh_region [OF inv, folded i]
  have n: "wadd64 (sm_next_id m) (Suc 0) = sm_next_id m + 1" using fit by (simp add: wadd64_exact)
  have ids: "sm_ids m' = insert i (sm_ids m)" using D(1) by (simp add: m')
  have ni: "i \<notin> sm_ids m" using F(2) by (simp add: domIff)
  have fin: "finite (sm_ids m)" by (rule finite_dom_map_of)
  have bytes: "sm_total_bytes m' = region_bytes (sm_ids m') (regions m') mod U64_MOD"
    unfolding ids m'(3) bytes_add [OF fin ni] by (simp add: m'(6) D(9) wadd64_def mod_simps add.commute)
  show ?thesis
  proof (rule sm_invI)
    show "idx_ok (sm_ids m') (regions m') (bt_get (regions_by_key m')) key_label"
      using idx_add [where r = r, OF D(7) ni keys] D(2) unfolding ids m'(3,4) by (cases "key_label r") simp_all
    show "idx_ok (sm_ids m') (regions m') (bt_get (regions_by_name m')) rg_name"
      using idx_add [where r = r, OF D(8) ni names] D(3) unfolding ids m'(3,5) by (cases "rg_name r") simp_all
    show "bt_wf (regions_by_key m')" using D(2) by (cases "key_label r") (simp_all add: m'(4) wf_insert)
    show "bt_wf (regions_by_name m')" using D(3) by (cases "rg_name r") (simp_all add: m'(5) wf_insert)
    show "bt_wf (regions_by_id m')" using D(1) by (simp add: m'(2) wf_insert)
    show "region_ok m' j q" if "regions m' j = Some q" for j q
      using that D(5) [of j q] F(3) r i by (auto simp: region_ok_def m'(1,3,7) n split: if_splits)
    show "k = j \<and> regions m' j \<noteq> None" if "bt_get (regions_by_id m') j = Some k" for j k
      using that D(1) D(4) [of j k] by (auto simp: m'(2,3) split: if_splits)
    show "regions m' (h_region h) \<noteq> None" if "h \<in> set (handles m')" for h
      using that D(6) [of h] by (simp add: m'(3,7))
  qed (rule bytes)
qed

text \<open>Updates of a region that keep its labels, size and memory length.\<close>

lemma sm_inv_update:
  assumes inv: "sm_inv m" and f: "\<And>r. rg_key (f r) = rg_key r" "\<And>r. rg_name (f r) = rg_name r" "\<And>r. rg_size (f r) = rg_size r"
    and ok: "\<And>r. regions m i = Some r \<Longrightarrow> length (memory (f r)) = length (memory r)"
      "\<And>r. regions m i = Some r \<Longrightarrow> attach_count (f r) = live_handles hs i mod U64_MOD"
    and hs: "\<And>j. j \<noteq> i \<Longrightarrow> live_handles hs j = live_handles (handles m) j"
      "\<And>h. h \<in> set hs \<Longrightarrow> regions m (h_region h) \<noteq> None"
  shows "sm_inv ((update_region i f m)\<lparr>handles := hs\<rparr>)"
proof -
  note D = sm_invD [OF inv]
  let ?m = "(update_region i f m)\<lparr>handles := hs\<rparr>"
  have same: "regions_by_id ?m = regions_by_id m" "regions_by_key ?m = regions_by_key m"
    "regions_by_name ?m = regions_by_name m" "sm_total_bytes ?m = sm_total_bytes m" "sm_next_id ?m = sm_next_id m"
    "regions ?m = (regions m)(i := map_option f (regions m i))" by (simp_all add: update_region_def)
  have some: "regions ?m j = None \<longleftrightarrow> regions m j = None" for j by (simp add: same)
  have ids: "sm_ids ?m = sm_ids m" by (simp only: same)
  show ?thesis
  proof (rule sm_invI)
    show "bt_wf (regions_by_id ?m)" "bt_wf (regions_by_key ?m)" "bt_wf (regions_by_name ?m)"
      unfolding same by (rule D)+
    show "idx_ok (sm_ids ?m) (regions ?m) (bt_get (regions_by_key ?m)) key_label"
      unfolding same by (rule idx_upd [OF D(7)]) (simp add: key_label_def f)
    show "idx_ok (sm_ids ?m) (regions ?m) (bt_get (regions_by_name ?m)) rg_name"
      unfolding same by (rule idx_upd [OF D(8)]) (simp add: f)
    show "sm_total_bytes ?m = region_bytes (sm_ids ?m) (regions ?m) mod U64_MOD"
      unfolding same bytes_upd [OF f(3)] by (rule D(9))
    show "k = j \<and> regions ?m j \<noteq> None" if "bt_get (regions_by_id ?m) j = Some k" for j k
      using that D(4) [of j k] unfolding some same(1) by simp
    show "regions ?m (h_region h) \<noteq> None" if "h \<in> set (handles ?m)" for h
      using hs(2) [of h] that unfolding some by simp
    show "region_ok ?m j q" if "regions ?m j = Some q" for j q
    proof (cases "j = i")
      case True
      with that obtain r where r: "regions m i = Some r" "q = f r" by (auto simp: same(6))
      from D(5) [OF r(1)] ok(1) [OF r(1)] ok(2) [OF r(1)] show ?thesis
        unfolding region_ok_def same(5) by (simp add: True r(2) f(3))
    next
      case False
      with that D(5) [of j q] hs(1) [of j] show ?thesis unfolding region_ok_def same(5,6) by simp
    qed
  qed
qed

lemma sm_inv_mark: "sm_inv m \<Longrightarrow> sm_inv (update_region i mark_for_removal m)"
proof -
  assume inv: "sm_inv m"
  have "sm_inv ((update_region i mark_for_removal m)\<lparr>handles := handles m\<rparr>)"
    by (rule sm_inv_update [OF inv])
      (use sm_invD(5,6) [OF inv] in \<open>auto simp: mark_for_removal_def attach_count_def region_ok_def\<close>)
  then show ?thesis by (simp add: update_region_def)
qed

lemma sm_inv_store:
  assumes inv: "sm_inv m" and "handle_slice h m = Some mem" and "length mem' = length mem"
  shows "sm_inv (store_slice h mem' m)"
proof -
  let ?i = "h_region (handles m ! h)"
  from assms(2) obtain r where r: "regions m ?i = Some r" "memory r = mem"
    by (auto simp: handle_slice_def split: if_splits)
  have "sm_inv ((update_region ?i (\<lambda>r. r\<lparr>memory := mem'\<rparr>) m)\<lparr>handles := handles m\<rparr>)"
    by (rule sm_inv_update [OF inv])
      (use sm_invD(5,6) [OF inv] r assms(3) in \<open>auto simp: attach_count_def region_ok_def\<close>)
  then show ?thesis by (simp add: store_slice_def update_region_def)
qed

lemma sm_inv_attach:
  assumes inv: "sm_inv m"
  shows "sm_inv (fst (sm_attach i m))"
proof (cases "bt_get (regions_by_id m) i")
  case None
  with inv show ?thesis by (simp add: sm_attach_def)
next
  case (Some j)
  with sm_invD(4) [OF inv, of i j] have j: "j = i" "regions m i \<noteq> None" by simp_all
  have "sm_inv ((update_region i region_attach m)\<lparr>handles := handles m @ [\<lparr>h_region = i, h_attached = True\<rparr>]\<rparr>)"
  proof (rule sm_inv_update [OF inv])
    fix r assume "regions m i = Some r"
    from sm_invD(5) [OF inv this] show "attach_count (region_attach r) =
        live_handles (handles m @ [\<lparr>h_region = i, h_attached = True\<rparr>]) i mod U64_MOD"
      by (simp add: region_ok_def attach_count_def region_attach_def Let_def live_handles_def wadd64_def mod_simps)
  qed (use j sm_invD(6) [OF inv] in \<open>auto simp: region_attach_def Let_def live_handles_def\<close>)
  with Some j show ?thesis by (simp add: sm_attach_def)
qed

lemma live_detach:
  assumes "h < length hs" and "h_attached (hs ! h)"
  shows "live_handles (hs[h := (hs ! h)\<lparr>h_attached := False\<rparr>]) i =
    live_handles hs i - (if h_region (hs ! h) = i then 1 else 0)"
    and "h_region (hs ! h) = i \<Longrightarrow> 0 < live_handles hs i"
proof -
  have s: "hs = take h hs @ (hs ! h) # drop (Suc h) hs" using assms(1) by (rule id_take_nth_drop)
  have u: "hs[h := x] = take h hs @ x # drop (Suc h) hs" for x using assms(1) by (rule upd_conv_take_nth_drop)
  have l: "live_handles (xs @ y # ys) i = live_handles xs i + (if h_region y = i \<and> h_attached y then 1 else 0) + live_handles ys i"
    for xs ys y by (simp add: live_handles_def)
  have a: "live_handles hs i = live_handles (take h hs) i + (if h_region (hs ! h) = i then 1 else 0) + live_handles (drop (Suc h) hs) i"
    by (subst s, subst l) (simp add: assms(2))
  then show "live_handles (hs[h := (hs ! h)\<lparr>h_attached := False\<rparr>]) i =
    live_handles hs i - (if h_region (hs ! h) = i then 1 else 0)" unfolding u l by simp
  show "h_region (hs ! h) = i \<Longrightarrow> 0 < live_handles hs i" unfolding a by simp
qed

lemma wsub64_alt:
  assumes "b < U64_MOD"
  shows "wsub64 (a mod U64_MOD) b = (a + (U64_MOD - b)) mod U64_MOD"
proof -
  have "a mod U64_MOD + U64_MOD - b = a mod U64_MOD + (U64_MOD - b)" using assms by simp
  then show ?thesis unfolding wsub64_def by (simp only: mod_add_left_eq)
qed

lemma wsub64_mod_cancel:
  assumes "a < U64_MOD"
  shows "wsub64 ((a + b) mod U64_MOD) a = b mod U64_MOD"
proof -
  have "a + b + (U64_MOD - a) = b + U64_MOD" using assms by simp
  then show ?thesis by (simp add: wsub64_alt [OF assms])
qed

lemma wadd64_no_wrap:
  assumes "a < U64_MOD" and "b < U64_MOD" and "\<not> wadd64 a b < a"
  shows "wadd64 a b = a + b"
  using assms by (auto simp: wadd64_def mod_if split: if_splits)

lemma wsub64_pred:
  assumes "0 < n"
  shows "wsub64 (n mod U64_MOD) 1 = (n - 1) mod U64_MOD"
proof -
  have "wsub64 (n mod U64_MOD) 1 = (n + (U64_MOD - 1)) mod U64_MOD" by (rule wsub64_alt) (simp add: U64_MOD_def)
  also have "n + (U64_MOD - 1) = n - 1 + U64_MOD" using assms U64_MOD_pos by linarith
  finally show ?thesis by simp
qed

lemma sm_inv_detach:
  assumes inv: "sm_inv m" and h: "h < length (handles m)"
  shows "sm_inv (fst (handle_detach h m))"
proof (cases "h_attached (handles m ! h)")
  case False
  with inv show ?thesis by (simp add: handle_detach_def)
next
  case True
  let ?i = "h_region (handles m ! h)" and ?hs = "(handles m)[h := (handles m ! h)\<lparr>h_attached := False\<rparr>]"
  note L = live_detach [OF h True]
  have "sm_inv ((update_region ?i (\<lambda>r. fst (region_detach r)) m)\<lparr>handles := ?hs\<rparr>)"
  proof (rule sm_inv_update [OF inv])
    fix r assume "regions m ?i = Some r"
    from sm_invD(5) [OF inv this] wsub64_pred [OF L(2) [of ?i]]
    show "attach_count (fst (region_detach r)) = live_handles ?hs ?i mod U64_MOD"
      by (simp add: region_ok_def attach_count_def region_detach_def Let_def L(1))
  next
    fix g assume "g \<in> set ?hs"
    then consider "g \<in> set (handles m)" | "g = (handles m ! h)\<lparr>h_attached := False\<rparr>"
      using set_update_subset_insert [of "handles m" h] by blast
    then show "regions m (h_region g) \<noteq> None"
      using sm_invD(6) [OF inv, of g] sm_invD(6) [OF inv, of "handles m ! h"] h by cases simp_all
  qed (simp_all add: region_detach_def Let_def L(1))
  moreover have "fst (handle_detach h m) = (update_region ?i (\<lambda>r. fst (region_detach r)) m)\<lparr>handles := ?hs\<rparr>"
    using True by (cases m) (simp add: handle_detach_def update_region_def)
  ultimately show ?thesis by simp
qed

lemma sm_inv_do_remove:
  assumes inv: "sm_inv m" and i: "bt_get (regions_by_id m) i \<noteq> None" and r: "regions m i = Some r"
  shows "sm_inv (do_remove i r m)"
proof -
  note D = sm_invD [OF inv]
  let ?m = "do_remove i r m"
  have m': "regions ?m = regions m" "handles ?m = handles m" "sm_next_id ?m = sm_next_id m"
    "regions_by_id ?m = bt_remove i (regions_by_id m)" "sm_total_bytes ?m = wsub64 (sm_total_bytes m) (rg_size r)"
    "regions_by_key ?m = (case key_label r of None \<Rightarrow> regions_by_key m | Some k \<Rightarrow> bt_remove k (regions_by_key m))"
    "regions_by_name ?m = (case rg_name r of None \<Rightarrow> regions_by_name m | Some k \<Rightarrow> bt_remove k (regions_by_name m))"
    by (auto simp: do_remove_def Let_def key_label_def split: option.splits)
  have ids: "sm_ids ?m = sm_ids m - {i}" using D(1) by (simp add: m')
  have mem: "i \<in> sm_ids m" using i by auto
  have fin: "finite (sm_ids m)" by (rule finite_dom_map_of)
  let ?b = "region_bytes (sm_ids m - {i}) (regions m)"
  have bytes: "sm_total_bytes ?m = ?b mod U64_MOD"
  proof -
    have "sm_total_bytes ?m = wsub64 ((rg_size r + ?b) mod U64_MOD) (rg_size r)"
      by (simp add: m'(5) D(9) bytes_del [where regs = "regions m", OF fin mem r])
    also have "\<dots> = ?b mod U64_MOD" 
      by (rule wsub64_mod_cancel) (use D(5) [OF r] in \<open>simp add: region_ok_def\<close>)
    finally show ?thesis .
  qed
  show ?thesis
  proof (rule sm_invI)
    show "idx_ok (sm_ids ?m) (regions ?m) (bt_get (regions_by_key ?m)) key_label"
      using idx_del [OF D(7) mem r] D(2) unfolding ids m'(1,6) by (cases "key_label r") simp_all
    show "idx_ok (sm_ids ?m) (regions ?m) (bt_get (regions_by_name ?m)) rg_name"
      using idx_del [OF D(8) mem r] D(3) unfolding ids m'(1,7) by (cases "rg_name r") simp_all
    show "bt_wf (regions_by_key ?m)" using D(2) by (cases "key_label r") (simp_all add: m'(6) wf_remove)
    show "bt_wf (regions_by_name ?m)" using D(3) by (cases "rg_name r") (simp_all add: m'(7) wf_remove)
    show "bt_wf (regions_by_id ?m)" using D(1) by (simp add: m'(4) wf_remove)
    show "region_ok ?m j q" if "regions ?m j = Some q" for j q
      using that D(5) [of j q] by (simp add: region_ok_def m'(1-3))
    show "k = j \<and> regions ?m j \<noteq> None" if "bt_get (regions_by_id ?m) j = Some k" for j k
      using that D(1) D(4) [of j k] by (simp add: m'(1,4) split: if_splits)
    show "regions ?m (h_region h) \<noteq> None" if "h \<in> set (handles ?m)" for h
      using that D(6) [of h] by (simp add: m'(1,2))
    show "sm_total_bytes ?m = region_bytes (sm_ids ?m) (regions ?m) mod U64_MOD" using bytes by (simp add: ids m'(1))
  qed
qed

lemma sm_inv_remove:
  assumes "sm_inv m"
  shows "sm_inv (fst (sm_remove i m))"
proof (cases "bt_get (regions_by_id m) i")
  case None
  with assms show ?thesis by (simp add: sm_remove_def)
next
  case (Some j)
  with sm_invD(4) [OF assms, of i j] obtain r where j: "j = i" "regions m i = Some r" by auto
  note inv = sm_inv_mark [OF assms, of i]
  have "regions (update_region i mark_for_removal m) i = Some (mark_for_removal r)" by (simp add: update_region_def j(2))
  moreover have "bt_get (regions_by_id (update_region i mark_for_removal m)) i \<noteq> None" using Some by (simp add: update_region_def)
  ultimately show ?thesis using Some j inv sm_inv_do_remove [OF inv]
    by (simp add: sm_remove_def Let_def)
qed

lemma page_aligned_less: "page_aligned n < U64_MOD"
proof -
  have "page_aligned n \<le> wsub64 (wadd64 n SHM_PAGE_SIZE) 1" unfolding page_aligned_def by (rule div_times_less_eq_dividend)
  then show ?thesis using wsub64_less by (rule le_less_trans)
qed

lemma region_new_cases:
  assumes "region_new can i key n perms flags = Inr r"
  shows "length (memory r) = rg_size r" "attach_count r = 0" "rg_key r = key" "rg_name r = None"
    "rg_size r < U64_MOD"
  using assms page_aligned_less [of n] by (auto simp: region_new_def Let_def attach_count_def shm_stats_new_def split: if_splits)

lemma with_name_cases:
  assumes "with_name can i nm n perms flags = Inr r"
  shows "length (memory r) = rg_size r" "attach_count r = 0" "rg_key r = IPC_PRIVATE" "rg_name r = Some nm"
    "rg_size r < U64_MOD"
proof -
  obtain q where "region_new can i IPC_PRIVATE n perms flags = Inr q" and q: "r = q\<lparr>rg_name := Some nm\<rparr>"
    using assms by (cases "region_new can i IPC_PRIVATE n perms flags") (auto simp: with_name_def)
  from region_new_cases [OF this(1)] show "length (memory r) = rg_size r" "attach_count r = 0"
    "rg_key r = IPC_PRIVATE" "rg_name r = Some nm" "rg_size r < U64_MOD" by (simp_all add: q attach_count_def)
qed

lemma sm_inv_create:
  assumes inv: "sm_inv m" and fit: "sm_next_id m + 1 < U64_MOD"
  shows "sm_inv (fst (sm_create can key n perms flags m))"
proof (cases "(if key \<noteq> IPC_PRIVATE then bt_get (regions_by_key m) key else None)")
  case (Some i)
  with inv show ?thesis by (simp add: sm_create_def)
next
  case None
  show ?thesis
  proof (cases "region_new can (sm_next_id m) key n perms flags")
    case (Inl e)
    with None sm_inv_skip [OF inv fit] show ?thesis by (auto simp: sm_create_def sm_generate_id_def)
  next
    case (Inr r)
    note R = region_new_cases [OF Inr]
    show ?thesis
      by (rule sm_inv_add [OF inv fit refl R(1,2,5)])
        (use None Inr R in \<open>auto simp: sm_create_def sm_generate_id_def Let_def key_label_def split: if_splits\<close>)
  qed
qed

lemma sm_inv_create_named:
  assumes inv: "sm_inv m" and fit: "sm_next_id m + 1 < U64_MOD"
  shows "sm_inv (fst (sm_create_named can nm n perms flags m))"
proof (cases "bt_get (regions_by_name m) nm")
  case (Some i)
  with inv show ?thesis by (simp add: sm_create_named_def)
next
  case None
  show ?thesis
  proof (cases "with_name can (sm_next_id m) nm n perms flags")
    case (Inl e)
    with None sm_inv_skip [OF inv fit] show ?thesis by (simp add: sm_create_named_def sm_generate_id_def)
  next
    case (Inr r)
    note R = with_name_cases [OF Inr]
    show ?thesis
      by (rule sm_inv_add [OF inv fit refl R(1,2,5)])
        (use None Inr R in \<open>simp_all add: sm_create_named_def sm_generate_id_def Let_def key_label_def\<close>)
  qed
qed

subsection \<open>Runs of the manager\<close>

datatype sm_op = SmGet int usize ShmFlags | SmOpen string usize ShmFlags | SmUnlink string | SmRemove u64
  | SmAttach u64 | SmDetach nat | SmDrop nat | SmWrite nat usize "u8 list"

text \<open>A handle that was never made cannot be used.\<close>

fun sm_step :: "(usize \<Rightarrow> bool) \<Rightarrow> sm_op \<Rightarrow> SharedMemoryManager \<Rightarrow> SharedMemoryManager" where
  "sm_step can (SmGet key n flags) m = fst (shmget can key n flags m)"
| "sm_step can (SmOpen nm n flags) m = fst (shm_open can nm n flags m)"
| "sm_step can (SmUnlink nm) m = fst (shm_unlink nm m)"
| "sm_step can (SmRemove i) m = fst (sm_remove i m)"
| "sm_step can (SmAttach i) m = fst (sm_attach i m)"
| "sm_step can (SmDetach h) m = (if h < length (handles m) then fst (handle_detach h m) else m)"
| "sm_step can (SmDrop h) m = (if h < length (handles m) then handle_drop h m else m)"
| "sm_step can (SmWrite h off dat) m =
     (if h < length (handles m) then case write_at h off dat m of None \<Rightarrow> m | Some (m', _) \<Rightarrow> m' else m)"

text \<open>Offsets and buffer lengths are machine words.\<close>

fun sm_fits :: "sm_op \<Rightarrow> bool" where
  "sm_fits (SmWrite _ off dat) = (off < U64_MOD \<and> length dat < U64_MOD)"
| "sm_fits _ = True"

inductive sm_reach :: "(usize \<Rightarrow> bool) \<Rightarrow> SharedMemoryManager \<Rightarrow> bool" for can where
  fresh: "sm_reach can sm_new"
| step: "sm_reach can m \<Longrightarrow> sm_next_id m + 1 < U64_MOD \<Longrightarrow> sm_fits q \<Longrightarrow> sm_reach can (sm_step can q m)"

lemma sm_inv_write:
  assumes "sm_inv m" and "write_at h off dat m = Some (m', res)" and "off < U64_MOD" and "length dat < U64_MOD"
  shows "sm_inv m'"
proof -
  consider "m' = m" | mem where "handle_slice h m = Some mem" "m' = store_slice h (splice off dat mem) m"
      "off + length dat \<le> length mem"
    using assms(2) wadd64_no_wrap [OF assms(3,4)] by (auto simp: write_at_def split: option.splits if_splits)
  then show ?thesis using assms(1) sm_inv_store [OF assms(1)] by cases simp_all
qed

lemma sm_inv_step: "sm_inv m \<Longrightarrow> sm_next_id m + 1 < U64_MOD \<Longrightarrow> sm_fits q \<Longrightarrow> sm_inv (sm_step can q m)"
  by (cases q) (auto simp: shmget_def shm_open_def shm_unlink_def handle_drop_def sm_inv_create sm_inv_create_named
      sm_inv_remove sm_inv_attach sm_inv_detach sm_inv_write split: option.splits prod.splits)

lemma sm_inv_reach: "sm_reach can m \<Longrightarrow> sm_inv m"
  by (induction rule: sm_reach.induct) (simp_all add: sm_new_inv sm_inv_step)

subsection \<open>Two parties on one ring\<close>

text \<open>A producer pushes through its own handle and a consumer pops through another one.\<close>

fun sr_step ::
  "('a \<Rightarrow> u8 list) \<Rightarrow> (u8 list \<Rightarrow> 'a) \<Rightarrow> usize \<Rightarrow> SharedRingBuffer \<Rightarrow> SharedRingBuffer \<Rightarrow> 'a ring_op \<Rightarrow> SharedMemoryManager \<Rightarrow>
   SharedMemoryManager \<times> 'a list \<times> 'a list" where
  "sr_step enc dec esize b c (RingPush v) m =
     (case sr_push enc esize b v m of Some (m', Inr _) \<Rightarrow> (m', [v], []) | Some (m', Inl _) \<Rightarrow> (m', [], []) | None \<Rightarrow> (m, [], []))"
| "sr_step enc dec esize b c RingPop m =
     (case sr_pop dec esize c m of Some (m', Inr v) \<Rightarrow> (m', [], [v]) | Some (m', Inl _) \<Rightarrow> (m', [], []) | None \<Rightarrow> (m, [], []))"

definition share_ring :: "usize \<Rightarrow> SharedRingBuffer \<Rightarrow> SharedRingBuffer \<Rightarrow> SharedMemoryManager \<Rightarrow> u8 list \<Rightarrow> bool" where
  "share_ring cap b c m mem =
     (handle_slice (sr_handle b) m = Some mem \<and> handle_slice (sr_handle c) m = Some mem \<and>
      h_region (handles m ! sr_handle b) = h_region (handles m ! sr_handle c) \<and> sr_capacity b = cap \<and> sr_capacity c = cap)"

lemma handle_slice_store:
  assumes "handle_slice h m = Some mem" and "h_region (handles m ! g) = h_region (handles m ! h)" and "handle_slice g m = Some mem"
  shows "handle_slice g (store_slice h mem' m) = Some mem'"
  using assms by (auto simp: handle_slice_def store_slice_def update_region_def split: if_splits)

lemma handles_store [simp]: "handles (store_slice h mem m) = handles m"
  by (simp add: store_slice_def update_region_def)

lemma store_share:
  assumes "share_ring cap b c m mem"
  shows "share_ring cap b c (store_slice (sr_handle b) mem' m) mem'" "share_ring cap b c (store_slice (sr_handle c) mem' m) mem'"
  using assms handle_slice_store [of "sr_handle b" m mem] handle_slice_store [of "sr_handle c" m mem]
  by (simp_all add: share_ring_def)

lemma push_mem_fail: "push_mem enc esize cap v mem = Some (mem', Inl e) \<Longrightarrow> mem' = mem"
  by (simp add: push_mem_def Let_def split: if_splits)

lemma pop_mem_fail: "pop_mem dec esize cap mem = Some (mem', Inl e) \<Longrightarrow> mem' = mem"
  by (simp add: pop_mem_def Let_def split: if_splits)

lemma sr_step_mem:
  assumes "share_ring cap b c m mem" and "ring_step enc dec esize cap q mem = (mem', ins, outs)"
  shows "\<exists>m'. sr_step enc dec esize b c q m = (m', ins, outs) \<and> share_ring cap b c m' mem'"
proof (cases q)
  case (RingPush v)
  with assms store_share [OF assms(1)] show ?thesis
    by (auto simp: sr_push_def share_ring_def dest: push_mem_fail split: option.splits prod.splits sum.splits)
next
  case RingPop
  with assms store_share [OF assms(1)] show ?thesis
    by (auto simp: sr_pop_def share_ring_def dest: pop_mem_fail split: option.splits prod.splits sum.splits)
qed

lemma sr_run_mem:
  assumes "share_ring cap b c m mem" and "fifo_run (ring_step enc dec esize cap) qs mem = (mem', ins, outs)"
  shows "\<exists>m'. fifo_run (sr_step enc dec esize b c) qs m = (m', ins, outs) \<and> share_ring cap b c m' mem'"
  using assms
proof (induction qs arbitrary: m mem mem' ins outs)
  case (Cons q qs)
  obtain mem1 i1 o1 where q: "ring_step enc dec esize cap q mem = (mem1, i1, o1)" by (rule prod_cases3)
  obtain mem2 i2 o2 where r: "fifo_run (ring_step enc dec esize cap) qs mem1 = (mem2, i2, o2)" by (rule prod_cases3)
  from sr_step_mem [OF Cons.prems(1) q] obtain m1
    where m1: "sr_step enc dec esize b c q m = (m1, i1, o1)" "share_ring cap b c m1 mem1" by blast
  from Cons.IH [OF m1(2) r] Cons.prems(2) q r m1(1) show ?case by auto
qed simp

text \<open>What a successful creation leaves behind.\<close>

lemma page_aligned_ge:
  assumes "n + SHM_PAGE_SIZE \<le> U64_MOD"
  shows "n \<le> page_aligned n"
proof -
  have "wsub64 (wadd64 n SHM_PAGE_SIZE) 1 = n + 4095"
    using assms wsub64_pred [of "n + 4096"] by (simp add: wadd64_def SHM_PAGE_SIZE_def)
  then show ?thesis using div_mult_mod_eq [of "n + 4095" 4096] mod_less_divisor [of 4096 "n + 4095"]
    by (simp add: page_aligned_def SHM_PAGE_SIZE_def)
qed

lemma create_named_new:
  assumes inv: "sm_inv m" and ex: "fl_exclusive flags" and c: "sm_create_named can nm n perms flags m = (m', Inr i)"
  shows "bt_get (regions_by_id m') i = Some i" and "bt_get (regions_by_name m') nm = Some i" and "handles m' = handles m"
    and "\<exists>r. regions m' i = Some r \<and> memory r = replicate (page_aligned n) 0"
  using c ex sm_invD(1,3) [OF inv]
  by (auto simp: sm_create_named_def sm_generate_id_def with_name_def region_new_def Let_def split: option.splits if_splits)

lemma create_named_succeeds:
  assumes "get_by_name nm m = None" and "can (page_aligned n)"
  shows "sm_create_named can nm n perms flags m = (fst (sm_create_named can nm n perms flags m), Inr (sm_next_id m))"
  using assms by (simp add: get_by_name_def sm_create_named_def sm_generate_id_def with_name_def region_new_def Let_def)

lemma attach_known:
  assumes "bt_get (regions_by_id m) i = Some i" and "regions m i = Some r"
  obtains m' where "sm_attach i m = (m', Inr (length (handles m)))" and "handle_slice (length (handles m)) m' = Some (memory r)"
    and "regions_by_id m' = regions_by_id m" and "regions_by_name m' = regions_by_name m"
    and "regions m' i = Some (region_attach r)" and "handles m' = handles m @ [\<lparr>h_region = i, h_attached = True\<rparr>]"
  using that assms by (simp add: sm_attach_def handle_slice_def update_region_def region_attach_def Let_def)

lemma store_slice_simps [simp]:
  "regions_by_id (store_slice h mem m) = regions_by_id m" "regions_by_name (store_slice h mem m) = regions_by_name m"
  by (simp_all add: store_slice_def update_region_def)

lemma ring_header_ok:
  assumes "0 < cap" and "cap < U64_MOD" and "RING_HEADER + cap * esize \<le> length mem"
  defines "mem' \<equiv> splice 0 (le64 0 @ le64 0 @ le64 cap @ le64 esize) mem"
  shows "ring_ok esize cap mem'" and "ring_contents dec esize cap mem' = []" and "hdr_capacity mem' = cap"
proof -
  have l: "length mem' = length mem" using assms(3) by (simp add: mem'_def RING_HEADER_def)
  have z: "of_le64 (le64 0) = 0" by (simp add: U64_MOD_def)
  have h: "hdr_write_pos mem' = 0" "hdr_read_pos mem' = 0" "hdr_capacity mem' = cap"
    using assms(2) z by (simp_all add: mem'_def splice_def hdr_write_pos_def hdr_read_pos_def hdr_capacity_def)
  show "ring_ok esize cap mem'" "ring_contents dec esize cap mem' = []" "hdr_capacity mem' = cap"
    using assms(1-3) l h by (simp_all add: ring_ok_def ring_contents_def ring_count_def)
qed

lemma sr_create_ok:
  assumes inv: "sm_inv m" and c: "sr_create can esize nm cap pd cs m = (m', Inr b)"
    and cap: "0 < cap" "cap < U64_MOD" "RING_HEADER + cap * esize + SHM_PAGE_SIZE \<le> U64_MOD"
  obtains i mem where "handle_slice (sr_handle b) m' = Some mem" "ring_ok esize cap mem" "ring_contents dec esize cap mem = []"
    "hdr_capacity mem = cap" "sr_capacity b = cap" "bt_get (regions_by_id m') i = Some i" "get_by_name nm m' = Some i"
    "h_region (handles m' ! sr_handle b) = i" "sr_handle b < length (handles m')"
proof -
  let ?n = "RING_HEADER + cap * esize" and ?fl = "shm_flags_default\<lparr>fl_create := True, fl_exclusive := True\<rparr>"
  have n: "wadd64 RING_HEADER ((cap * esize) mod U64_MOD) = ?n"
    using cap(3) by (simp add: wadd64_def SHM_PAGE_SIZE_def)
  obtain m1 i where m1: "sm_create_named can nm ?n shm_permissions_default ?fl m = (m1, Inr i)"
    using c unfolding sr_create_def n by (auto simp: shm_open_def Let_def split: prod.splits sum.splits)
  have "fl_exclusive ?fl" by simp
  note C = create_named_new [OF inv this m1]
  from C(4) obtain r where r: "regions m1 i = Some r" "memory r = replicate (page_aligned ?n) 0" by blast
  from attach_known [OF C(1) r(1)] obtain m2 where m2: "sm_attach i m1 = (m2, Inr (length (handles m1)))"
    "handle_slice (length (handles m1)) m2 = Some (memory r)" "regions_by_id m2 = regions_by_id m1"
    "regions_by_name m2 = regions_by_name m1" "handles m2 = handles m1 @ [\<lparr>h_region = i, h_attached = True\<rparr>]" by metis
  let ?mem = "splice 0 (le64 0 @ le64 0 @ le64 cap @ le64 esize) (memory r)"
  have fit: "?n \<le> length (memory r)" using page_aligned_ge [OF cap(3)] by (simp add: r(2))
  have e: "m' = store_slice (length (handles m1)) ?mem m2" "sr_handle b = length (handles m1)" "sr_capacity b = cap"
    using c m1 m2 unfolding sr_create_def n by (auto simp: shm_open_def Let_def)
  show thesis
    by (rule that [OF _ ring_header_ok(1) [OF cap(1,2) fit] ring_header_ok(2) [OF cap(1,2) fit] ring_header_ok(3) [OF cap(1,2) fit]])
      (use C m2 handle_slice_store [OF m2(2) refl m2(2)] in \<open>simp_all add: e get_by_name_def\<close>)
qed

lemma handle_slice_attach:
  assumes "handle_slice h m = Some mem" and "h < length (handles m)"
  shows "handle_slice h (fst (sm_attach i m)) = Some mem"
  using assms by (auto simp: handle_slice_def sm_attach_def update_region_def region_attach_def Let_def nth_append split: option.splits if_splits)

lemma sr_open_shares:
  assumes inv: "sm_inv m" and c: "sr_create can esize nm cap pd cs m = (m1, Inr b)" and o: "sr_open nm pd cs m1 = (m2, Inr c)"
    and cap: "0 < cap" "cap < U64_MOD" "RING_HEADER + cap * esize + SHM_PAGE_SIZE \<le> U64_MOD"
  obtains mem where "share_ring cap b c m2 mem" "ring_ok esize cap mem" "ring_contents dec esize cap mem = []"
proof -
  obtain i mem where
    B: "handle_slice (sr_handle b) m1 = Some mem" "ring_ok esize cap mem" "ring_contents dec esize cap mem = []"
    "hdr_capacity mem = cap" "sr_capacity b = cap" "bt_get (regions_by_id m1) i = Some i" "get_by_name nm m1 = Some i"
    "h_region (handles m1 ! sr_handle b) = i" "sr_handle b < length (handles m1)"
    using sr_create_ok [OF inv c cap] by metis
  from B(1,8) obtain r where r: "regions m1 i = Some r" "memory r = mem" by (auto simp: handle_slice_def split: if_splits)
  from attach_known [OF B(6) r(1)] obtain m3 where
    A: "sm_attach i m1 = (m3, Inr (length (handles m1)))" "handle_slice (length (handles m1)) m3 = Some (memory r)"
    "handles m3 = handles m1 @ [\<lparr>h_region = i, h_attached = True\<rparr>]" by metis
  have C: "m2 = m3" "sr_handle c = length (handles m1)" "sr_capacity c = cap" using o A B(4,7) r(2) by (auto simp: sr_open_def)
  have "share_ring cap b c m2 mem"
    using handle_slice_attach [OF B(1,9), of i] A B C r(2) by (simp add: share_ring_def nth_append)
  then show thesis using B(2,3) by (rule that)
qed

text \<open>A free name and enough memory are all that setting up both ends of a ring needs.\<close>

lemma sr_setup_succeeds:
  assumes inv: "sm_inv m" and nm: "get_by_name nm m = None"
    and can: "can (page_aligned (wadd64 RING_HEADER ((cap * esize) mod U64_MOD)))"
  shows "\<exists>m1 b m2 c. sr_create can esize nm cap pd cs m = (m1, Inr b) \<and> sr_open nm pd cs m1 = (m2, Inr c)"
proof -
  let ?fl = "shm_flags_default\<lparr>fl_create := True, fl_exclusive := True\<rparr>" and ?i = "sm_next_id m"
  let ?n = "wadd64 RING_HEADER ((cap * esize) mod U64_MOD)"
  obtain m1 where m1: "sm_create_named can nm ?n shm_permissions_default ?fl m = (m1, Inr ?i)"
    using create_named_succeeds [where can = can, OF nm can] by blast
  have "fl_exclusive ?fl" by simp
  note C = create_named_new [OF inv this m1]
  from C(4) obtain r where r: "regions m1 ?i = Some r" by blast
  from attach_known [OF C(1) r] obtain m2 where m2: "sm_attach ?i m1 = (m2, Inr (length (handles m1)))"
    "handle_slice (length (handles m1)) m2 = Some (memory r)" "regions_by_id m2 = regions_by_id m1"
    "regions_by_name m2 = regions_by_name m1" "regions m2 ?i = Some (region_attach r)"
    "handles m2 = handles m1 @ [\<lparr>h_region = ?i, h_attached = True\<rparr>]" by metis
  let ?mem = "splice 0 (le64 0 @ le64 0 @ le64 cap @ le64 esize) (memory r)"
  let ?m = "store_slice (length (handles m1)) ?mem m2"
  have c: "\<exists>b. sr_create can esize nm cap pd cs m = (?m, Inr b)"
    using m1 m2 by (simp add: sr_create_def shm_open_def Let_def)
  have "\<exists>q. regions ?m ?i = Some q" using m2(5,6) by (simp add: store_slice_def update_region_def)
  then obtain q where "regions ?m ?i = Some q" by blast
  with attach_known [of ?m ?i q] C(1) m2(3) obtain m3 where "sm_attach ?i ?m = (m3, Inr (length (handles ?m)))"
    "handle_slice (length (handles ?m)) m3 = Some (memory q)" by (metis store_slice_simps(1))
  with C(2) m2(4) have "\<exists>c. sr_open nm pd cs ?m = (m3, Inr c)" by (simp add: sr_open_def get_by_name_def)
  with c show ?thesis by blast
qed

subsection \<open>Properties\<close>

text \<open>
  In every state the entry points lead to, the manager's answers are exact: a key or a name finds
  precisely the registered region created under it, the reported attach count is the number of
  live handles of the region, and the byte total is the sum of the sizes of the registered
  regions, both modulo the counter width.
\<close>

lemma shm_lookups_exact:
  assumes "sm_reach can m"
  shows "(get_by_key k m = Some i \<longleftrightarrow> k \<noteq> IPC_PRIVATE \<and> (\<exists>inf. sm_info i m = Some inf \<and> info_key inf = k)) \<and>
    (get_by_name nm m = Some i \<longleftrightarrow> (\<exists>inf. sm_info i m = Some inf \<and> info_name inf = Some nm)) \<and>
    (\<forall>inf. sm_info i m = Some inf \<longrightarrow> info_attach_count inf = live_handles (handles m) i mod U64_MOD) \<and>
    ms_total_bytes (sm_stats m) = region_bytes (sm_ids m) (regions m) mod U64_MOD"
proof -
  note D = sm_invD [OF sm_inv_reach [OF assms]]
  have i: "sm_info i m = Some inf \<longleftrightarrow> i \<in> sm_ids m \<and> (\<exists>r. regions m i = Some r \<and>
      inf = \<lparr>info_id = i, info_key = rg_key r, info_size = rg_size r, info_attach_count = attach_count r,
        info_permissions = rg_permissions r, info_name = rg_name r\<rparr>)" for inf
    using D(4) [of i] by (auto simp: sm_info_def dom_def split: bind_splits)
  show ?thesis
    using D(5) [of i] D(7,8,9) unfolding i idx_ok_def key_label_def region_ok_def
    by (auto simp: get_by_key_def get_by_name_def sm_stats_def split: if_splits)
qed

text \<open>
  C33: Bytes written through one handle are read back through every handle of the region: in bounds
  the write succeeds, a read at the same offset returns exactly the bytes, and reads that end
  before or start after them see what they saw before. Past the end the write is refused.
\<close>

theorem shm_write_read:
  assumes "sm_reach can m" and "handle_slice h m = Some mem"
    and "h_attached (handles m ! g)" and "h_region (handles m ! g) = h_region (handles m ! h)"
    and "off + length dat < U64_MOD" and "dat \<noteq> []"
  shows "if off + length dat \<le> length mem
    then \<exists>m'. write_at h off dat m = Some (m', Inr ()) \<and> read_at g off (replicate (length dat) 0) m' = (dat, Inr (length dat)) \<and>
      (\<forall>a buf. a + length buf \<le> off \<or> off + length dat \<le> a \<and> a + length buf \<le> length mem \<longrightarrow> read_at g a buf m' = read_at g a buf m)
    else write_at h off dat m = Some (m, Inl ShmInvalidAddress)"
proof (cases "off + length dat \<le> length mem")
  case True
  let ?m = "store_slice h (splice off dat mem) m"
  have g: "handle_slice g m = Some mem" using assms(2-4) by (simp add: handle_slice_def split: if_splits)
  note s = handle_slice_store [OF assms(2,4) g, of "splice off dat mem"]
  have w: "write_at h off dat m = Some (?m, Inr ())" using True assms(2,5) by (simp add: write_at_def wadd64_exact)
  have pos: "off < length mem" using True assms(6) by (cases dat) simp_all
  have r: "read_at g off (replicate (length dat) 0) ?m = (dat, Inr (length dat))"
    using True pos splice_same [OF True refl] by (simp add: read_at_def s min_absorb1)
  have f: "read_at g a buf ?m = read_at g a buf m"
    if "a + length buf \<le> off \<or> off + length dat \<le> a \<and> a + length buf \<le> length mem" for a buf
    using True that splice_other [OF True, of a "length buf"] by (auto simp: read_at_def s g Let_def min_absorb1)
  show ?thesis using True w r f by auto
next
  case False
  with assms(2,5) show ?thesis by (simp add: write_at_def wadd64_exact)
qed

theorem shm_write_read_witness:
  "let can = \<lambda>_. True; flags = shm_flags_default\<lparr>fl_create := True, fl_exclusive := True\<rparr>;
       m = sm_step can (SmAttach 1) (sm_step can (SmAttach 1) (sm_step can (SmOpen ''a'' 1 flags) sm_new))
   in \<exists>m'. write_at 0 4090 [1, 2, 3] m = Some (m', Inr ()) \<and> read_at 1 4090 [0, 0, 0] m' = ([1, 2, 3], Inr 3)"
proof -
  let ?can = "\<lambda>_. True" and ?fl = "shm_flags_default\<lparr>fl_create := True, fl_exclusive := True\<rparr>"
  define m0 where "m0 = sm_step ?can (SmOpen ''a'' 1 ?fl) sm_new"
  have c: "sm_create_named ?can ''a'' 1 shm_permissions_default ?fl sm_new = (m0, Inr 1)"
    using create_named_succeeds [of "''a''" sm_new ?can 1 shm_permissions_default ?fl]
    by (simp add: get_by_name_def m0_def shm_open_def) (simp add: sm_new_def)
  have n: "sm_next_id m0 = 2" using c by (auto simp: sm_create_named_def sm_generate_id_def with_name_def region_new_def sm_new_def Let_def wadd64_def U64_MOD_def)
  have "fl_exclusive ?fl" by simp
  note C = create_named_new [OF sm_new_inv this c]
  from C(4) obtain r where r: "regions m0 1 = Some r" "memory r = replicate (page_aligned 1) 0" by blast
  have hs: "handles m0 = []" using C(3) by (simp add: sm_new_def)
  define m where "m = sm_step ?can (SmAttach 1) (sm_step ?can (SmAttach 1) m0)"
  have m: "handles m = [\<lparr>h_region = 1, h_attached = True\<rparr>, \<lparr>h_region = 1, h_attached = True\<rparr>]"
    "map_option memory (regions m 1) = Some (memory r)" "sm_next_id (sm_step ?can (SmAttach 1) m0) = 2"
    using C(1) r hs n by (simp_all add: m_def sm_attach_def update_region_def region_attach_def Let_def)
  have R: "sm_reach ?can m" unfolding m_def m0_def
    by (intro sm_reach.step sm_reach.fresh, unfold m0_def [symmetric] m(3) n) (simp_all add: sm_new_def U64_MOD_def)
  have s: "handle_slice 0 m = Some (memory r)" "h_attached (handles m ! 1)" "h_region (handles m ! 1) = h_region (handles m ! 0)"
    using m by (simp_all add: handle_slice_def)
  have "page_aligned 1 = 4096" by code_simp
  then have "4090 + length [1, 2, 3 :: u8] < U64_MOD" "[1, 2, 3 :: u8] \<noteq> []" "4090 + length [1, 2, 3 :: u8] \<le> length (memory r)"
    by (simp_all add: U64_MOD_def r(2))
  with shm_write_read [OF R s this(1,2)] show ?thesis
    by (auto simp: Let_def m_def m0_def simp del: sm_step.simps)
qed



text \<open>
  Removal of a region in use is put off but never carried out: after \<open>remove\<close> on a region with one
  live handle and the detach of that handle, the region reports that it can be removed, yet it
  is still registered; only a second \<open>remove\<close> unregisters it.
\<close>

lemma shm_deferred_removal_stays:
  assumes "sm_reach can m" and "h < length (handles m)" and "h_attached (handles m ! h)" and "h_region (handles m ! h) = i"
    and "live_handles (handles m) i = 1" and "sm_info i m \<noteq> None"
    and "sm_remove i m = (m1, res)" and "handle_detach h m1 = (m2, res')"
  shows "(\<exists>r. regions m2 i = Some r \<and> can_be_removed r) \<and> sm_info i m2 \<noteq> None \<and> sm_info i (fst (sm_remove i m2)) = None"
proof -
  note D = sm_invD [OF sm_inv_reach [OF assms(1)]]
  from assms(6) obtain r where i: "bt_get (regions_by_id m) i = Some i" and r: "regions m i = Some r"
    using D(4) [of i] by (auto simp: sm_info_def split: bind_splits)
  from D(5) [OF r] assms(5) have "attach_count r = 1" by (simp add: region_ok_def U64_MOD_def)
  then have c: "st_attach_count (rg_stats r) = 1" by (simp add: attach_count_def)
  have m1: "m1 = update_region i mark_for_removal m"
    using assms(7) i r c by (auto simp: sm_remove_def Let_def update_region_def attach_count_def mark_for_removal_def)
  let ?r = "fst (region_detach (mark_for_removal r))"
  have m2: "regions m2 i = Some ?r" "regions_by_id m2 = regions_by_id m"
    using assms(3,4,8) r by (auto simp: m1 handle_detach_def update_region_def)
  have "can_be_removed ?r"
    using c by (simp add: can_be_removed_def region_detach_def mark_for_removal_def Let_def attach_count_def wsub64_def U64_MOD_def)
  moreover from this have "attach_count (mark_for_removal ?r) = 0" by (simp add: can_be_removed_def mark_for_removal_def attach_count_def)
  ultimately show ?thesis using m2 i D(1)
    by (simp add: sm_info_def sm_remove_def Let_def update_region_def do_remove_def split: option.splits)
qed

end
