(* ===== verification/AssocVec.thy ===== *)
theory AssocVec
  imports BTreeMap
begin

text \<open>
  A \<open>Vec\<close> of pairs of a number and a value, searched from the front, as the security managers keep
  their per-domain data: setting replaces the first entry with the number or pushes a new one,
  removal is \<open>retain\<close>. It meets the same contract as the ordered map.
\<close>

fun av_set :: "'k \<Rightarrow> 'v \<Rightarrow> ('k \<times> 'v) list \<Rightarrow> ('k \<times> 'v) list" where
  "av_set k v [] = [(k, v)]"
| "av_set k v ((k', v') # m) = (if k' = k then (k', v) # m else (k', v') # av_set k v m)"

definition av_get :: "('k \<times> 'v) list \<Rightarrow> 'k \<Rightarrow> 'v option" where
  "av_get m k = map_option snd (List.find (\<lambda>e. fst e = k) m)"

definition av_remove :: "'k \<Rightarrow> ('k \<times> 'v) list \<Rightarrow> ('k \<times> 'v) list" where
  "av_remove k m = filter (\<lambda>e. fst e \<noteq> k) m"

definition av_wf :: "('k \<times> 'v) list \<Rightarrow> bool" where
  "av_wf m = distinct (map fst m)"

lemma keys_av_set: "fst ` set (av_set k v m) = insert k (fst ` set m)"
  by (induction k v m rule: av_set.induct) auto

lemma av_get_set: "av_get (av_set k v m) = (av_get m)(k \<mapsto> v)"
  by (induction k v m rule: av_set.induct) (auto simp: av_get_def fun_eq_iff)

lemma av_wf_set: "av_wf m \<Longrightarrow> av_wf (av_set k v m)"
  by (induction k v m rule: av_set.induct) (auto simp: av_wf_def keys_av_set image_iff)

lemma av_get_remove: "av_get (av_remove k m) = (av_get m)(k := None)"
  by (induction m) (auto simp: av_get_def av_remove_def fun_eq_iff)

lemma av_wf_remove: "av_wf m \<Longrightarrow> av_wf (av_remove k m)"
  by (simp add: av_wf_def av_remove_def distinct_map_filter)

interpretation av: keyed_store "[]" av_get av_set av_remove av_wf
  by unfold_locales (simp_all add: av_get_set av_get_remove av_wf_set av_wf_remove, simp_all add: av_get_def av_wf_def)

lemmas av_simps [simp] = av.lookup_empty av_get_set av_get_remove

end
