(* ===== verification/Capability.thy ===== *)
theory Capability
  imports AssocVec
begin

text \<open>
  Capabilities (\<open>src/src/security/capability.rs\<close>): the bits, the four sets of a domain and the
  manager with its bounding set. The lemmas show that a capability that was given up cannot come
  back, in one set under its own operations and in the manager once the bounding set lacks it.
\<close>

unbundle bit_operations_syntax

subsection \<open>The bits\<close>

type_synonym Capability = bits64

definition CAP_NET_BIND :: Capability where "CAP_NET_BIND = push_bit 0 1"
definition CAP_NET_RAW :: Capability where "CAP_NET_RAW = push_bit 1 1"
definition CAP_SYS_ADMIN :: Capability where "CAP_SYS_ADMIN = push_bit 2 1"
definition CAP_SYS_BOOT :: Capability where "CAP_SYS_BOOT = push_bit 3 1"
definition CAP_SYS_TIME :: Capability where "CAP_SYS_TIME = push_bit 4 1"
definition CAP_SYS_PTRACE :: Capability where "CAP_SYS_PTRACE = push_bit 5 1"
definition CAP_DAC_OVERRIDE :: Capability where "CAP_DAC_OVERRIDE = push_bit 6 1"
definition CAP_KILL :: Capability where "CAP_KILL = push_bit 7 1"
definition CAP_SETUID :: Capability where "CAP_SETUID = push_bit 8 1"
definition CAP_SETGID :: Capability where "CAP_SETGID = push_bit 9 1"
definition CAP_CHOWN :: Capability where "CAP_CHOWN = push_bit 10 1"
definition CAP_FOWNER :: Capability where "CAP_FOWNER = push_bit 11 1"
definition CAP_SYS_RAWIO :: Capability where "CAP_SYS_RAWIO = push_bit 12 1"
definition CAP_IPC_LOCK :: Capability where "CAP_IPC_LOCK = push_bit 13 1"
definition CAP_SYS_NICE :: Capability where "CAP_SYS_NICE = push_bit 14 1"
definition CAP_NET_ADMIN :: Capability where "CAP_NET_ADMIN = push_bit 15 1"
definition CAP_SYS_MODULE :: Capability where "CAP_SYS_MODULE = push_bit 16 1"
definition CAP_SYS_PHYSMEM :: Capability where "CAP_SYS_PHYSMEM = push_bit 17 1"
definition CAP_DMA :: Capability where "CAP_DMA = push_bit 18 1"
definition CAP_IOMMU :: Capability where "CAP_IOMMU = push_bit 19 1"
definition CAP_INTERRUPT :: Capability where "CAP_INTERRUPT = push_bit 20 1"
definition CAP_ALL :: Capability where "CAP_ALL = push_bit 21 1 - 1"
definition CAP_NONE :: Capability where "CAP_NONE = 0"

definition capability_name :: "Capability \<Rightarrow> string" where
  "capability_name cap =
     (if cap = CAP_NET_BIND then ''CAP_NET_BIND''
      else if cap = CAP_NET_RAW then ''CAP_NET_RAW''
      else if cap = CAP_SYS_ADMIN then ''CAP_SYS_ADMIN''
      else if cap = CAP_SYS_BOOT then ''CAP_SYS_BOOT''
      else if cap = CAP_SYS_TIME then ''CAP_SYS_TIME''
      else if cap = CAP_SYS_PTRACE then ''CAP_SYS_PTRACE''
      else if cap = CAP_DAC_OVERRIDE then ''CAP_DAC_OVERRIDE''
      else if cap = CAP_KILL then ''CAP_KILL''
      else if cap = CAP_SETUID then ''CAP_SETUID''
      else if cap = CAP_SETGID then ''CAP_SETGID''
      else if cap = CAP_CHOWN then ''CAP_CHOWN''
      else if cap = CAP_FOWNER then ''CAP_FOWNER''
      else if cap = CAP_SYS_RAWIO then ''CAP_SYS_RAWIO''
      else if cap = CAP_IPC_LOCK then ''CAP_IPC_LOCK''
      else if cap = CAP_SYS_NICE then ''CAP_SYS_NICE''
      else if cap = CAP_NET_ADMIN then ''CAP_NET_ADMIN''
      else if cap = CAP_SYS_MODULE then ''CAP_SYS_MODULE''
      else if cap = CAP_SYS_PHYSMEM then ''CAP_SYS_PHYSMEM''
      else if cap = CAP_DMA then ''CAP_DMA''
      else if cap = CAP_IOMMU then ''CAP_IOMMU''
      else if cap = CAP_INTERRUPT then ''CAP_INTERRUPT''
      else ''UNKNOWN'')"

subsection \<open>The sets of one domain\<close>

record CapabilitySet =
  effective :: Capability
  permitted :: Capability
  inheritable :: Capability
  ambient :: Capability

definition cs_empty :: CapabilitySet where
  "cs_empty = \<lparr>effective = CAP_NONE, permitted = CAP_NONE, inheritable = CAP_NONE, ambient = CAP_NONE\<rparr>"

definition cs_full :: CapabilitySet where
  "cs_full = \<lparr>effective = CAP_ALL, permitted = CAP_ALL, inheritable = CAP_ALL, ambient = CAP_ALL\<rparr>"

definition with_permitted :: "Capability \<Rightarrow> CapabilitySet" where
  "with_permitted p = \<lparr>effective = p, permitted = p, inheritable = CAP_NONE, ambient = CAP_NONE\<rparr>"

definition cs_has_capability :: "Capability \<Rightarrow> CapabilitySet \<Rightarrow> bool" where
  "cs_has_capability cap s = (effective s AND cap = cap)"

definition is_permitted :: "Capability \<Rightarrow> CapabilitySet \<Rightarrow> bool" where
  "is_permitted cap s = (permitted s AND cap = cap)"

datatype CapabilityError = NotPermitted | CapabilityRequired | InvalidCapability

definition cs_raise :: "Capability \<Rightarrow> CapabilitySet \<Rightarrow> CapabilitySet \<times> (CapabilityError + unit)" where
  "cs_raise cap s =
     (if \<not> is_permitted cap s then (s, Inl NotPermitted)
      else (s\<lparr>effective := effective s OR cap\<rparr>, Inr ()))"

definition cs_drop :: "Capability \<Rightarrow> CapabilitySet \<Rightarrow> CapabilitySet" where
  "cs_drop cap s = s\<lparr>effective := effective s AND NOT cap\<rparr>"

definition drop_permanently :: "Capability \<Rightarrow> CapabilitySet \<Rightarrow> CapabilitySet" where
  "drop_permanently cap s =
     \<lparr>effective = effective s AND NOT cap, permitted = permitted s AND NOT cap,
      inheritable = inheritable s AND NOT cap, ambient = ambient s AND NOT cap\<rparr>"

definition clear_effective :: "CapabilitySet \<Rightarrow> CapabilitySet" where
  "clear_effective s = s\<lparr>effective := CAP_NONE\<rparr>"

definition set_inheritable :: "Capability \<Rightarrow> CapabilitySet \<Rightarrow> CapabilitySet \<times> (CapabilityError + unit)" where
  "set_inheritable caps s =
     (if caps AND NOT (permitted s) \<noteq> 0 then (s, Inl NotPermitted)
      else (s\<lparr>inheritable := caps\<rparr>, Inr ()))"

definition after_exec :: "Capability \<Rightarrow> Capability \<Rightarrow> CapabilitySet \<Rightarrow> CapabilitySet" where
  "after_exec file_permitted file_inheritable s =
     (let new_permitted = (inheritable s AND file_inheritable) OR file_permitted
      in \<lparr>effective = new_permitted, permitted = new_permitted, inheritable = inheritable s,
          ambient = ambient s AND new_permitted\<rparr>)"

subsection \<open>The manager\<close>

text \<open>\<open>DomainCapabilities\<close>: the number of a domain with its sets.\<close>

type_synonym DomainCapabilities = "u64 \<times> CapabilitySet"

record CapabilityManager =
  cm_domains :: "DomainCapabilities list"
  bounding_set :: Capability

definition cm_new :: CapabilityManager where
  "cm_new = \<lparr>cm_domains = [], bounding_set = CAP_ALL\<rparr>"

definition cm_get_capabilities :: "u64 \<Rightarrow> CapabilityManager \<Rightarrow> CapabilitySet" where
  "cm_get_capabilities d m = (case av_get (cm_domains m) d of None \<Rightarrow> cs_empty | Some s \<Rightarrow> s)"

definition cm_set_capabilities :: "u64 \<Rightarrow> CapabilitySet \<Rightarrow> CapabilityManager \<Rightarrow> CapabilityManager" where
  "cm_set_capabilities d s m =
     (let bounding = bounding_set m;
          bounded_caps = \<lparr>effective = effective s AND bounding, permitted = permitted s AND bounding,
            inheritable = inheritable s AND bounding, ambient = ambient s AND bounding\<rparr>
      in m\<lparr>cm_domains := av_set d bounded_caps (cm_domains m)\<rparr>)"

definition cm_has_capability :: "u64 \<Rightarrow> Capability \<Rightarrow> CapabilityManager \<Rightarrow> bool" where
  "cm_has_capability d cap m = cs_has_capability cap (cm_get_capabilities d m)"

definition require_capability :: "u64 \<Rightarrow> Capability \<Rightarrow> CapabilityManager \<Rightarrow> CapabilityError + unit" where
  "require_capability d cap m = (if cm_has_capability d cap m then Inr () else Inl CapabilityRequired)"

definition drop_from_bounding :: "Capability \<Rightarrow> CapabilityManager \<Rightarrow> CapabilityManager" where
  "drop_from_bounding cap m = m\<lparr>bounding_set := bounding_set m AND NOT cap\<rparr>"

definition cm_remove_domain :: "u64 \<Rightarrow> CapabilityManager \<Rightarrow> CapabilityManager" where
  "cm_remove_domain d m = m\<lparr>cm_domains := av_remove d (cm_domains m)\<rparr>"

definition cap_init :: "CapabilityManager \<Rightarrow> CapabilityManager" where
  "cap_init m = cm_set_capabilities 0 cs_full m"

subsection \<open>Sets of bits\<close>

definition cap_le :: "Capability \<Rightarrow> Capability \<Rightarrow> bool" where
  "cap_le a b = (a AND b = a)"

definition lacks :: "Capability \<Rightarrow> CapabilitySet \<Rightarrow> bool" where
  "lacks c s = (effective s AND c = 0 \<and> permitted s AND c = 0 \<and> inheritable s AND c = 0 \<and> ambient s AND c = 0)"

lemma word_bits_eq: "a = (b :: bits64) \<longleftrightarrow> (\<forall>n. bit a n \<longleftrightarrow> bit b n)"
  by (auto intro: bit_word_eqI)

lemma and_eq_iff: "a AND b = (b :: bits64) \<longleftrightarrow> (\<forall>n. bit b n \<longrightarrow> bit a n)"
  unfolding word_bits_eq bit_and_iff by blast

lemma and_zero_iff: "a AND b = (0 :: bits64) \<longleftrightarrow> (\<forall>n. bit a n \<longrightarrow> \<not> bit b n)"
  unfolding word_bits_eq bit_and_iff by simp

lemma cap_le_iff: "cap_le a b \<longleftrightarrow> (\<forall>n. bit a n \<longrightarrow> bit b n)"
  unfolding cap_le_def word_bits_eq bit_and_iff by blast

lemma bit_less_64: "bit (a :: bits64) n \<Longrightarrow> n < 64"
  using bit_imp_le_length [of a n] by simp

lemma bit_not_64: "bit (NOT (b :: bits64)) n \<longleftrightarrow> n < 64 \<and> \<not> bit b n"
  by (simp add: bit_not_iff)

lemmas cap_bits = and_eq_iff and_zero_iff cap_le_iff bit_not_64 bit_and_iff bit_or_iff

subsection \<open>Sequences of operations on a set\<close>

datatype cap_op = Raise Capability | Drop Capability | DropPermanently Capability | ClearEffective
  | SetInheritable Capability | Exec Capability Capability

fun cap_step :: "cap_op \<Rightarrow> CapabilitySet \<Rightarrow> CapabilitySet" where
  "cap_step (Raise c) s = fst (cs_raise c s)"
| "cap_step (Drop c) s = cs_drop c s"
| "cap_step (DropPermanently c) s = drop_permanently c s"
| "cap_step ClearEffective s = clear_effective s"
| "cap_step (SetInheritable c) s = fst (set_inheritable c s)"
| "cap_step (Exec fp fi) s = after_exec fp fi s"

text \<open>The program files executed do not grant any of the bits.\<close>

fun grants_none :: "Capability \<Rightarrow> cap_op \<Rightarrow> bool" where
  "grants_none c (Exec fp fi) = (fp AND c = 0)"
| "grants_none c _ = True"

lemma lacks_drop: "lacks c (drop_permanently c s)"
  by (simp add: lacks_def drop_permanently_def cap_bits)

lemma lacks_step: "lacks c s \<Longrightarrow> grants_none c q \<Longrightarrow> lacks c (cap_step q s)"
  by (cases q) (auto simp: lacks_def cs_raise_def is_permitted_def cs_drop_def drop_permanently_def clear_effective_def
      set_inheritable_def after_exec_def CAP_NONE_def Let_def cap_bits dest: bit_less_64)

lemma lacks_run: "lacks c s \<Longrightarrow> list_all (grants_none c) qs \<Longrightarrow> lacks c (fold cap_step qs s)"
  by (induction qs arbitrary: s) (simp_all add: lacks_step)

lemma bounded_step: "cap_le (effective s) (permitted s) \<Longrightarrow> cap_le (effective (cap_step q s)) (permitted (cap_step q s))"
  by (cases q) (auto simp: cs_raise_def is_permitted_def cs_drop_def drop_permanently_def clear_effective_def
      set_inheritable_def after_exec_def CAP_NONE_def Let_def cap_bits dest: bit_less_64)

lemma bounded_run:
  "cap_le (effective s) (permitted s) \<Longrightarrow> cap_le (effective (fold cap_step qs s)) (permitted (fold cap_step qs s))"
  by (induction qs arbitrary: s) (simp_all add: bounded_step)

lemma lacks_has: "lacks c s \<Longrightarrow> cap AND c \<noteq> 0 \<Longrightarrow> \<not> cs_has_capability cap s"
  by (auto simp: lacks_def cs_has_capability_def cap_bits)

subsection \<open>Sequences of operations on the manager\<close>

datatype cm_op = SetCapabilities u64 CapabilitySet | DropFromBounding Capability | RemoveDomain u64

fun cm_step :: "cm_op \<Rightarrow> CapabilityManager \<Rightarrow> CapabilityManager" where
  "cm_step (SetCapabilities d s) m = cm_set_capabilities d s m"
| "cm_step (DropFromBounding c) m = drop_from_bounding c m"
| "cm_step (RemoveDomain d) m = cm_remove_domain d m"

definition cm_lacks :: "Capability \<Rightarrow> u64 \<Rightarrow> CapabilityManager \<Rightarrow> bool" where
  "cm_lacks c d m = (bounding_set m AND c = 0 \<and> lacks c (cm_get_capabilities d m))"

lemma lacks_empty: "lacks c cs_empty"
  by (simp add: lacks_def cs_empty_def CAP_NONE_def)

lemma cm_lacks_set:
  assumes "bounding_set m AND c = 0" and "lacks c (cm_get_capabilities d m) \<or> d = e"
  shows "cm_lacks c d (cm_set_capabilities e s m)"
proof -
  have "(x AND bounding_set m) AND c = 0" for x using assms(1) by (simp add: and.assoc)
  with assms show ?thesis by (auto simp: cm_lacks_def cm_set_capabilities_def cm_get_capabilities_def Let_def lacks_def)
qed

lemma cm_lacks_step:
  assumes "cm_lacks c d m"
  shows "cm_lacks c d (cm_step q m)"
proof (cases q)
  case (SetCapabilities e s)
  with assms cm_lacks_set [of m c d e s] show ?thesis unfolding cm_lacks_def by simp
next
  case (DropFromBounding b)
  with assms show ?thesis by (simp add: cm_lacks_def drop_from_bounding_def cm_get_capabilities_def cap_bits)
next
  case (RemoveDomain e)
  with assms show ?thesis by (simp add: cm_lacks_def cm_remove_domain_def cm_get_capabilities_def lacks_empty)
qed

lemma cm_lacks_run: "cm_lacks c d m \<Longrightarrow> cm_lacks c d (fold cm_step qs m)"
  by (induction qs arbitrary: m) (simp_all add: cm_lacks_step)

subsection \<open>Properties\<close>



text \<open>
  The bounding set confines a domain from its next configuration on: once a capability has left the
  bounding set and the domain has been configured again, no sequence of manager operations lets
  the domain pass a check for it. Until then the domain keeps what it had.
\<close>

lemma bounding_set_confines:
  assumes "cap AND c \<noteq> 0"
  shows "require_capability d cap (fold cm_step qs (cm_set_capabilities d s (drop_from_bounding c m))) = Inl CapabilityRequired \<and>
    require_capability d cap (drop_from_bounding c m) = require_capability d cap m"
proof -
  have "bounding_set (drop_from_bounding c m) AND c = 0" by (simp add: drop_from_bounding_def cap_bits)
  from cm_lacks_run [OF cm_lacks_set [OF this disjI2 [OF refl]]]
  have "lacks c (cm_get_capabilities d (fold cm_step qs (cm_set_capabilities d s (drop_from_bounding c m))))"
    unfolding cm_lacks_def by blast
  from lacks_has [OF this assms] show ?thesis
    by (simp add: require_capability_def cm_has_capability_def drop_from_bounding_def cm_get_capabilities_def)
qed

end
