(* ===== verification/Mac.thy ===== *)
theory Mac
  imports AssocVec
begin

text \<open>
  Mandatory access control (\<open>src/src/security/mac.rs\<close>): levels, categories, contexts, the policy with its
  tables of contexts and the Bell-LaPadula check. \<open>flow_policy\<close> states what a check must guarantee
  for information to move only upwards along any chain of accesses; the policy in enforcing mode
  is its interpretation.
\<close>

subsection \<open>Levels and categories\<close>

datatype SecurityLevel = Public | Internal | Confidential | Secret | TopSecret

fun level_num :: "SecurityLevel \<Rightarrow> nat" where
  "level_num Public = 0"
| "level_num Internal = 1"
| "level_num Confidential = 2"
| "level_num Secret = 3"
| "level_num TopSecret = 4"

lemma level_num_inj: "level_num a = level_num b \<Longrightarrow> a = b"
  by (cases a; cases b) simp_all

instantiation SecurityLevel :: linorder
begin

definition less_eq_SecurityLevel :: "SecurityLevel \<Rightarrow> SecurityLevel \<Rightarrow> bool" where
  "less_eq_SecurityLevel a b = (level_num a \<le> level_num b)"

definition less_SecurityLevel :: "SecurityLevel \<Rightarrow> SecurityLevel \<Rightarrow> bool" where
  "less_SecurityLevel a b = (level_num a < level_num b)"

instance
  by standard (auto simp: less_eq_SecurityLevel_def less_SecurityLevel_def intro: level_num_inj)

end

definition level_dominates :: "SecurityLevel \<Rightarrow> SecurityLevel \<Rightarrow> bool" where
  "level_dominates self other = (level_num other \<le> level_num self)"

fun level_name :: "SecurityLevel \<Rightarrow> string" where
  "level_name Public = ''Public''"
| "level_name Internal = ''Internal''"
| "level_name Confidential = ''Confidential''"
| "level_name Secret = ''Secret''"
| "level_name TopSecret = ''Top Secret''"

datatype SecurityCategory = CatNone | CatNetwork | CatFileSystem | CatProcess | CatMemory | CatHardware | CatCrypto
  | CatAudit | CatIpc | Custom1 | Custom2 | Custom3

fun category_num :: "SecurityCategory \<Rightarrow> nat" where
  "category_num CatNone = 0"
| "category_num CatNetwork = 1"
| "category_num CatFileSystem = 2"
| "category_num CatProcess = 3"
| "category_num CatMemory = 4"
| "category_num CatHardware = 5"
| "category_num CatCrypto = 6"
| "category_num CatAudit = 7"
| "category_num CatIpc = 8"
| "category_num Custom1 = 100"
| "category_num Custom2 = 101"
| "category_num Custom3 = 102"

lemma category_num_inj: "category_num a = category_num b \<Longrightarrow> a = b"
  by (cases a; cases b) simp_all

instantiation SecurityCategory :: linorder
begin

definition less_eq_SecurityCategory :: "SecurityCategory \<Rightarrow> SecurityCategory \<Rightarrow> bool" where
  "less_eq_SecurityCategory a b = (category_num a \<le> category_num b)"

definition less_SecurityCategory :: "SecurityCategory \<Rightarrow> SecurityCategory \<Rightarrow> bool" where
  "less_SecurityCategory a b = (category_num a < category_num b)"

instance
  by standard (auto simp: less_eq_SecurityCategory_def less_SecurityCategory_def intro: category_num_inj)

end

text \<open>A type with finitely many values: every set of categories is finite.\<close>

instantiation SecurityCategory :: finite
begin

instance
proof
  have "inj category_num" by (rule injI) (rule category_num_inj)
  moreover have "category_num c \<le> 102" for c by (cases c) simp_all
  then have "finite (range category_num)" using finite_subset [of "range category_num" "{..102}"] by blast
  ultimately show "finite (UNIV :: SecurityCategory set)" by (simp add: finite_image_iff)
qed

end

subsection \<open>Contexts\<close>

record SecurityContext =
  level :: SecurityLevel
  categories :: "SecurityCategory set"
  user_id :: u32
  role_id :: u32
  type_name :: string

definition ctx_new :: "SecurityLevel \<Rightarrow> u32 \<Rightarrow> u32 \<Rightarrow> SecurityContext" where
  "ctx_new l u r = \<lparr>level = l, categories = {}, user_id = u, role_id = r, type_name = ''unconfined''\<rparr>"

definition ctx_public :: SecurityContext where
  "ctx_public = \<lparr>level = Public, categories = {}, user_id = 0, role_id = 0, type_name = ''public''\<rparr>"

definition ctx_kernel :: SecurityContext where
  "ctx_kernel = \<lparr>level = TopSecret,
     categories = {CatNetwork, CatFileSystem, CatProcess, CatMemory, CatHardware, CatCrypto, CatAudit, CatIpc},
     user_id = 0, role_id = 0, type_name = ''kernel''\<rparr>"

definition add_category :: "SecurityCategory \<Rightarrow> SecurityContext \<Rightarrow> SecurityContext" where
  "add_category c x = x\<lparr>categories := insert c (categories x)\<rparr>"

definition remove_category :: "SecurityCategory \<Rightarrow> SecurityContext \<Rightarrow> SecurityContext" where
  "remove_category c x = x\<lparr>categories := categories x - {c}\<rparr>"

definition has_category :: "SecurityCategory \<Rightarrow> SecurityContext \<Rightarrow> bool" where
  "has_category c x = (c \<in> categories x)"

definition ctx_dominates :: "SecurityContext \<Rightarrow> SecurityContext \<Rightarrow> bool" where
  "ctx_dominates self other =
     (level_dominates (level self) (level other) \<and> categories other \<subseteq> categories self)"

definition set_type :: "string \<Rightarrow> SecurityContext \<Rightarrow> SecurityContext" where
  "set_type t x = x\<lparr>type_name := t\<rparr>"

subsection \<open>The policy\<close>

datatype MacDecision = MacAllow | MacDeny | AllowWithAudit

datatype MacError = LevelDenied SecurityLevel SecurityLevel | CategoryDenied "SecurityCategory list"
  | TypeTransitionDenied string string | NoPolicyLoaded

datatype AccessType = AccRead | AccWrite | AccExecute | AccAppend | AccCreate | AccDelete

record MacPolicy =
  mac_enabled :: bool
  enforcing :: bool
  domain_contexts :: "(u64 \<times> SecurityContext) list"
  object_contexts :: "(u64 \<times> SecurityContext) list"

definition mac_new :: MacPolicy where
  "mac_new = \<lparr>mac_enabled = False, enforcing = False, domain_contexts = [], object_contexts = []\<rparr>"

definition mac_enable :: "MacPolicy \<Rightarrow> MacPolicy" where
  "mac_enable p = p\<lparr>mac_enabled := True\<rparr>"

definition mac_disable :: "MacPolicy \<Rightarrow> MacPolicy" where
  "mac_disable p = p\<lparr>mac_enabled := False\<rparr>"

definition set_enforcing :: "bool \<Rightarrow> MacPolicy \<Rightarrow> MacPolicy" where
  "set_enforcing b p = p\<lparr>enforcing := b\<rparr>"

definition set_domain_context :: "u64 \<Rightarrow> SecurityContext \<Rightarrow> MacPolicy \<Rightarrow> MacPolicy" where
  "set_domain_context d x p = p\<lparr>domain_contexts := av_set d x (domain_contexts p)\<rparr>"

definition get_domain_context :: "u64 \<Rightarrow> MacPolicy \<Rightarrow> SecurityContext option" where
  "get_domain_context d p = av_get (domain_contexts p) d"

definition set_object_context :: "u64 \<Rightarrow> SecurityContext \<Rightarrow> MacPolicy \<Rightarrow> MacPolicy" where
  "set_object_context i x p = p\<lparr>object_contexts := av_set i x (object_contexts p)\<rparr>"

definition get_object_context :: "u64 \<Rightarrow> MacPolicy \<Rightarrow> SecurityContext option" where
  "get_object_context i p = av_get (object_contexts p) i"

text \<open>
  \<open>check_access\<close>. The arms of the match are the reading and the writing accesses; \<open>upper\<close> is the
  context that has to dominate, the subject for the first and the object for the second.
\<close>

fun is_reading :: "AccessType \<Rightarrow> bool" where
  "is_reading AccRead = True"
| "is_reading AccExecute = True"
| "is_reading _ = False"

definition mac_check_access ::
  "MacPolicy \<Rightarrow> SecurityContext \<Rightarrow> SecurityContext \<Rightarrow> AccessType \<Rightarrow> MacError + MacDecision" where
  "mac_check_access p subject object access =
     (if \<not> mac_enabled p then Inr MacAllow
      else let (upper, lower) = (if is_reading access then (subject, object) else (object, subject))
           in if \<not> ctx_dominates upper lower then
                (if enforcing p then
                   (if \<not> level_dominates (level upper) (level lower) then Inl (LevelDenied (level subject) (level object))
                    else Inl (CategoryDenied (sorted_list_of_set (categories lower - categories upper))))
                 else Inr AllowWithAudit)
              else Inr MacAllow)"

definition domain_context_or_public :: "u64 \<Rightarrow> MacPolicy \<Rightarrow> SecurityContext" where
  "domain_context_or_public d p = (case get_domain_context d p of None \<Rightarrow> ctx_public | Some x \<Rightarrow> x)"

definition check_domain_access :: "MacPolicy \<Rightarrow> u64 \<Rightarrow> u64 \<Rightarrow> AccessType \<Rightarrow> MacError + MacDecision" where
  "check_domain_access p s ob access =
     mac_check_access p (domain_context_or_public s p) (domain_context_or_public ob p) access"

definition mac_init :: "MacPolicy \<Rightarrow> MacPolicy" where
  "mac_init p = set_enforcing False (mac_enable (set_domain_context 0 ctx_kernel p))"

subsection \<open>Flows of information\<close>

text \<open>
  A read moves information from the object to the subject, a write from the subject to the object;
  flows compose.
\<close>

inductive flows :: "('d \<Rightarrow> 'd \<Rightarrow> bool) \<Rightarrow> ('d \<Rightarrow> 'd \<Rightarrow> bool) \<Rightarrow> 'd \<Rightarrow> 'd \<Rightarrow> bool" for reads writes a where
  flow_here: "flows reads writes a a"
| flow_read: "flows reads writes a ob \<Longrightarrow> reads s ob \<Longrightarrow> flows reads writes a s"
| flow_write: "flows reads writes a s \<Longrightarrow> writes s ob \<Longrightarrow> flows reads writes a ob"

locale flow_policy =
  fixes above :: "'d \<Rightarrow> 'd \<Rightarrow> bool"
    and reads :: "'d \<Rightarrow> 'd \<Rightarrow> bool"
    and writes :: "'d \<Rightarrow> 'd \<Rightarrow> bool"
  assumes above_refl: "above a a"
    and above_trans: "above c b \<Longrightarrow> above b a \<Longrightarrow> above c a"
    and no_read_up: "reads s ob \<longleftrightarrow> above s ob"
    and no_write_down: "writes s ob \<longleftrightarrow> above ob s"
begin

lemma flows_up: "flows reads writes a b \<Longrightarrow> above b a"
  by (induction rule: flows.induct) (auto simp: no_read_up no_write_down intro: above_refl above_trans)

lemma flows_exact: "flows reads writes a b \<longleftrightarrow> above b a"
proof
  assume "above b a"
  then have "reads b a" by (simp add: no_read_up)
  then show "flows reads writes a b" by (rule flows.flow_read [OF flows.flow_here])
qed (rule flows_up)

end

definition domain_above :: "MacPolicy \<Rightarrow> u64 \<Rightarrow> u64 \<Rightarrow> bool" where
  "domain_above p a b = ctx_dominates (domain_context_or_public a p) (domain_context_or_public b p)"

text \<open>An access of one of the given kinds that the check lets through, audited or not.\<close>

definition passes :: "AccessType list \<Rightarrow> MacPolicy \<Rightarrow> u64 \<Rightarrow> u64 \<Rightarrow> bool" where
  "passes accs p s ob = list_ex (\<lambda>acc. \<not> isl (check_domain_access p s ob acc)) accs"

abbreviation mac_reads :: "MacPolicy \<Rightarrow> u64 \<Rightarrow> u64 \<Rightarrow> bool" where
  "mac_reads \<equiv> passes [AccRead, AccExecute]"

abbreviation mac_writes :: "MacPolicy \<Rightarrow> u64 \<Rightarrow> u64 \<Rightarrow> bool" where
  "mac_writes \<equiv> passes [AccWrite, AccAppend, AccCreate, AccDelete]"

lemma ctx_dominates_refl: "ctx_dominates x x"
  by (simp add: ctx_dominates_def level_dominates_def)

lemma ctx_dominates_trans: "ctx_dominates x y \<Longrightarrow> ctx_dominates y z \<Longrightarrow> ctx_dominates x z"
  by (auto simp: ctx_dominates_def level_dominates_def)

lemma enforced_passes:
  assumes "mac_enabled p" and "enforcing p"
  shows "mac_reads p s ob \<longleftrightarrow> domain_above p s ob" and "mac_writes p s ob \<longleftrightarrow> domain_above p ob s"
  using assms by (auto simp: passes_def check_domain_access_def mac_check_access_def domain_above_def)

text \<open>The policy once it is enabled and enforcing.\<close>

abbreviation enforced :: "MacPolicy \<Rightarrow> MacPolicy" where
  "enforced p \<equiv> set_enforcing True (mac_enable p)"

interpretation mac: flow_policy "domain_above (enforced p)" "mac_reads (enforced p)" "mac_writes (enforced p)" for p
proof unfold_locales
  show "domain_above (enforced p) c b \<Longrightarrow> domain_above (enforced p) b a \<Longrightarrow> domain_above (enforced p) c a" for a b c
    unfolding domain_above_def by (rule ctx_dominates_trans)
qed (simp_all add: domain_above_def [of _ a a for a] ctx_dominates_refl enforced_passes set_enforcing_def mac_enable_def)

subsection \<open>Properties\<close>

text \<open>
  C36: An enforcing policy lets information move exactly upwards: along any chain of accesses it lets
  through, of whatever kinds and between whatever domains, information of domain \<open>a\<close> reaches
  domain \<open>b\<close> if and only if the context of \<open>b\<close> dominates that of \<open>a\<close>. A refusal names the level
  when the levels are at fault and otherwise lists the missing categories, at least one.
\<close>

theorem mac_flows_exact:
  assumes "mac_enabled p" and "enforcing p"
  shows "(flows (mac_reads p) (mac_writes p) a b \<longleftrightarrow> domain_above p b a) \<and>
    (case check_domain_access p a b acc of
       Inr d \<Rightarrow> d = MacAllow
     | Inl (LevelDenied l l') \<Rightarrow> if is_reading acc then l < l' else l' < l
     | Inl (CategoryDenied cs) \<Rightarrow> cs \<noteq> []
     | Inl _ \<Rightarrow> False)"
proof
  have "enforced p = p" using assms by (simp add: set_enforcing_def mac_enable_def)
  with mac.flows_exact [of p a b] show "flows (mac_reads p) (mac_writes p) a b \<longleftrightarrow> domain_above p b a" by simp
  show "case check_domain_access p a b acc of
       Inr d \<Rightarrow> d = MacAllow
     | Inl (LevelDenied l l') \<Rightarrow> if is_reading acc then l < l' else l' < l
     | Inl (CategoryDenied cs) \<Rightarrow> cs \<noteq> []
     | Inl _ \<Rightarrow> False"
    using assms by (auto simp: check_domain_access_def mac_check_access_def ctx_dominates_def level_dominates_def
        less_SecurityLevel_def split: if_splits)
qed

theorem mac_flows_exact_witness:
  "let p = set_enforcing True (set_domain_context 2 (ctx_new Secret 1 1) (mac_init mac_new))
   in flows (mac_reads p) (mac_writes p) 2 0 \<and> \<not> flows (mac_reads p) (mac_writes p) 0 2"
proof -
  let ?p = "set_enforcing True (set_domain_context 2 (ctx_new Secret 1 1) (mac_init mac_new))"
  have e: "mac_enabled ?p" "enforcing ?p" by code_simp+
  have "domain_above ?p 0 2" "\<not> domain_above ?p 2 0" by code_simp+
  with mac_flows_exact [OF e, of 2 0] mac_flows_exact [OF e, of 0 2] show ?thesis by (simp only: Let_def simp_thms)
qed

end
