(* ===== verification/Policy.thy ===== *)
theory Policy
  imports Prelude "HOL-Library.Sublist" "HOL-Library.Multiset"
begin

text \<open>
  The rule based policy (\<open>src/src/security/policy.rs\<close>): subjects, objects and operations, rules, the
  policy with its list of rules sorted by priority, and the two checks. The reference policy at
  the end keeps the rules as they were added and takes the matching rule of highest priority; the
  sorted list with its search for the first match is shown to decide the same.
\<close>

subsection \<open>Actions, subjects, objects and operations\<close>

datatype PolicyAction = ActAllow | ActDeny | AllowAudit | DenyAudit

fun is_allow :: "PolicyAction \<Rightarrow> bool" where
  "is_allow ActAllow = True"
| "is_allow AllowAudit = True"
| "is_allow _ = False"

fun needs_audit :: "PolicyAction \<Rightarrow> bool" where
  "needs_audit AllowAudit = True"
| "needs_audit DenyAudit = True"
| "needs_audit _ = False"

datatype PolicySubject = SubjAny | SubjDomain u64 | SubjDomainType string | SubjUser u32 | SubjGroup u32

fun matches_domain :: "PolicySubject \<Rightarrow> u64 \<Rightarrow> string \<Rightarrow> bool" where
  "matches_domain SubjAny domain_id domain_type = True"
| "matches_domain (SubjDomain i) domain_id domain_type = (i = domain_id)"
| "matches_domain (SubjDomainType t) domain_id domain_type = (t = domain_type)"
| "matches_domain _ domain_id domain_type = False"

datatype PolicyObject = ObjAny | ObjResource u64 | ObjResourceType string | ObjPath string | ObjNetwork string | ObjSyscall u32

fun matches_resource :: "PolicyObject \<Rightarrow> u64 \<Rightarrow> string \<Rightarrow> bool" where
  "matches_resource ObjAny resource_id resource_type = True"
| "matches_resource (ObjResource i) resource_id resource_type = (i = resource_id)"
| "matches_resource (ObjResourceType t) resource_id resource_type = (t = resource_type)"
| "matches_resource _ resource_id resource_type = False"

fun obj_matches_path :: "PolicyObject \<Rightarrow> string \<Rightarrow> bool" where
  "obj_matches_path ObjAny path = True"
| "obj_matches_path (ObjPath pattern) path =
     (if suffix ''/*'' pattern then prefix (take (length pattern - 2) pattern) path
      else if suffix ''/**'' pattern then prefix (take (length pattern - 3) pattern) path
      else pattern = path)"
| "obj_matches_path _ path = False"

datatype PolicyOperation = OpAny | OpRead | OpWrite | OpExecute | OpCreate | OpDelete | OpSend | OpReceive | OpMap
  | OpIpcSend | OpIpcReceive

subsection \<open>Rules\<close>

record PolicyRule =
  rule_id :: u64
  priority :: u32
  subject :: PolicySubject
  object :: PolicyObject
  operation :: PolicyOperation
  action :: PolicyAction
  description :: string
  rule_enabled :: bool

text \<open>The counter \<open>NEXT_ID\<close> of \<open>PolicyRule::new\<close> is passed and returned.\<close>

definition rule_new ::
  "u64 \<Rightarrow> PolicySubject \<Rightarrow> PolicyObject \<Rightarrow> PolicyOperation \<Rightarrow> PolicyAction \<Rightarrow> u64 \<times> PolicyRule" where
  "rule_new next_id sub ob op act =
     (wadd64 next_id 1, \<lparr>rule_id = next_id, priority = 100, subject = sub, object = ob, operation = op, action = act,
        description = [], rule_enabled = True\<rparr>)"

definition with_priority :: "u32 \<Rightarrow> PolicyRule \<Rightarrow> PolicyRule" where
  "with_priority n r = r\<lparr>priority := n\<rparr>"

definition with_description :: "string \<Rightarrow> PolicyRule \<Rightarrow> PolicyRule" where
  "with_description d r = r\<lparr>description := d\<rparr>"

definition rule_matches :: "u64 \<Rightarrow> string \<Rightarrow> u64 \<Rightarrow> string \<Rightarrow> PolicyOperation \<Rightarrow> PolicyRule \<Rightarrow> bool" where
  "rule_matches domain_id domain_type resource_id resource_type op r =
     (if \<not> rule_enabled r then False
      else if \<not> matches_domain (subject r) domain_id domain_type then False
      else if \<not> matches_resource (object r) resource_id resource_type then False
      else if operation r \<noteq> OpAny \<and> operation r \<noteq> op then False
      else True)"

definition rule_matches_path :: "u64 \<Rightarrow> string \<Rightarrow> string \<Rightarrow> PolicyOperation \<Rightarrow> PolicyRule \<Rightarrow> bool" where
  "rule_matches_path domain_id domain_type path op r =
     (if \<not> rule_enabled r then False
      else if \<not> matches_domain (subject r) domain_id domain_type then False
      else if \<not> obj_matches_path (object r) path then False
      else if operation r \<noteq> OpAny \<and> operation r \<noteq> op then False
      else True)"

subsection \<open>The policy\<close>

record PolicyDecision =
  dec_action :: PolicyAction
  matched_rule :: "u64 option"
  audit_message :: "string option"

definition default_deny :: PolicyDecision where
  "default_deny = \<lparr>dec_action = ActDeny, matched_rule = None, audit_message = Some ''No matching rule, default deny''\<rparr>"

definition from_rule :: "PolicyRule \<Rightarrow> PolicyDecision" where
  "from_rule r = \<lparr>dec_action = action r, matched_rule = Some (rule_id r),
     audit_message = (if needs_audit (action r) then Some (description r) else None)\<rparr>"

record PolicyStats =
  total_checks :: u64
  allowed :: u64
  denied :: u64

record SecurityPolicy =
  pol_name :: string
  version :: u32
  rules :: "PolicyRule list"
  default_action :: PolicyAction
  pol_enabled :: bool
  pol_stats :: PolicyStats

definition policy_new :: "string \<Rightarrow> SecurityPolicy" where
  "policy_new nm = \<lparr>pol_name = nm, version = 1, rules = [], default_action = ActDeny, pol_enabled = True,
     pol_stats = \<lparr>total_checks = 0, allowed = 0, denied = 0\<rparr>\<rparr>"

text \<open>\<open>sort_by\<close> is stable; the comparison puts the higher priority first.\<close>

abbreviation by_priority :: "PolicyRule list \<Rightarrow> PolicyRule list" where
  "by_priority \<equiv> sort_key (\<lambda>r. - int (priority r))"

definition add_rule :: "PolicyRule \<Rightarrow> SecurityPolicy \<Rightarrow> SecurityPolicy" where
  "add_rule r p = p\<lparr>rules := by_priority (rules p @ [r])\<rparr>"

definition remove_rule :: "u64 \<Rightarrow> SecurityPolicy \<Rightarrow> SecurityPolicy \<times> bool" where
  "remove_rule i p =
     (let kept = filter (\<lambda>r. rule_id r \<noteq> i) (rules p)
      in (p\<lparr>rules := kept\<rparr>, length kept < length (rules p)))"

definition get_rule :: "u64 \<Rightarrow> SecurityPolicy \<Rightarrow> PolicyRule option" where
  "get_rule i p = List.find (\<lambda>r. rule_id r = i) (rules p)"

definition set_enabled :: "bool \<Rightarrow> SecurityPolicy \<Rightarrow> SecurityPolicy" where
  "set_enabled b p = p\<lparr>pol_enabled := b\<rparr>"

definition set_default_action :: "PolicyAction \<Rightarrow> SecurityPolicy \<Rightarrow> SecurityPolicy" where
  "set_default_action a p = p\<lparr>default_action := a\<rparr>"

definition policy_clear :: "SecurityPolicy \<Rightarrow> SecurityPolicy" where
  "policy_clear p = p\<lparr>rules := [], version := (version p + 1) mod 2 ^ 32\<rparr>"

text \<open>The loop over the rules that both checks share, with its counters.\<close>

fun check_rules :: "(PolicyRule \<Rightarrow> bool) \<Rightarrow> PolicyRule list \<Rightarrow> PolicyStats \<Rightarrow> PolicyStats \<times> PolicyDecision" where
  "check_rules match [] st = (st\<lparr>denied := wadd64 (denied st) 1\<rparr>, default_deny)"
| "check_rules match (r # rs) st =
     (if match r then
        (if is_allow (action r) then st\<lparr>allowed := wadd64 (allowed st) 1\<rparr> else st\<lparr>denied := wadd64 (denied st) 1\<rparr>, from_rule r)
      else check_rules match rs st)"

definition check_with :: "(PolicyRule \<Rightarrow> bool) \<Rightarrow> SecurityPolicy \<Rightarrow> SecurityPolicy \<times> PolicyDecision" where
  "check_with match p =
     (let st = (pol_stats p)\<lparr>total_checks := wadd64 (total_checks (pol_stats p)) 1\<rparr>
      in if \<not> pol_enabled p then (p\<lparr>pol_stats := st\<rparr>, \<lparr>dec_action = ActAllow, matched_rule = None, audit_message = None\<rparr>)
         else case check_rules match (rules p) st of (st', d) \<Rightarrow> (p\<lparr>pol_stats := st'\<rparr>, d))"

definition policy_check ::
  "u64 \<Rightarrow> string \<Rightarrow> u64 \<Rightarrow> string \<Rightarrow> PolicyOperation \<Rightarrow> SecurityPolicy \<Rightarrow> SecurityPolicy \<times> PolicyDecision" where
  "policy_check domain_id domain_type resource_id resource_type op p =
     check_with (rule_matches domain_id domain_type resource_id resource_type op) p"

definition check_path :: "u64 \<Rightarrow> string \<Rightarrow> string \<Rightarrow> PolicyOperation \<Rightarrow> SecurityPolicy \<Rightarrow> SecurityPolicy \<times> PolicyDecision" where
  "check_path domain_id domain_type path op p = check_with (rule_matches_path domain_id domain_type path op) p"

text \<open>\<open>init\<close>: the two rules of the kernel policy, with the counter of rule numbers.\<close>

definition policy_init :: "u64 \<Rightarrow> u64 \<times> SecurityPolicy" where
  "policy_init next_id =
     (let (n1, r1) = rule_new next_id (SubjDomain 0) ObjAny OpAny ActAllow;
          p1 = add_rule (with_description ''Kernel unrestricted'' (with_priority 1000 r1)) (policy_new ''kernel_policy'');
          (n2, r2) = rule_new n1 SubjAny ObjAny OpAny DenyAudit;
          p2 = add_rule (with_description ''Default deny'' (with_priority 0 r2)) p1
      in (n2, set_enabled True p2))"

subsection \<open>The reference policy\<close>

text \<open>The matching rule of highest priority; of several the one added first.\<close>

fun best_rule :: "(PolicyRule \<Rightarrow> bool) \<Rightarrow> PolicyRule list \<Rightarrow> PolicyRule option" where
  "best_rule match [] = None"
| "best_rule match (r # rs) =
     (case best_rule match rs of
        None \<Rightarrow> if match r then Some r else None
      | Some b \<Rightarrow> if match r \<and> priority b \<le> priority r then Some r else Some b)"

definition spec_decision :: "(PolicyRule \<Rightarrow> bool) \<Rightarrow> PolicyRule list \<Rightarrow> PolicyDecision" where
  "spec_decision match rs = (case best_rule match rs of None \<Rightarrow> default_deny | Some r \<Rightarrow> from_rule r)"

datatype policy_op = AddRule PolicyRule | RemoveRule u64 | ClearRules | SetDefault PolicyAction
  | Check u64 string u64 string PolicyOperation | CheckPath u64 string string PolicyOperation

fun policy_step :: "policy_op \<Rightarrow> SecurityPolicy \<Rightarrow> SecurityPolicy" where
  "policy_step (AddRule r) p = add_rule r p"
| "policy_step (RemoveRule i) p = fst (remove_rule i p)"
| "policy_step ClearRules p = policy_clear p"
| "policy_step (SetDefault a) p = set_default_action a p"
| "policy_step (Check d t i rt op) p = fst (policy_check d t i rt op p)"
| "policy_step (CheckPath d t path op) p = fst (check_path d t path op p)"

text \<open>The same operations on the rules in the order they were added.\<close>

fun spec_step :: "policy_op \<Rightarrow> PolicyRule list \<Rightarrow> PolicyRule list" where
  "spec_step (AddRule r) rs = rs @ [r]"
| "spec_step (RemoveRule i) rs = filter (\<lambda>r. rule_id r \<noteq> i) rs"
| "spec_step ClearRules rs = []"
| "spec_step _ rs = rs"

lemma check_rules_find:
  "snd (check_rules match rs st) = (case List.find match rs of None \<Rightarrow> default_deny | Some r \<Rightarrow> from_rule r)"
  by (induction rs) simp_all

lemma sort_key_append_sorted: "sort_key f (sort_key f xs @ ys) = sort_key f (xs @ ys)"
proof (rule properties_for_sort_key)
  have "filter (\<lambda>x. f k = f x) (sort_key f zs) = filter (\<lambda>x. f k = f x) zs" for k zs
    using sort_key_stable [of f "f k" zs] by (simp add: eq_commute)
  then show "filter (\<lambda>x. f k = f x) (sort_key f (xs @ ys)) = filter (\<lambda>x. f k = f x) (sort_key f xs @ ys)" for k by simp
qed simp_all

lemma find_insort_key:
  assumes "sorted (map f xs)"
  shows "List.find P (insort_key f r xs) =
    (case List.find P xs of
       None \<Rightarrow> if P r then Some r else None
     | Some b \<Rightarrow> if P r \<and> f r \<le> f b then Some r else Some b)"
  using assms
proof (induction xs)
  case (Cons x xs)
  have "f x \<le> f b" if "List.find P xs = Some b" for b
    using that Cons.prems by (auto simp: find_Some_iff)
  with Cons show ?case by (fastforce split: option.splits)
qed simp

lemma find_by_priority: "List.find match (by_priority rs) = best_rule match rs"
  by (induction rs) (simp_all add: find_insort_key split: option.splits)

lemma rules_step: "rules p = by_priority rs \<Longrightarrow> rules (policy_step q p) = by_priority (spec_step q rs)"
  by (cases q) (simp_all add: add_rule_def remove_rule_def policy_clear_def set_default_action_def policy_check_def
      check_path_def check_with_def Let_def case_prod_unfold sort_key_append_sorted filter_sort)

lemma rules_run: "rules p = by_priority rs \<Longrightarrow> rules (fold policy_step qs p) = by_priority (fold spec_step qs rs)"
  by (induction qs arbitrary: p rs) (simp_all add: rules_step)

lemma enabled_run: "pol_enabled (fold policy_step qs p) = pol_enabled p"
proof (induction qs arbitrary: p)
  case (Cons q qs)
  have "pol_enabled (policy_step q p) = pol_enabled p"
    by (cases q) (simp_all add: add_rule_def remove_rule_def policy_clear_def set_default_action_def policy_check_def
        check_path_def check_with_def Let_def case_prod_unfold)
  with Cons show ?case by simp
qed simp

lemma check_with_decision:
  "pol_enabled p \<Longrightarrow> rules p = by_priority rs \<Longrightarrow> snd (check_with match p) = spec_decision match rs"
  by (simp add: check_with_def Let_def case_prod_unfold check_rules_find find_by_priority spec_decision_def)

text \<open>The prefix compared by a \<open>/*\<close> pattern does not end at a path separator.\<close>

lemma path_pattern_escapes: "obj_matches_path (ObjPath ''/home/*'') ''/homeless/secret''"
  by (simp add: suffix_def prefix_def)

subsection \<open>Properties\<close>

text \<open>
  C37: The list kept sorted by priority and searched for the first match is equivalent to the reference
  policy: after any additions, removals and checks, both checks decide as the matching rule of
  highest priority among those added and not removed, the earliest of them, or deny when there
  is none, whatever default action was set.
\<close>

theorem policy_check_equivalent:
  "snd (policy_check d t i rt op (fold policy_step qs (policy_new nm))) =
     spec_decision (rule_matches d t i rt op) (fold spec_step qs []) \<and>
   snd (check_path d t path op (fold policy_step qs (policy_new nm))) =
     spec_decision (rule_matches_path d t path op) (fold spec_step qs [])"
proof -
  let ?p = "fold policy_step qs (policy_new nm)"
  have "pol_enabled ?p" by (simp add: enabled_run) (simp add: policy_new_def)
  moreover have "rules ?p = by_priority (fold spec_step qs [])" by (rule rules_run) (simp add: policy_new_def)
  ultimately show ?thesis by (simp add: policy_check_def check_path_def check_with_decision)
qed

end
