(* ===== verification/AuditTrail.thy ===== *)
theory AuditTrail
  imports Prelude
begin

text \<open>
  The audit log (\<open>src/src/security/audit.rs\<close>): event types, events and records, and the bounded log with its
  filters and counters. \<open>bounded_log\<close> is the contract of a log that keeps the latest entries; it is
  shared with the log of the access control module.
\<close>

subsection \<open>The contract of a bounded log\<close>

definition last_n :: "nat \<Rightarrow> 'e list \<Rightarrow> 'e list" where
  "last_n n xs = drop (length xs - n) xs"

lemma length_last_n [simp]: "length (last_n n xs) = min n (length xs)"
  by (simp add: last_n_def)

lemma last_n_all: "length xs \<le> n \<Longrightarrow> last_n n xs = xs"
  by (simp add: last_n_def)

lemma last_n_append: "last_n n (last_n n xs @ ys) = last_n n (xs @ ys)"
proof -
  let ?k = "length xs - n"
  have e: "last_n n xs @ ys = drop ?k (xs @ ys)" by (simp add: last_n_def)
  have "last_n n (drop ?k (xs @ ys)) = drop (length (xs @ ys) - ?k - n + ?k) (xs @ ys)"
    unfolding last_n_def drop_drop length_drop ..
  also have "length (xs @ ys) - ?k - n + ?k = length (xs @ ys) - n" by simp
  finally show ?thesis unfolding e by (simp only: last_n_def)
qed

text \<open>Making room and appending, as both logs do it when they hold at most the maximum.\<close>

lemma last_n_room:
  assumes "length xs \<le> n" and "0 < n"
  shows "(if n \<le> length xs then tl xs else xs) @ [e] = last_n n (xs @ [e])"
  using assms by (cases xs) (auto simp: last_n_def Suc_diff_le)

locale bounded_log =
  fixes entries :: "'l \<Rightarrow> 'e list"
    and limit :: "'l \<Rightarrow> nat"
    and accepts :: "'l \<Rightarrow> 'e \<Rightarrow> bool"
    and append :: "'e \<Rightarrow> 'l \<Rightarrow> 'l"
  assumes append_entries: "0 < limit l \<Longrightarrow> length (entries l) \<le> limit l \<Longrightarrow>
      entries (append e l) = (if accepts l e then last_n (limit l) (entries l @ [e]) else entries l)"
    and append_limit: "limit (append e l) = limit l"
    and append_accepts: "accepts (append e l) = accepts l"
begin

lemma run_entries:
  assumes "0 < limit l" and "length (entries l) \<le> limit l"
  shows "entries (fold append es l) = last_n (limit l) (entries l @ filter (accepts l) es)"
  using assms
proof (induction es arbitrary: l)
  case Nil
  then show ?case by (simp add: last_n_all)
next
  case (Cons e es)
  let ?l = "append e l"
  have s: "limit ?l = limit l" "accepts ?l = accepts l" by (simp_all add: append_limit append_accepts)
  note E = append_entries [OF Cons.prems, of e]
  have "length (entries ?l) \<le> limit ?l" using Cons.prems(2) by (simp add: E s)
  with Cons.IH [of ?l] Cons.prems(1)
  have "entries (fold append es ?l) = last_n (limit l) (entries ?l @ filter (accepts l) es)" by (simp add: s)
  also have "\<dots> = last_n (limit l) (entries l @ filter (accepts l) (e # es))"
    by (simp add: E last_n_append)
  finally show ?case by simp
qed

lemma run_bound:
  "0 < limit l \<Longrightarrow> length (entries l) \<le> limit l \<Longrightarrow> length (entries (fold append es l)) \<le> limit l"
  by (simp add: run_entries)

end

subsection \<open>Events and records\<close>

datatype AuditEventType = DomainCreate | DomainTerminate | DomainContextChange | FileAccess | NetworkAccess | EvMemoryMap
  | IpcOperation | EvMacDecision | CapabilityCheck | PermissionDenied | PrivilegeEscalation
  | EvSyscall | ModuleLoad | ConfigChange | LoginAttempt | Logout | AuthFailure

fun event_name :: "AuditEventType \<Rightarrow> string" where
  "event_name DomainCreate = ''DOMAIN_CREATE''"
| "event_name DomainTerminate = ''DOMAIN_TERMINATE''"
| "event_name DomainContextChange = ''DOMAIN_CONTEXT_CHANGE''"
| "event_name FileAccess = ''FILE_ACCESS''"
| "event_name NetworkAccess = ''NETWORK_ACCESS''"
| "event_name EvMemoryMap = ''MEMORY_MAP''"
| "event_name IpcOperation = ''IPC_OPERATION''"
| "event_name EvMacDecision = ''MAC_DECISION''"
| "event_name CapabilityCheck = ''CAPABILITY_CHECK''"
| "event_name PermissionDenied = ''PERMISSION_DENIED''"
| "event_name PrivilegeEscalation = ''PRIVILEGE_ESCALATION''"
| "event_name EvSyscall = ''SYSCALL''"
| "event_name ModuleLoad = ''MODULE_LOAD''"
| "event_name ConfigChange = ''CONFIG_CHANGE''"
| "event_name LoginAttempt = ''LOGIN_ATTEMPT''"
| "event_name Logout = ''LOGOUT''"
| "event_name AuthFailure = ''AUTH_FAILURE''"

fun is_critical :: "AuditEventType \<Rightarrow> bool" where
  "is_critical PrivilegeEscalation = True"
| "is_critical PermissionDenied = True"
| "is_critical AuthFailure = True"
| "is_critical ModuleLoad = True"
| "is_critical _ = False"

record AuditRecord =
  ar_id :: u64
  timestamp :: u64
  ar_event_type :: AuditEventType
  ar_domain_id :: DomainId
  ar_success :: bool
  ar_message :: string
  ar_fields :: "(string \<times> string) list"

text \<open>\<open>AuditRecord::new\<close>; the record number comes from the counter \<open>NEXT_ID\<close>, the time from the timer.\<close>

definition record_new :: "u64 \<Rightarrow> u64 \<Rightarrow> AuditEventType \<Rightarrow> DomainId \<Rightarrow> bool \<Rightarrow> AuditRecord" where
  "record_new i tick t d ok = \<lparr>ar_id = i, timestamp = tick, ar_event_type = t, ar_domain_id = d, ar_success = ok,
     ar_message = [], ar_fields = []\<rparr>"

definition with_message :: "string \<Rightarrow> AuditRecord \<Rightarrow> AuditRecord" where
  "with_message msg r = r\<lparr>ar_message := msg\<rparr>"

definition with_field :: "string \<Rightarrow> string \<Rightarrow> AuditRecord \<Rightarrow> AuditRecord" where
  "with_field k v r = r\<lparr>ar_fields := ar_fields r @ [(k, v)]\<rparr>"

definition format_record :: "AuditRecord \<Rightarrow> string" where
  "format_record r =
     ''audit('' @ decimal (timestamp r) @ '':'' @ decimal (ar_id r) @ ''): type='' @ event_name (ar_event_type r) @
     '' domain='' @ decimal (ar_domain_id r) @ '' success='' @ (if ar_success r then ''yes'' else ''no'') @
     (if ar_message r \<noteq> [] then '' msg='' @ [CHR 0x22] @ ar_message r @ [CHR 0x22] else []) @
     concat (map (\<lambda>(k, v). '' '' @ k @ ''='' @ v) (ar_fields r))"

record AuditEvent =
  ev_event_type :: AuditEventType
  ev_domain_id :: DomainId
  ev_success :: bool
  ev_message :: "string option"
  ev_fields :: "(string \<times> string) list"

definition event_new :: "AuditEventType \<Rightarrow> DomainId \<Rightarrow> AuditEvent" where
  "event_new t d = \<lparr>ev_event_type = t, ev_domain_id = d, ev_success = True, ev_message = None, ev_fields = []\<rparr>"

definition event_success :: "bool \<Rightarrow> AuditEvent \<Rightarrow> AuditEvent" where
  "event_success b e = e\<lparr>ev_success := b\<rparr>"

definition event_message :: "string \<Rightarrow> AuditEvent \<Rightarrow> AuditEvent" where
  "event_message msg e = e\<lparr>ev_message := Some msg\<rparr>"

definition event_field :: "string \<Rightarrow> string \<Rightarrow> AuditEvent \<Rightarrow> AuditEvent" where
  "event_field k v e = e\<lparr>ev_fields := ev_fields e @ [(k, v)]\<rparr>"

definition to_record :: "u64 \<Rightarrow> u64 \<Rightarrow> AuditEvent \<Rightarrow> AuditRecord" where
  "to_record i tick e =
     (let r = record_new i tick (ev_event_type e) (ev_domain_id e) (ev_success e);
          r' = (case ev_message e of None \<Rightarrow> r | Some msg \<Rightarrow> r\<lparr>ar_message := msg\<rparr>)
      in r'\<lparr>ar_fields := ev_fields e\<rparr>)"

subsection \<open>The log\<close>

text \<open>With the counter of record numbers and what has been printed on the console.\<close>

record AuditLog =
  records :: "AuditRecord list"
  max_records :: usize
  al_enabled :: bool
  total_records :: u64
  dropped_records :: u64
  critical_only :: bool
  next_record_id :: u64
  al_console :: "string list"

definition al_new :: "usize \<Rightarrow> AuditLog" where
  "al_new n = \<lparr>records = [], max_records = n, al_enabled = True, total_records = 0, dropped_records = 0,
     critical_only = False, next_record_id = 1, al_console = []\<rparr>"

text \<open>\<open>log_record\<close>; \<open>pop_front\<close> on an empty deque leaves it empty.\<close>

definition log_record :: "AuditRecord \<Rightarrow> AuditLog \<Rightarrow> AuditLog" where
  "log_record r l =
     (if \<not> al_enabled l then l
      else if critical_only l \<and> \<not> is_critical (ar_event_type r) then l
      else let l1 = (if is_critical (ar_event_type r)
                     then l\<lparr>al_console := al_console l @ [''[AUDIT] '' @ format_record r @ [CHR 0x0A]]\<rparr> else l);
               l2 = (if max_records l1 \<le> length (records l1)
                     then l1\<lparr>records := tl (records l1), dropped_records := wadd64 (dropped_records l1) 1\<rparr> else l1)
           in l2\<lparr>records := records l2 @ [r], total_records := wadd64 (total_records l2) 1\<rparr>)"

definition log_event :: "u64 \<Rightarrow> AuditEvent \<Rightarrow> AuditLog \<Rightarrow> AuditLog" where
  "log_event tick e l =
     (if \<not> al_enabled l then l
      else if critical_only l \<and> \<not> is_critical (ev_event_type e) then l
      else let r = to_record (next_record_id l) tick e;
               l0 = l\<lparr>next_record_id := wadd64 (next_record_id l) 1\<rparr>;
               l1 = (if is_critical (ev_event_type e)
                     then l0\<lparr>al_console := al_console l0 @ [''[AUDIT] '' @ format_record r @ [CHR 0x0A]]\<rparr> else l0);
               l2 = (if max_records l1 \<le> length (records l1)
                     then l1\<lparr>records := tl (records l1), dropped_records := wadd64 (dropped_records l1) 1\<rparr> else l1)
           in l2\<lparr>records := records l2 @ [r], total_records := wadd64 (total_records l2) 1\<rparr>)"

definition get_by_type :: "AuditEventType \<Rightarrow> AuditLog \<Rightarrow> AuditRecord list" where
  "get_by_type t l = filter (\<lambda>r. ar_event_type r = t) (records l)"

definition get_by_domain :: "DomainId \<Rightarrow> AuditLog \<Rightarrow> AuditRecord list" where
  "get_by_domain d l = filter (\<lambda>r. ar_domain_id r = d) (records l)"

definition get_failures :: "AuditLog \<Rightarrow> AuditRecord list" where
  "get_failures l = filter (\<lambda>r. \<not> ar_success r) (records l)"

definition al_clear :: "AuditLog \<Rightarrow> AuditLog" where
  "al_clear l = l\<lparr>records := []\<rparr>"

definition al_set_enabled :: "bool \<Rightarrow> AuditLog \<Rightarrow> AuditLog" where
  "al_set_enabled b l = l\<lparr>al_enabled := b\<rparr>"

definition set_critical_only :: "bool \<Rightarrow> AuditLog \<Rightarrow> AuditLog" where
  "set_critical_only b l = l\<lparr>critical_only := b\<rparr>"

record AuditStats =
  as_total_records :: u64
  as_dropped_records :: u64
  as_current_records :: u64
  as_max_records :: u64

definition al_stats :: "AuditLog \<Rightarrow> AuditStats" where
  "al_stats l = \<lparr>as_total_records = total_records l, as_dropped_records = dropped_records l,
     as_current_records = length (records l), as_max_records = max_records l\<rparr>"

subsection \<open>The log keeps the latest records\<close>

definition al_accepts :: "AuditLog \<Rightarrow> AuditRecord \<Rightarrow> bool" where
  "al_accepts l r = (al_enabled l \<and> (critical_only l \<longrightarrow> is_critical (ar_event_type r)))"

lemma log_record_simps [simp]:
  "max_records (log_record r l) = max_records l" "al_enabled (log_record r l) = al_enabled l"
  "critical_only (log_record r l) = critical_only l" "next_record_id (log_record r l) = next_record_id l"
  by (simp_all add: log_record_def Let_def)

lemma log_record_records:
  "records (log_record r l) =
     (if al_accepts l r then (if max_records l \<le> length (records l) then tl (records l) else records l) @ [r] else records l)"
  by (simp add: log_record_def Let_def al_accepts_def)

interpretation audit: bounded_log records max_records al_accepts log_record
proof unfold_locales
  show "records (log_record e l) = (if al_accepts l e then last_n (max_records l) (records l @ [e]) else records l)"
    if "0 < max_records l" and "length (records l) \<le> max_records l" for e l
    unfolding log_record_records last_n_room [OF that(2,1)] ..
qed (simp_all add: al_accepts_def fun_eq_iff)

text \<open>Logging an event is logging the record made from it, with the next number.\<close>

lemma to_record_simps [simp]: "ar_event_type (to_record i tick e) = ev_event_type e" "ar_id (to_record i tick e) = i"
  by (simp_all add: to_record_def record_new_def Let_def split: option.splits)

lemma log_event_record:
  "log_event tick e l =
     (if al_accepts l (to_record (next_record_id l) tick e)
      then log_record (to_record (next_record_id l) tick e) (l\<lparr>next_record_id := wadd64 (next_record_id l) 1\<rparr>) else l)"
  by (simp add: log_event_def log_record_def al_accepts_def Let_def)

datatype audit_op = LogEvent u64 AuditEvent | LogRecord AuditRecord

fun audit_step :: "audit_op \<Rightarrow> AuditLog \<Rightarrow> AuditLog" where
  "audit_step (LogEvent tick e) l = log_event tick e l"
| "audit_step (LogRecord r) l = log_record r l"

text \<open>The records a sequence of calls adds; a number is used up only by an accepted event.\<close>

fun accepted :: "(AuditRecord \<Rightarrow> bool) \<Rightarrow> u64 \<Rightarrow> audit_op list \<Rightarrow> AuditRecord list" where
  "accepted ok i [] = []"
| "accepted ok i (LogRecord r # qs) = (if ok r then r # accepted ok i qs else accepted ok i qs)"
| "accepted ok i (LogEvent tick e # qs) =
     (let r = to_record i tick e in if ok r then r # accepted ok (wadd64 i 1) qs else accepted ok i qs)"

definition log_balanced :: "AuditLog \<Rightarrow> bool" where
  "log_balanced l = (0 < max_records l \<and> length (records l) \<le> max_records l \<and>
     total_records l = (dropped_records l + length (records l)) mod U64_MOD)"

lemma log_record_balanced:
  assumes "log_balanced l"
  shows "log_balanced (log_record r l)"
proof -
  have "records l \<noteq> []" if "max_records l \<le> length (records l)" using assms that by (auto simp: log_balanced_def)
  with assms show ?thesis
    by (auto simp: log_balanced_def log_record_def Let_def wadd64_def mod_simps)
qed

lemma log_record_accepted:
  assumes "log_balanced l"
  shows "records (log_record r l) = last_n (max_records l) (records l @ (if al_accepts l r then [r] else []))"
    and "al_accepts (log_record r l) = al_accepts l"
  using assms audit.append_entries [of l r] by (auto simp: log_balanced_def last_n_all al_accepts_def fun_eq_iff)

lemma audit_run:
  assumes "log_balanced l"
  shows "log_balanced (fold audit_step qs l) \<and> max_records (fold audit_step qs l) = max_records l \<and>
    records (fold audit_step qs l) = last_n (max_records l) (records l @ accepted (al_accepts l) (next_record_id l) qs)"
  using assms
proof (induction qs arbitrary: l)
  case Nil
  then show ?case by (simp add: log_balanced_def last_n_all)
next
  case (Cons q qs)
  have step: "log_balanced (log_record r k) \<and> max_records (fold audit_step qs (log_record r k)) = max_records k \<and>
      log_balanced (fold audit_step qs (log_record r k)) \<and>
      records (fold audit_step qs (log_record r k)) =
      last_n (max_records k) (records k @ (if al_accepts k r then [r] else []) @ accepted (al_accepts k) (next_record_id k) qs)"
    if "log_balanced k" for r k
    using Cons.IH [OF log_record_balanced [OF that, of r]] log_record_balanced [OF that, of r] log_record_accepted [OF that, of r]
    by (simp add: last_n_append append_assoc [symmetric] del: append_assoc)
  show ?case
  proof (cases q)
    case (LogRecord r)
    with step [OF Cons.prems, of r] show ?thesis by (auto split: if_splits)
  next
    case (LogEvent tick e)
    let ?k = "l\<lparr>next_record_id := wadd64 (next_record_id l) 1\<rparr>" and ?r = "to_record (next_record_id l) tick e"
    have k: "log_balanced ?k" "al_accepts ?k = al_accepts l" using Cons.prems by (simp_all add: log_balanced_def al_accepts_def fun_eq_iff)
    from step [OF k(1), of ?r] Cons.IH [OF Cons.prems] LogEvent show ?thesis
      unfolding k(2) by (simp add: log_event_record Let_def)
  qed
qed

subsection \<open>Properties\<close>

text \<open>
  C38: The audit log keeps exactly the latest accepted records, never more than its maximum, whatever mix of
  events and ready records is logged; the total is the number kept plus the number dropped,
  modulo the counter width.
\<close>

theorem audit_log_keeps_latest:
  fixes b :: bool and n :: usize
  assumes "0 < n"
  defines "l \<equiv> set_critical_only b (al_new n)"
  shows "records (fold audit_step qs l) = last_n n (accepted (\<lambda>r. b \<longrightarrow> is_critical (ar_event_type r)) 1 qs) \<and>
    length (records (fold audit_step qs l)) \<le> n \<and>
    as_total_records (al_stats (fold audit_step qs l)) =
      (as_dropped_records (al_stats (fold audit_step qs l)) + as_current_records (al_stats (fold audit_step qs l))) mod U64_MOD"
proof -
  have "log_balanced l" using assms by (simp add: l_def log_balanced_def set_critical_only_def al_new_def)
  note R = audit_run [OF this, of qs]
  have "al_accepts l = (\<lambda>r. b \<longrightarrow> is_critical (ar_event_type r))" "max_records l = n" "records l = []" "next_record_id l = 1"
    by (simp_all add: l_def al_accepts_def set_critical_only_def al_new_def fun_eq_iff)
  with R show ?thesis by (simp add: log_balanced_def al_stats_def)
qed

theorem audit_log_keeps_latest_witness:
  "map ar_domain_id (records (fold audit_step [LogEvent 1 (event_new AuthFailure 3), LogEvent 2 (event_new Logout 4),
       LogEvent 3 (event_new ModuleLoad 5), LogEvent 4 (event_new AuthFailure 6)] (set_critical_only True (al_new 2)))) = [5, 6]"
proof -
  let ?qs = "[LogEvent 1 (event_new AuthFailure 3), LogEvent 2 (event_new Logout 4),
       LogEvent 3 (event_new ModuleLoad 5), LogEvent 4 (event_new AuthFailure 6)]"
  have "0 < (2::nat)" by simp
  from audit_log_keeps_latest [OF this, of ?qs True]
  have "records (fold audit_step ?qs (set_critical_only True (al_new 2))) =
      last_n 2 (accepted (\<lambda>r. True \<longrightarrow> is_critical (ar_event_type r)) 1 ?qs)" by blast
  moreover have "map ar_domain_id (last_n 2 (accepted (\<lambda>r. True \<longrightarrow> is_critical (ar_event_type r)) 1 ?qs)) = [5, 6]" by code_simp
  ultimately show ?thesis by (simp only:)
qed

end
