(* ===== verification/Access.thy ===== *)
theory Access
  imports AssocVec AuditTrail
begin

text \<open>
  The security framework (\<open>src/src/security/mod.rs\<close>): rights of domains and their check, the barrier for
  transfers between domains, the counters of trusted code and the event log. The ratio of trusted
  code, a floating-point number, is left out.
\<close>

subsection \<open>Rights\<close>

record SecurityCapabilities =
  can_call_kernel_api :: bool
  can_map_memory :: bool
  can_access_io :: bool
  can_register_interrupts :: bool
  can_ipc :: bool
  allows_unsafe :: bool
  can_network :: bool
  can_filesystem :: bool

definition SANDBOXED :: SecurityCapabilities where
  "SANDBOXED = \<lparr>can_call_kernel_api = False, can_map_memory = False, can_access_io = False,
     can_register_interrupts = False, can_ipc = False, allows_unsafe = False, can_network = False, can_filesystem = False\<rparr>"

definition USER_APP :: SecurityCapabilities where
  "USER_APP = \<lparr>can_call_kernel_api = True, can_map_memory = False, can_access_io = False,
     can_register_interrupts = False, can_ipc = True, allows_unsafe = False, can_network = True, can_filesystem = True\<rparr>"

definition DRIVER :: SecurityCapabilities where
  "DRIVER = \<lparr>can_call_kernel_api = True, can_map_memory = True, can_access_io = True,
     can_register_interrupts = True, can_ipc = True, allows_unsafe = True, can_network = False, can_filesystem = False\<rparr>"

definition KERNEL_CAPS :: SecurityCapabilities where
  "KERNEL_CAPS = \<lparr>can_call_kernel_api = True, can_map_memory = True, can_access_io = True,
     can_register_interrupts = True, can_ipc = True, allows_unsafe = True, can_network = True, can_filesystem = True\<rparr>"

datatype TrustLevel = Untrusted | SafeRust | AuditedUnsafe | Framework | KernelCore

fun trust_num :: "TrustLevel \<Rightarrow> nat" where
  "trust_num Untrusted = 0"
| "trust_num SafeRust = 1"
| "trust_num AuditedUnsafe = 2"
| "trust_num Framework = 3"
| "trust_num KernelCore = 4"

definition has_privilege_over :: "TrustLevel \<Rightarrow> TrustLevel \<Rightarrow> bool" where
  "has_privilege_over self other = (trust_num other \<le> trust_num self)"

subsection \<open>The access control manager\<close>

record SecurityViolation =
  sv_domain_id :: u64
  sv_operation :: string

text \<open>With the lines printed on the console.\<close>

record AccessControlManager =
  domain_caps :: "(u64 \<times> SecurityCapabilities) list"
  violations :: u64
  audit_enabled :: bool
  ac_console :: "string list"

definition ac_new :: AccessControlManager where
  "ac_new = \<lparr>domain_caps = [], violations = 0, audit_enabled = True, ac_console = []\<rparr>"

definition ac_set_capabilities :: "u64 \<Rightarrow> SecurityCapabilities \<Rightarrow> AccessControlManager \<Rightarrow> AccessControlManager" where
  "ac_set_capabilities d caps m = m\<lparr>domain_caps := av_set d caps (domain_caps m)\<rparr>"

definition ac_get_capabilities :: "u64 \<Rightarrow> AccessControlManager \<Rightarrow> SecurityCapabilities" where
  "ac_get_capabilities d m = (case av_get (domain_caps m) d of None \<Rightarrow> SANDBOXED | Some caps \<Rightarrow> caps)"

definition violation :: "u64 \<Rightarrow> string \<Rightarrow> AccessControlManager \<Rightarrow> AccessControlManager \<times> (SecurityViolation + unit)" where
  "violation d op m =
     (let m1 = m\<lparr>violations := wadd64 (violations m) 1\<rparr>;
          m2 = (if audit_enabled m1
                then m1\<lparr>ac_console := ac_console m1 @
                  [''[SECURITY] Violation: domain '' @ decimal d @ '' attempted '' @ op @ [CHR 0x0A]]\<rparr> else m1)
      in (m2, Inl \<lparr>sv_domain_id = d, sv_operation = op\<rparr>))"

definition check_permission ::
  "u64 \<Rightarrow> SecurityCapabilities \<Rightarrow> AccessControlManager \<Rightarrow> AccessControlManager \<times> (SecurityViolation + unit)" where
  "check_permission d required m =
     (let actual = ac_get_capabilities d m
      in if can_call_kernel_api required \<and> \<not> can_call_kernel_api actual then violation d ''kernel API call'' m
         else if can_map_memory required \<and> \<not> can_map_memory actual then violation d ''memory mapping'' m
         else if can_access_io required \<and> \<not> can_access_io actual then violation d ''I/O access'' m
         else if can_register_interrupts required \<and> \<not> can_register_interrupts actual then violation d ''interrupt registration'' m
         else if can_ipc required \<and> \<not> can_ipc actual then violation d ''IPC'' m
         else if allows_unsafe required \<and> \<not> allows_unsafe actual then violation d ''unsafe code'' m
         else if can_network required \<and> \<not> can_network actual then violation d ''network access'' m
         else if can_filesystem required \<and> \<not> can_filesystem actual then violation d ''filesystem access'' m
         else (m, Inr ()))"

definition violation_count :: "AccessControlManager \<Rightarrow> u64" where
  "violation_count m = violations m"

definition security_init :: "AccessControlManager \<Rightarrow> AccessControlManager" where
  "security_init m =
     (ac_set_capabilities 0 KERNEL_CAPS m)\<lparr>ac_console := ac_console m @
        [''[SECURITY] Security framework initialized'' @ [CHR 0x0A], ''[SECURITY] Audit logging: enabled'' @ [CHR 0x0A]]\<rparr>"

subsection \<open>The transfer barrier\<close>

datatype TransferSecurityError = NullPointer | SizeTooLarge | AddressOverflow | TransferAccessDenied

record ZeroCopySecurityBarrier =
  bytes_transferred :: u64
  transfers_denied :: u64

definition barrier_new :: ZeroCopySecurityBarrier where
  "barrier_new = \<lparr>bytes_transferred = 0, transfers_denied = 0\<rparr>"

definition MAX_TRANSFER_SIZE :: usize where "MAX_TRANSFER_SIZE = 2 ^ 30"

definition check_transfer ::
  "u64 \<Rightarrow> u64 \<Rightarrow> usize \<Rightarrow> usize \<Rightarrow> ZeroCopySecurityBarrier \<Rightarrow> ZeroCopySecurityBarrier \<times> (TransferSecurityError + unit)" where
  "check_transfer from_domain to_domain ptr sz b =
     (let deny = b\<lparr>transfers_denied := wadd64 (transfers_denied b) 1\<rparr>;
          allow = b\<lparr>bytes_transferred := wadd64 (bytes_transferred b) sz\<rparr>
      in if ptr = 0 then (deny, Inl NullPointer)
         else if sz > MAX_TRANSFER_SIZE then (deny, Inl SizeTooLarge)
         else if from_domain = to_domain then (allow, Inr ())
         else if U64_MOD \<le> ptr + sz then (deny, Inl AddressOverflow)
         else (allow, Inr ()))"

record ZeroCopyStats =
  zs_bytes_transferred :: u64
  zs_transfers_denied :: u64

definition barrier_stats :: "ZeroCopySecurityBarrier \<Rightarrow> ZeroCopyStats" where
  "barrier_stats b = \<lparr>zs_bytes_transferred = bytes_transferred b, zs_transfers_denied = transfers_denied b\<rparr>"

text \<open>
  The transfer barrier lets a transfer between domains through exactly when the pointer is not null,
  the size is at most one gigabyte and the range ends within the address space; a transfer inside
  one domain is let through even when its range wraps around. Every decision moves exactly one
  of the two counters.
\<close>

lemma check_transfer_bounds:
  "(snd (check_transfer a b ptr sz z) = Inr () \<longleftrightarrow>
      0 < ptr \<and> sz \<le> 2 ^ 30 \<and> (a = b \<or> ptr + sz < 2 ^ 64)) \<and>
   (case check_transfer a b ptr sz z of
      (z', Inr _) \<Rightarrow> transfers_denied z' = transfers_denied z \<and> bytes_transferred z' = wadd64 (bytes_transferred z) sz
    | (z', Inl _) \<Rightarrow> bytes_transferred z' = bytes_transferred z \<and> transfers_denied z' = wadd64 (transfers_denied z) 1)"
  by (auto simp: check_transfer_def Let_def MAX_TRANSFER_SIZE_def U64_MOD_def)

subsection \<open>Counters of trusted code\<close>

record TcbTracker =
  unsafe_blocks :: u64
  unsafe_functions :: u64
  framework_loc :: u64
  safe_loc :: u64

definition tcb_new :: TcbTracker where
  "tcb_new = \<lparr>unsafe_blocks = 0, unsafe_functions = 0, framework_loc = 0, safe_loc = 0\<rparr>"

definition register_unsafe_block :: "TcbTracker \<Rightarrow> TcbTracker" where
  "register_unsafe_block t = t\<lparr>unsafe_blocks := wadd64 (unsafe_blocks t) 1\<rparr>"

definition register_unsafe_function :: "TcbTracker \<Rightarrow> TcbTracker" where
  "register_unsafe_function t = t\<lparr>unsafe_functions := wadd64 (unsafe_functions t) 1\<rparr>"

subsection \<open>The event log\<close>

datatype SecEventType = DomainCreated | DomainTerminated | PrivilegeEscalationAttempt | IpcTransfer | SecMemoryMap
  | InterruptRegistration | SecSecurityViolation

record SecEvent =
  se_timestamp :: u64
  se_event_type :: SecEventType
  se_domain_id :: u64
  se_details :: "string option"

record SecLog =
  sl_events :: "SecEvent list"
  max_events :: usize
  sl_enabled :: bool

definition sl_new :: "usize \<Rightarrow> SecLog" where
  "sl_new n = \<lparr>sl_events = [], max_events = n, sl_enabled = True\<rparr>"

text \<open>\<open>log\<close>; \<open>remove(0)\<close> on an empty vector panics, \<open>None\<close>.\<close>

definition sl_log :: "SecEvent \<Rightarrow> SecLog \<Rightarrow> SecLog option" where
  "sl_log e l =
     (if \<not> sl_enabled l then Some l
      else if max_events l \<le> length (sl_events l) then
        (case sl_events l of [] \<Rightarrow> None | _ # es \<Rightarrow> Some (l\<lparr>sl_events := es @ [e]\<rparr>))
      else Some (l\<lparr>sl_events := sl_events l @ [e]\<rparr>))"

definition sl_clear :: "SecLog \<Rightarrow> SecLog" where
  "sl_clear l = l\<lparr>sl_events := []\<rparr>"

definition sl_set_enabled :: "bool \<Rightarrow> SecLog \<Rightarrow> SecLog" where
  "sl_set_enabled b l = l\<lparr>sl_enabled := b\<rparr>"

text \<open>A log made for at least one event never panics and keeps the latest events.\<close>

lemma sl_log_total: "0 < max_events l \<Longrightarrow> \<exists>l'. sl_log e l = Some l'"
  by (auto simp: sl_log_def split: list.splits)

definition sl_append :: "SecEvent \<Rightarrow> SecLog \<Rightarrow> SecLog" where
  "sl_append e l = (case sl_log e l of None \<Rightarrow> l | Some l' \<Rightarrow> l')"

lemma sl_append_events:
  "0 < max_events l \<Longrightarrow> sl_events (sl_append e l) =
     (if sl_enabled l then (if max_events l \<le> length (sl_events l) then tl (sl_events l) else sl_events l) @ [e] else sl_events l)"
  by (auto simp: sl_append_def sl_log_def split: list.splits)

lemma sl_append_simps [simp]: "max_events (sl_append e l) = max_events l" "sl_enabled (sl_append e l) = sl_enabled l"
  by (auto simp: sl_append_def sl_log_def split: list.splits option.splits if_splits)

interpretation sec_log: bounded_log sl_events max_events "\<lambda>l _. sl_enabled l" sl_append
proof unfold_locales
  show "sl_events (sl_append e l) = (if sl_enabled l then last_n (max_events l) (sl_events l @ [e]) else sl_events l)"
    if "0 < max_events l" and "length (sl_events l) \<le> max_events l" for e l
    unfolding sl_append_events [OF that(1)] last_n_room [OF that(2,1)] ..
qed simp_all

lemma sl_zero_panics: "sl_log e (sl_new 0) = None"
  by (simp add: sl_log_def sl_new_def)

subsection \<open>Sequences of settings and checks\<close>

text \<open>The rights a check asks for and the domain lacks, in the order they are checked.\<close>

definition missing_rights :: "SecurityCapabilities \<Rightarrow> SecurityCapabilities \<Rightarrow> string list" where
  "missing_rights required actual =
     concat (map (\<lambda>(right, nm). if right required \<and> \<not> right actual then [nm] else [])
       [(can_call_kernel_api, ''kernel API call''), (can_map_memory, ''memory mapping''), (can_access_io, ''I/O access''),
        (can_register_interrupts, ''interrupt registration''), (can_ipc, ''IPC''), (allows_unsafe, ''unsafe code''),
        (can_network, ''network access''), (can_filesystem, ''filesystem access'')])"

lemma check_permission_missing:
  "check_permission d required m =
     (case missing_rights required (ac_get_capabilities d m) of [] \<Rightarrow> (m, Inr ()) | op # _ \<Rightarrow> violation d op m)"
  by (simp add: check_permission_def missing_rights_def Let_def)

datatype ac_op = AcSet u64 SecurityCapabilities | AcCheck u64 SecurityCapabilities

fun ac_step :: "ac_op \<Rightarrow> AccessControlManager \<Rightarrow> AccessControlManager" where
  "ac_step (AcSet d caps) m = ac_set_capabilities d caps m"
| "ac_step (AcCheck d required) m = fst (check_permission d required m)"

text \<open>The rights a domain was given last, and the checks that are refused.\<close>

fun given :: "ac_op list \<Rightarrow> (u64 \<Rightarrow> SecurityCapabilities) \<Rightarrow> u64 \<Rightarrow> SecurityCapabilities" where
  "given [] g = g"
| "given (AcSet d caps # qs) g = given qs (g(d := caps))"
| "given (AcCheck _ _ # qs) g = given qs g"

fun refusals :: "ac_op list \<Rightarrow> (u64 \<Rightarrow> SecurityCapabilities) \<Rightarrow> nat" where
  "refusals [] g = 0"
| "refusals (AcSet d caps # qs) g = refusals qs (g(d := caps))"
| "refusals (AcCheck d required # qs) g = (if missing_rights required (g d) = [] then 0 else 1) + refusals qs g"

lemma violation_simps [simp]:
  "domain_caps (fst (violation d op m)) = domain_caps m" "violations (fst (violation d op m)) = wadd64 (violations m) 1"
  "snd (violation d op m) = Inl \<lparr>sv_domain_id = d, sv_operation = op\<rparr>"
  by (simp_all add: violation_def Let_def)

lemma get_set_capabilities: "(\<lambda>e. ac_get_capabilities e (ac_set_capabilities d caps m)) = (\<lambda>e. ac_get_capabilities e m)(d := caps)"
  by (simp add: ac_get_capabilities_def ac_set_capabilities_def fun_eq_iff)

lemma get_check_permission: "ac_get_capabilities e (fst (check_permission d required m)) = ac_get_capabilities e m"
  by (simp add: check_permission_missing ac_get_capabilities_def split: list.splits)

lemma ac_run:
  "(\<lambda>e. ac_get_capabilities e (fold ac_step qs m)) = given qs (\<lambda>e. ac_get_capabilities e m) \<and>
   (violations m < U64_MOD \<longrightarrow>
     violations (fold ac_step qs m) = (violations m + refusals qs (\<lambda>e. ac_get_capabilities e m)) mod U64_MOD)"
proof (induction qs arbitrary: m)
  case (Cons q qs)
  show ?case
  proof (cases q)
    case (AcSet d caps)
    with Cons.IH [of "ac_set_capabilities d caps m"] show ?thesis
      by (simp add: get_set_capabilities) (simp add: ac_set_capabilities_def)
  next
    case (AcCheck d required)
    have "violations (fst (check_permission d required m)) =
        (violations m + (if missing_rights required (ac_get_capabilities d m) = [] then 0 else 1)) mod U64_MOD"
      if "violations m < U64_MOD" using that by (auto simp: check_permission_missing wadd64_def split: list.splits)
    with Cons.IH [of "fst (check_permission d required m)"] AcCheck show ?thesis
      by (auto simp: get_check_permission mod_simps add.assoc)
  qed
qed simp

subsection \<open>Properties\<close>

text \<open>
  After any sequence of settings and checks, a check succeeds exactly when the rights last given to
  the domain cover the required ones, none if it was given none; otherwise it names the first
  missing right. The violation count is the number of checks refused, modulo the counter width.
\<close>

lemma access_checks_exact:
  defines "m \<equiv> \<lambda>qs. fold ac_step qs (security_init ac_new)"
  defines "g \<equiv> (\<lambda>_. SANDBOXED)(0 := KERNEL_CAPS)"
  shows "snd (check_permission d required (m qs)) =
      (case missing_rights required (given qs g d) of
         [] \<Rightarrow> Inr ()
       | op # _ \<Rightarrow> Inl \<lparr>sv_domain_id = d, sv_operation = op\<rparr>) \<and>
    violation_count (m qs) = refusals qs g mod U64_MOD"
proof -
  have i: "(\<lambda>e. ac_get_capabilities e (security_init ac_new)) = g" "violations (security_init ac_new) = 0"
    by (auto simp: g_def security_init_def ac_set_capabilities_def ac_get_capabilities_def ac_new_def av_get_def fun_eq_iff)
  note R = ac_run [of qs "security_init ac_new", unfolded i, folded m_def]
  have "ac_get_capabilities d (m qs) = given qs g d" using R by (simp add: fun_eq_iff m_def)
  with R show ?thesis by (auto simp: check_permission_missing violation_count_def m_def split: list.splits)
qed

end
