(* ===== verification/Slab.thy ===== *)
theory Slab
  imports Buddy FreeChain ExchangeHeap
begin

text \<open>
  The slab caches (\<open>src/src/mm/slab_cache.rs\<close>) over the buddy allocator and the linear mapping
  (\<open>src/src/mm/mapping.rs\<close>): per core and size class a free list threaded through the free objects, filled
  a page at a time with frames of the buddy allocator. The global allocator, which serves what is
  too large for a slab, is a parameter with its state. The caches and the buddy allocator together
  are an allocator in the sense of \<open>frame_pool\<close>.
\<close>

subsection \<open>The linear mapping\<close>

definition PHYSICAL_MEMORY_OFFSET :: u64 where "PHYSICAL_MEMORY_OFFSET = 0xFFFF800000000000"

definition phys_to_virt :: "u64 \<Rightarrow> u64" where
  "phys_to_virt phys = wadd64 phys PHYSICAL_MEMORY_OFFSET"

definition virt_to_phys :: "u64 \<Rightarrow> u64" where
  "virt_to_phys virt = wsub64 virt PHYSICAL_MEMORY_OFFSET"

subsection \<open>One cache\<close>

definition SLAB_SIZES :: "usize list" where "SLAB_SIZES = [8, 16, 32, 64, 128, 256, 512, 1024]"
definition SLAB_PAGE_SIZE :: usize where "SLAB_PAGE_SIZE = 4096"
definition CACHE_LINE_SIZE :: usize where "CACHE_LINE_SIZE = 64"
definition SIZE_OF_FREE_NODE :: usize where "SIZE_OF_FREE_NODE = 8"

text \<open>The \<open>next\<close> field of the node at an address.\<close>

type_synonym nodes = "usize \<Rightarrow> usize option"

record SlabFreeList =
  sfl_head :: "usize option"
  sfl_count :: usize

definition sfl_new :: SlabFreeList where
  "sfl_new = \<lparr>sfl_head = None, sfl_count = 0\<rparr>"

definition sfl_push :: "usize \<Rightarrow> nodes \<times> SlabFreeList \<Rightarrow> nodes \<times> SlabFreeList" where
  "sfl_push ptr = (\<lambda>(nx, fl). (nx(ptr := sfl_head fl), fl\<lparr>sfl_head := Some ptr, sfl_count := wadd64 (sfl_count fl) 1\<rparr>))"

definition sfl_pop :: "nodes \<Rightarrow> SlabFreeList \<Rightarrow> SlabFreeList \<times> usize option" where
  "sfl_pop nx fl =
     (case sfl_head fl of
        None \<Rightarrow> (fl, None)
      | Some node \<Rightarrow> (fl\<lparr>sfl_head := nx node, sfl_count := wsub64 (sfl_count fl) 1\<rparr>, Some node))"

record SlabCache =
  object_size :: usize
  slab_list :: SlabFreeList
  pages :: "usize list"
  alloc_count :: usize
  dealloc_count :: usize

definition slab_new :: "usize \<Rightarrow> SlabCache" where
  "slab_new n =
     (let aligned_size = (n + CACHE_LINE_SIZE - 1) div CACHE_LINE_SIZE * CACHE_LINE_SIZE
      in \<lparr>object_size = max aligned_size SIZE_OF_FREE_NODE, slab_list = sfl_new, pages = [], alloc_count = 0, dealloc_count = 0\<rparr>)"

definition slab_grow ::
  "SlabCache \<Rightarrow> nodes \<Rightarrow> BuddyFrameAllocator \<Rightarrow> SlabCache \<times> nodes \<times> BuddyFrameAllocator \<times> unit option" where
  "slab_grow c nx b =
     (case allocate_4k_frame b of
        (b', None) \<Rightarrow> (c, nx, b', None)
      | (b', Some phys_addr) \<Rightarrow>
          (let page_ptr = phys_to_virt phys_addr;
               objects_per_page = SLAB_PAGE_SIZE div object_size c;
               (nx', fl) = fold (\<lambda>i. sfl_push (page_ptr + i * object_size c)) [0..<objects_per_page] (nx, slab_list c)
           in (c\<lparr>slab_list := fl, pages := pages c @ [page_ptr]\<rparr>, nx', b', Some ())))"

definition slab_allocate ::
  "SlabCache \<Rightarrow> nodes \<Rightarrow> BuddyFrameAllocator \<Rightarrow> SlabCache \<times> nodes \<times> BuddyFrameAllocator \<times> usize option" where
  "slab_allocate c nx b =
     (case sfl_pop nx (slab_list c) of
        (fl, Some ptr) \<Rightarrow> (c\<lparr>slab_list := fl, alloc_count := wadd64 (alloc_count c) 1\<rparr>, nx, b, Some ptr)
      | (_, None) \<Rightarrow>
          (case slab_grow c nx b of
             (c1, nx1, b1, None) \<Rightarrow> (c1, nx1, b1, None)
           | (c1, nx1, b1, Some _) \<Rightarrow>
               (case sfl_pop nx1 (slab_list c1) of
                  (_, None) \<Rightarrow> (c1, nx1, b1, None)
                | (fl, Some ptr) \<Rightarrow> (c1\<lparr>slab_list := fl, alloc_count := wadd64 (alloc_count c1) 1\<rparr>, nx1, b1, Some ptr))))"

definition slab_deallocate :: "usize \<Rightarrow> SlabCache \<Rightarrow> nodes \<Rightarrow> SlabCache \<times> nodes" where
  "slab_deallocate ptr c nx =
     (case sfl_push ptr (nx, slab_list c) of
        (nx', fl) \<Rightarrow> (c\<lparr>slab_list := fl, dealloc_count := wadd64 (dealloc_count c) 1\<rparr>, nx'))"

record SlabStats =
  ss_object_size :: usize
  ss_free_count :: usize
  ss_page_count :: usize
  ss_alloc_count :: usize
  ss_dealloc_count :: usize

definition slab_stats :: "SlabCache \<Rightarrow> SlabStats" where
  "slab_stats c = \<lparr>ss_object_size = object_size c, ss_free_count = sfl_count (slab_list c), ss_page_count = length (pages c),
     ss_alloc_count = alloc_count c, ss_dealloc_count = dealloc_count c\<rparr>"

subsection \<open>The caches of a core\<close>

record PerCoreCache =
  caches :: "SlabCache list"
  pc_cpu_id :: usize

definition per_core_new :: "usize \<Rightarrow> PerCoreCache" where
  "per_core_new cpu = \<lparr>caches = map slab_new SLAB_SIZES, pc_cpu_id = cpu\<rparr>"

definition size_class :: "usize \<Rightarrow> usize option" where
  "size_class n = List.find (\<lambda>i. n \<le> SLAB_SIZES ! i) [0..<length SLAB_SIZES]"

definition per_core_stats :: "PerCoreCache \<Rightarrow> SlabStats list" where
  "per_core_stats pc = map slab_stats (caches pc)"

text \<open>The whole system: the nodes in memory, the buddy allocator, the caches and the global allocator.\<close>

definition MAX_CPUS :: usize where "MAX_CPUS = 64"

record 'h SlabSystem =
  nodes :: nodes
  frames :: BuddyFrameAllocator
  per_core_caches :: "usize \<Rightarrow> PerCoreCache option"
  global_heap :: 'h

definition pc_allocate ::
  "(Layout \<Rightarrow> 'h \<Rightarrow> 'h \<times> usize) \<Rightarrow> usize \<Rightarrow> PerCoreCache \<Rightarrow> Layout \<Rightarrow> 'h SlabSystem \<Rightarrow> 'h SlabSystem \<times> usize option" where
  "pc_allocate galloc cpu pc l s =
     (case size_class (max (l_size l) (l_align l)) of
        Some cls \<Rightarrow>
          (case slab_allocate (caches pc ! cls) (nodes s) (frames s) of
             (c, nx, b, res) \<Rightarrow>
               (s\<lparr>nodes := nx, frames := b,
                  per_core_caches := (per_core_caches s)(cpu \<mapsto> pc\<lparr>caches := (caches pc)[cls := c]\<rparr>)\<rparr>, res))
      | None \<Rightarrow> (case galloc l (global_heap s) of (h, p) \<Rightarrow> (s\<lparr>global_heap := h\<rparr>, non_null p)))"

definition pc_deallocate ::
  "(usize \<Rightarrow> Layout \<Rightarrow> 'h \<Rightarrow> 'h) \<Rightarrow> usize \<Rightarrow> PerCoreCache \<Rightarrow> usize \<Rightarrow> Layout \<Rightarrow> 'h SlabSystem \<Rightarrow> 'h SlabSystem" where
  "pc_deallocate gdealloc cpu pc ptr l s =
     (case size_class (max (l_size l) (l_align l)) of
        Some cls \<Rightarrow>
          (case slab_deallocate ptr (caches pc ! cls) (nodes s) of
             (c, nx) \<Rightarrow> s\<lparr>nodes := nx, per_core_caches := (per_core_caches s)(cpu \<mapsto> pc\<lparr>caches := (caches pc)[cls := c]\<rparr>)\<rparr>)
      | None \<Rightarrow> s\<lparr>global_heap := gdealloc ptr l (global_heap s)\<rparr>)"

definition init_per_core_caches :: "usize \<Rightarrow> 'h SlabSystem \<Rightarrow> 'h SlabSystem" where
  "init_per_core_caches num_cpus s =
     fold (\<lambda>cpu s. s\<lparr>per_core_caches := (per_core_caches s)(cpu \<mapsto> per_core_new cpu)\<rparr>) [0..<min num_cpus MAX_CPUS] s"

definition per_core_alloc ::
  "(Layout \<Rightarrow> 'h \<Rightarrow> 'h \<times> usize) \<Rightarrow> usize \<Rightarrow> Layout \<Rightarrow> 'h SlabSystem \<Rightarrow> 'h SlabSystem \<times> usize option" where
  "per_core_alloc galloc cpu l s =
     (if MAX_CPUS \<le> cpu then (s, None)
      else case per_core_caches s cpu of None \<Rightarrow> (s, None) | Some pc \<Rightarrow> pc_allocate galloc cpu pc l s)"

definition per_core_dealloc ::
  "(usize \<Rightarrow> Layout \<Rightarrow> 'h \<Rightarrow> 'h) \<Rightarrow> usize \<Rightarrow> usize \<Rightarrow> Layout \<Rightarrow> 'h SlabSystem \<Rightarrow> 'h SlabSystem" where
  "per_core_dealloc gdealloc cpu ptr l s =
     (if MAX_CPUS \<le> cpu then s
      else case per_core_caches s cpu of None \<Rightarrow> s | Some pc \<Rightarrow> pc_deallocate gdealloc cpu pc ptr l s)"

text \<open>The variants that find out the core themselves; \<open>None\<close> before the per-CPU data is set up.\<close>

definition per_core_alloc_auto ::
  "(Layout \<Rightarrow> 'h \<Rightarrow> 'h \<times> usize) \<Rightarrow> usize option \<Rightarrow> Layout \<Rightarrow> 'h SlabSystem \<Rightarrow> 'h SlabSystem \<times> usize option" where
  "per_core_alloc_auto galloc cur l s = (case cur of None \<Rightarrow> (s, None) | Some cpu \<Rightarrow> per_core_alloc galloc cpu l s)"

definition per_core_dealloc_auto ::
  "(usize \<Rightarrow> Layout \<Rightarrow> 'h \<Rightarrow> 'h) \<Rightarrow> usize option \<Rightarrow> usize \<Rightarrow> Layout \<Rightarrow> 'h SlabSystem \<Rightarrow> 'h SlabSystem" where
  "per_core_dealloc_auto gdealloc cur ptr l s = (case cur of None \<Rightarrow> s | Some cpu \<Rightarrow> per_core_dealloc gdealloc cpu ptr l s)"

subsection \<open>Objects\<close>

text \<open>The size of the objects of a class, and where an object of a class may lie.\<close>

definition osz :: "nat \<Rightarrow> usize" where
  "osz k = object_size (slab_new (SLAB_SIZES ! k))"

definition obj_ext :: "usize \<times> nat \<times> usize \<Rightarrow> nat set" where
  "obj_ext = (\<lambda>(c, k, a). {a ..< a + osz k})"

definition objects :: "(usize \<Rightarrow> nat \<Rightarrow> usize list) \<Rightarrow> (usize \<times> nat \<times> usize) set" where
  "objects objs = {(c, k, a). a \<in> set (objs c k)}"

definition page_of :: "FrameIndex \<Rightarrow> nat set" where
  "page_of x = {phys_to_virt (to_phys_addr x) ..< phys_to_virt (to_phys_addr x) + SLAB_PAGE_SIZE}"

definition frame_bytes :: "BuddyFrameAllocator \<Rightarrow> nat set" where
  "frame_bytes b = (\<Union>x \<in> free_set b. page_of x)"

definition obj_at :: "nat \<Rightarrow> usize \<Rightarrow> bool" where
  "obj_at k a = (k < 8 \<and> osz k dvd a \<and> PHYSICAL_MEMORY_OFFSET \<le> a \<and> a + osz k \<le> U64_MOD)"

text \<open>
  The free lists lead through the objects \<open>objs\<close>, no two objects overlap, and none lies in a
  frame that the buddy allocator still holds.
\<close>

definition slab_view ::
  "nodes \<Rightarrow> BuddyFrameAllocator \<Rightarrow> (usize \<Rightarrow> nat \<Rightarrow> usize option) \<Rightarrow> (usize \<Rightarrow> nat \<Rightarrow> usize list) \<Rightarrow> bool" where
  "slab_view nx b hds objs =
     (buddy_inv b \<and> (\<forall>x \<in> free_set b. x < 2 ^ 35) \<and>
      (\<forall>c k. chain nx (hds c k) (objs c k) \<and> distinct (objs c k)) \<and>
      disjoint_family_on obj_ext (objects objs) \<and>
      (\<forall>(c, k, a) \<in> objects objs. obj_at k a \<and> obj_ext (c, k, a) \<inter> frame_bytes b = {}))"

lemma slab_sizes_length [simp]: "length SLAB_SIZES = 8"
  by (simp add: SLAB_SIZES_def)

lemma class_cases: "k < 8 \<Longrightarrow> k = 0 \<or> k = 1 \<or> k = 2 \<or> k = 3 \<or> k = 4 \<or> k = 5 \<or> k = 6 \<or> k = (7::nat)"
  by auto

lemma osz_values: "k < 8 \<Longrightarrow> osz k = [64, 64, 64, 64, 128, 256, 512, 1024] ! k"
  by (drule class_cases) (auto simp: osz_def slab_new_def SLAB_SIZES_def CACHE_LINE_SIZE_def SIZE_OF_FREE_NODE_def Let_def)

lemma osz_page: "k < 8 \<Longrightarrow> osz k dvd SLAB_PAGE_SIZE" and osz_pos: "k < 8 \<Longrightarrow> 0 < osz k"
  by (auto simp: osz_values SLAB_PAGE_SIZE_def dest!: class_cases)

lemma osz_pow: "k < 8 \<Longrightarrow> osz k = 2 ^ ([6, 6, 6, 6, 7, 8, 9, 10] ! k)"
  by (drule class_cases) (auto simp: osz_values)

lemma page_start:
  assumes "x < 2 ^ 35"
  shows "phys_to_virt (to_phys_addr x) = x * 4096 + PHYSICAL_MEMORY_OFFSET"
  using assms by (simp add: phys_to_virt_def to_phys_addr_def wadd64_def PAGE_SIZE_4K_def U64_MOD_def PHYSICAL_MEMORY_OFFSET_def)

lemma pages_disjoint:
  assumes "x < 2 ^ 35" and "y < 2 ^ 35" and "x \<noteq> y"
  shows "page_of x \<inter> page_of y = {}"
proof -
  have "x * 4096 + 4096 \<le> y * 4096 \<or> y * 4096 + 4096 \<le> x * 4096" using assms(3) by (cases "x < y") auto
  then show ?thesis using assms by (auto simp: page_of_def page_start SLAB_PAGE_SIZE_def)
qed

text \<open>The bytes of the objects on the lists, and one more object.\<close>

definition obj_bytes :: "(usize \<Rightarrow> nat \<Rightarrow> usize list) \<Rightarrow> nat set" where
  "obj_bytes objs = (\<Union>ob \<in> objects objs. obj_ext ob)"

definition put :: "usize \<Rightarrow> nat \<Rightarrow> 'v \<Rightarrow> (usize \<Rightarrow> nat \<Rightarrow> 'v) \<Rightarrow> usize \<Rightarrow> nat \<Rightarrow> 'v" where
  "put c k v f = (\<lambda>c' k'. if c' = c \<and> k' = k then v else f c' k')"

lemma put_apply [simp]: "put c k v f c' k' = (if c' = c \<and> k' = k then v else f c' k')"
  by (simp add: put_def)

lemma put_same [simp]: "put c k (f c k) f = f" and put_put [simp]: "put c k v (put c k w f) = put c k v f"
  by (auto simp: fun_eq_iff)

lemma objects_put: "objects (put c k (a # objs c k) objs) = insert (c, k, a) (objects objs)"
  by (auto simp: objects_def split: if_splits)

lemma obj_bytes_put: "obj_bytes (put c k (a # objs c k) objs) = obj_ext (c, k, a) \<union> obj_bytes objs"
  unfolding obj_bytes_def objects_put by simp

lemma slab_viewD:
  assumes "slab_view nx b hds objs"
  shows "buddy_inv b" "x \<in> free_set b \<Longrightarrow> x < 2 ^ 35" "chain nx (hds c k) (objs c k)" "distinct (objs c k)"
    "disjoint_family_on obj_ext (objects objs)" "(c, k, a) \<in> objects objs \<Longrightarrow> obj_at k a"
    "obj_bytes objs \<inter> frame_bytes b = {}"
  using assms by (auto simp: slab_view_def obj_bytes_def)

lemma slab_viewI:
  assumes "buddy_inv b" "\<And>x. x \<in> free_set b \<Longrightarrow> x < 2 ^ 35" "\<And>c k. chain nx (hds c k) (objs c k)"
    "\<And>c k. distinct (objs c k)" "disjoint_family_on obj_ext (objects objs)"
    "\<And>c k a. (c, k, a) \<in> objects objs \<Longrightarrow> obj_at k a" "obj_bytes objs \<inter> frame_bytes b = {}"
  shows "slab_view nx b hds objs"
  using assms unfolding slab_view_def obj_bytes_def by fast

lemma obj_ext_self: "k < 8 \<Longrightarrow> a \<in> obj_ext (c, k, a)"
  using osz_pos by (simp add: obj_ext_def)

lemma view_push:
  assumes V: "slab_view nx b hds objs" and a: "obj_at k a"
    and E: "obj_ext (c, k, a) \<inter> obj_bytes objs = {}" and F: "obj_ext (c, k, a) \<inter> frame_bytes b = {}"
  shows "slab_view (nx(a := hds c k)) b (put c k (Some a) hds) (put c k (a # objs c k) objs)"
proof -
  note D = slab_viewD [OF V]
  have new: "a \<notin> set (objs c' k')" for c' k'
  proof
    assume "a \<in> set (objs c' k')"
    then have m: "(c', k', a) \<in> objects objs" by (simp add: objects_def)
    then have "k' < 8" using D(6) by (auto simp: obj_at_def)
    then have "a \<in> obj_bytes objs" using m obj_ext_self unfolding obj_bytes_def by blast
    moreover have "a \<in> obj_ext (c, k, a)" using a by (intro obj_ext_self) (simp add: obj_at_def)
    ultimately show False using E by blast
  qed
  show ?thesis
  proof (rule slab_viewI)
    show "chain (nx(a := hds c k)) (put c k (Some a) hds c' k') (put c k (a # objs c k) objs c' k')" for c' k'
      using D(3) new by simp
    show "distinct (put c k (a # objs c k) objs c' k')" for c' k' using D(4) new by simp
    show "disjoint_family_on obj_ext (objects (put c k (a # objs c k) objs))"
      unfolding objects_put using D(5) E by (fastforce simp: disjoint_family_on_def obj_bytes_def)
    show "obj_at k' a'" if "(c', k', a') \<in> objects (put c k (a # objs c k) objs)" for c' k' a'
      using that a D(6) unfolding objects_put by blast
    show "obj_bytes (put c k (a # objs c k) objs) \<inter> frame_bytes b = {}"
      unfolding obj_bytes_put using F D(7) by blast
  qed (use D(1,2) in auto)
qed

lemma view_pop:
  assumes V: "slab_view nx b hds objs" and a: "hds c k = Some a"
  obtains as where "objs c k = a # as" and "obj_at k a" and "slab_view nx b (put c k (nx a) hds) (put c k as objs)"
    and "obj_bytes objs = obj_ext (c, k, a) \<union> obj_bytes (put c k as objs)" and "obj_ext (c, k, a) \<inter> obj_bytes (put c k as objs) = {}"
proof -
  note D = slab_viewD [OF V]
  from D(3) [of c k] a obtain as where as: "objs c k = a # as" "chain nx (nx a) as" by (auto simp: chain_Some)
  let ?o = "put c k as objs"
  have o: "objs = put c k (a # ?o c k) ?o" using as(1) by (auto simp: fun_eq_iff)
  have na: "a \<notin> set as" using D(4) [of c k] as(1) by simp
  have ob: "objects objs = insert (c, k, a) (objects ?o)" by (subst o) (rule objects_put)
  have notin: "(c, k, a) \<notin> objects ?o" using na by (simp add: objects_def)
  have bytes: "obj_bytes objs = obj_ext (c, k, a) \<union> obj_bytes ?o" by (simp add: obj_bytes_def ob)
  have apart: "obj_ext (c, k, a) \<inter> obj_bytes ?o = {}"
  proof -
    have "obj_ext (c, k, a) \<inter> obj_ext ob = {}" if m: "ob \<in> objects ?o" for ob
    proof (rule disjoint_family_onD [OF D(5)])
      show "(c, k, a) \<noteq> ob" using m notin by metis
    qed (use m in \<open>simp_all only: ob insert_iff simp_thms\<close>)
    then show ?thesis unfolding obj_bytes_def by blast
  qed
  have "slab_view nx b (put c k (nx a) hds) ?o"
  proof (rule slab_viewI)
    show "chain nx (put c k (nx a) hds c' k') (?o c' k')" for c' k' using D(3) as(2) by simp
    show "distinct (?o c' k')" for c' k' using D(4) [of c k] as(1) by (simp add: D(4))
    show "disjoint_family_on obj_ext (objects ?o)"
      using D(5) by (rule disjoint_family_on_mono [rotated]) (simp add: ob subset_insertI)
    show "obj_at k' a'" if "(c', k', a') \<in> objects ?o" for c' k' a' using that D(6) [of c' k' a'] by (simp add: ob)
    show "obj_bytes ?o \<inter> frame_bytes b = {}" using D(7) unfolding bytes by blast
  qed (use D(1,2) in auto)
  moreover have "obj_at k a" using D(6) [of c k a] by (simp add: ob)
  ultimately show thesis using as(1) bytes apart that by blast
qed

text \<open>A frame leaves the buddy allocator: its page lies apart from everything free.\<close>

lemma view_take_frame:
  assumes V: "slab_view nx b hds objs" and f: "allocate_4k_frame b = (b', Some phys)"
  obtains x where "phys = to_phys_addr x" and "x < 2 ^ 35" and "slab_view nx b' hds objs" and "page_of x \<inter> frame_bytes b' = {}"
    and "page_of x \<inter> obj_bytes objs = {}" and "frame_bytes b = frame_bytes b' \<union> page_of x"
proof -
  note D = slab_viewD [OF V]
  from f obtain x where x: "allocate_order 0 b = (b', Some x)" "phys = to_phys_addr x"
    by (auto simp: allocate_4k_frame_def split: prod.splits)
  note A = allocate_Some [OF D(1) x(1)]
  have "blk (0, x) = {x}" by (auto simp: blk_def)
  then have free: "x \<in> free_set b" "free_set b' = free_set b - {x}" using A(4,5) by auto
  have x35: "x < 2 ^ 35" using D(2) free(1) by blast
  have split: "frame_bytes b = frame_bytes b' \<union> page_of x" using free by (auto simp: frame_bytes_def)
  have apart: "page_of x \<inter> frame_bytes b' = {}"
    using pages_disjoint [OF x35] D(2) unfolding frame_bytes_def free(2) by blast
  have "slab_view nx b' hds objs"
    by (rule slab_viewI) (use A(1) D free(2) split in auto)
  moreover have "page_of x \<inter> obj_bytes objs = {}" using D(7) split by blast
  ultimately show thesis using x(2) x35 apart split by (intro that)
qed

text \<open>Cutting a page into objects and pushing them one after the other.\<close>

lemma view_fill:
  assumes V: "slab_view nx b hds objs" and k: "k < 8" and h: "hds c k = sfl_head fl"
    and p: "osz k dvd p" "PHYSICAL_MEMORY_OFFSET \<le> p" "p + SLAB_PAGE_SIZE \<le> U64_MOD"
    and apart: "{p ..< p + SLAB_PAGE_SIZE} \<inter> obj_bytes objs = {}" "{p ..< p + SLAB_PAGE_SIZE} \<inter> frame_bytes b = {}"
    and n: "n * osz k \<le> SLAB_PAGE_SIZE"
    and f: "fold (\<lambda>i. sfl_push (p + i * osz k)) [0..<n] (nx, fl) = (nx', fl')"
  shows "\<exists>objs'. slab_view nx' b (put c k (sfl_head fl') hds) objs' \<and>
    obj_bytes objs' = obj_bytes objs \<union> {p ..< p + n * osz k} \<and> (0 < n \<longrightarrow> sfl_head fl' \<noteq> None)"
  using n f
proof (induction n arbitrary: nx' fl')
  case 0
  then have e: "nx' = nx" "fl' = fl" by simp_all
  have "put c k (sfl_head fl) hds = hds" unfolding h [symmetric] by simp
  with V show ?case unfolding e by (intro exI [of _ objs]) simp
next
  case (Suc n)
  obtain nx1 fl1 where f1: "fold (\<lambda>i. sfl_push (p + i * osz k)) [0..<n] (nx, fl) = (nx1, fl1)" by (cases "fold (\<lambda>i. sfl_push (p + i * osz k)) [0..<n] (nx, fl)")
  have "n * osz k \<le> SLAB_PAGE_SIZE" using Suc.prems(1) by simp
  from Suc.IH [OF this f1] obtain objs1 where
    o1: "slab_view nx1 b (put c k (sfl_head fl1) hds) objs1" "obj_bytes objs1 = obj_bytes objs \<union> {p ..< p + n * osz k}" by blast
  let ?a = "p + n * osz k"
  have e: "nx' = nx1(?a := sfl_head fl1)" "sfl_head fl' = Some ?a"
    using Suc.prems(2) f1 by (auto simp: sfl_push_def)
  have x: "obj_ext (c, k, ?a) = {?a ..< p + Suc n * osz k}" by (simp add: obj_ext_def ac_simps)
  have sub: "{?a ..< p + Suc n * osz k} \<subseteq> {p ..< p + SLAB_PAGE_SIZE}" using Suc.prems(1) by auto
  have at: "obj_at k ?a" using k p Suc.prems(1) by (simp add: obj_at_def)
  have "obj_ext (c, k, ?a) \<inter> obj_bytes objs1 = {}" unfolding x o1(2) using sub apart(1) by fastforce
  moreover have "obj_ext (c, k, ?a) \<inter> frame_bytes b = {}" unfolding x using sub apart(2) by blast
  ultimately have v: "slab_view nx' b (put c k (Some ?a) hds) (put c k (?a # objs1 c k) objs1)"
    using view_push [where c = c, OF o1(1) at] by (simp add: e)
  have "{p ..< p + n * osz k} \<union> {?a ..< p + Suc n * osz k} = {p ..< p + Suc n * osz k}" by auto
  then have "obj_bytes (put c k (?a # objs1 c k) objs1) = obj_bytes objs \<union> {p ..< p + Suc n * osz k}"
    unfolding obj_bytes_put x o1(2) by blast
  with v show ?case unfolding e(2) by (intro exI [of _ "put c k (?a # objs1 c k) objs1"]) (simp only: simp_thms option.distinct not_False_eq_True)
qed

lemma view_grow:
  assumes V: "slab_view nx b hds objs" and k: "k < 8" and h: "hds c k = sfl_head (slab_list ch)" and o: "object_size ch = osz k"
    and g: "slab_grow ch nx b = (ch', nx', b', Some u)"
  shows "\<exists>objs'. slab_view nx' b' (put c k (sfl_head (slab_list ch')) hds) objs' \<and>
    obj_bytes objs' \<union> frame_bytes b' \<subseteq> obj_bytes objs \<union> frame_bytes b \<and> sfl_head (slab_list ch') \<noteq> None \<and> object_size ch' = osz k"
proof -
  from g obtain phys where f: "allocate_4k_frame b = (b', Some phys)"
    by (auto simp: slab_grow_def Let_def split: prod.splits option.splits)
  from view_take_frame [OF V f] obtain x where x: "phys = to_phys_addr x" "x < 2 ^ 35" "slab_view nx b' hds objs"
    "page_of x \<inter> frame_bytes b' = {}" "page_of x \<inter> obj_bytes objs = {}" "frame_bytes b = frame_bytes b' \<union> page_of x" .
  let ?p = "phys_to_virt phys" and ?n = "SLAB_PAGE_SIZE div osz k"
  have ps: "?p = x * 4096 + PHYSICAL_MEMORY_OFFSET" using page_start [OF x(2)] by (simp add: x(1))
  have page: "page_of x = {?p ..< ?p + SLAB_PAGE_SIZE}" by (simp add: page_of_def x(1))
  have "osz k dvd 4096" using osz_page [OF k] by (simp add: SLAB_PAGE_SIZE_def)
  moreover have "(4096 :: nat) dvd PHYSICAL_MEMORY_OFFSET" by (simp add: PHYSICAL_MEMORY_OFFSET_def)
  ultimately have d: "osz k dvd ?p" unfolding ps by (meson dvd_add dvd_mult dvd_trans)
  have b: "PHYSICAL_MEMORY_OFFSET \<le> ?p" "?p + SLAB_PAGE_SIZE \<le> U64_MOD"
    unfolding ps using x(2) by (simp_all add: SLAB_PAGE_SIZE_def U64_MOD_def PHYSICAL_MEMORY_OFFSET_def)
  have n: "?n * osz k = SLAB_PAGE_SIZE" using osz_page [OF k] by simp
  then have "0 < ?n" by (cases "?n = 0") (simp_all add: SLAB_PAGE_SIZE_def)
  obtain fl where r: "fold (\<lambda>i. sfl_push (?p + i * osz k)) [0..<?n] (nx, slab_list ch) = (nx', fl)"
    and ch': "ch' = ch\<lparr>slab_list := fl, pages := pages ch @ [?p]\<rparr>"
    using g f o by (auto simp: slab_grow_def Let_def split: prod.splits)
  have "?n * osz k \<le> SLAB_PAGE_SIZE" by (simp only: n)
  from view_fill [OF x(3) k h d b x(5,4) [unfolded page] this r] \<open>0 < ?n\<close> obtain objs' where
    o': "slab_view nx' b' (put c k (sfl_head fl) hds) objs'" "obj_bytes objs' = obj_bytes objs \<union> {?p ..< ?p + SLAB_PAGE_SIZE}"
    "sfl_head fl \<noteq> None" unfolding n by blast
  have "slab_list ch' = fl" "object_size ch' = osz k" using o by (simp_all add: ch')
  moreover have "obj_bytes objs' \<union> frame_bytes b' \<subseteq> obj_bytes objs \<union> frame_bytes b" unfolding o'(2) x(6) page by blast
  ultimately show ?thesis using o'(1,3) by metis
qed

subsection \<open>The system as an allocator\<close>

definition heads :: "'h SlabSystem \<Rightarrow> usize \<Rightarrow> nat \<Rightarrow> usize option" where
  "heads s c k = (case per_core_caches s c of None \<Rightarrow> None
     | Some pc \<Rightarrow> if k < 8 then sfl_head (slab_list (caches pc ! k)) else None)"

definition slab_shape :: "'h SlabSystem \<Rightarrow> bool" where
  "slab_shape s = (\<forall>c pc. per_core_caches s c = Some pc \<longrightarrow>
     length (caches pc) = 8 \<and> (\<forall>k < 8. object_size (caches pc ! k) = osz k))"

definition slab_inv :: "'h SlabSystem \<Rightarrow> bool" where
  "slab_inv s = (slab_shape s \<and> (\<exists>objs. slab_view (nodes s) (frames s) (heads s) objs))"

text \<open>What is free: the objects on the lists and the frames the buddy allocator holds.\<close>

definition slab_free :: "'h SlabSystem \<Rightarrow> nat set" where
  "slab_free s =
     (\<Union>(c, k, a) \<in> {(c, k, a). \<exists>as. chain (nodes s) (heads s c k) as \<and> a \<in> set as}. obj_ext (c, k, a)) \<union> frame_bytes (frames s)"

lemma slab_free_view:
  assumes "slab_view (nodes s) (frames s) (heads s) objs"
  shows "slab_free s = obj_bytes objs \<union> frame_bytes (frames s)"
proof -
  have "chain (nodes s) (heads s c k) as \<longleftrightarrow> as = objs c k" for c k as
    using slab_viewD(3) [OF assms, of c k] chain_unique by metis
  then have "{(c, k, a). \<exists>as. chain (nodes s) (heads s c k) as \<and> a \<in> set as} = objects objs" by (simp add: objects_def)
  then show ?thesis by (simp add: slab_free_def obj_bytes_def case_prod_unfold)
qed

definition slab_class :: "Layout \<Rightarrow> nat option" where
  "slab_class l = size_class (max (l_size l) (l_align l))"

lemma size_class_Some: "size_class n = Some k \<Longrightarrow> k < 8 \<and> n \<le> SLAB_SIZES ! k"
  by (auto simp: size_class_def find_Some_iff)

lemma class_fits: "k < 8 \<Longrightarrow> SLAB_SIZES ! k \<le> osz k"
  by (drule class_cases) (auto simp: osz_values SLAB_SIZES_def)

lemma heads_set:
  assumes "per_core_caches s c = Some pc" and "k < 8" and "length (caches pc) = 8"
  shows "heads (s\<lparr>nodes := nx, frames := b, per_core_caches := (per_core_caches s)(c \<mapsto> pc\<lparr>caches := (caches pc)[k := ch]\<rparr>)\<rparr>) =
    put c k (sfl_head (slab_list ch)) (heads s)"
  using assms by (auto simp: heads_def fun_eq_iff nth_list_update split: option.splits)

lemma shape_set:
  assumes "slab_shape s" and "per_core_caches s c = Some pc" and "k < 8" and "object_size ch = osz k"
  shows "slab_shape (s\<lparr>nodes := nx, frames := b, per_core_caches := (per_core_caches s)(c \<mapsto> pc\<lparr>caches := (caches pc)[k := ch]\<rparr>)\<rparr>)"
proof -
  have "length (caches pc) = 8" using assms(1,2) by (simp add: slab_shape_def)
  with assms show ?thesis by (auto simp: slab_shape_def nth_list_update)
qed

text \<open>One allocation from a cache.\<close>

lemma slab_allocate_Some:
  assumes V: "slab_view nx b hds objs" and k: "k < 8" and h: "hds c k = sfl_head (slab_list ch)" and o: "object_size ch = osz k"
    and a: "slab_allocate ch nx b = (ch', nx', b', Some p)"
  shows "\<exists>objs'. slab_view nx' b' (put c k (sfl_head (slab_list ch')) hds) objs' \<and> obj_at k p \<and> object_size ch' = osz k \<and>
    obj_ext (c, k, p) \<subseteq> obj_bytes objs \<union> frame_bytes b \<and>
    obj_bytes objs' \<union> frame_bytes b' \<subseteq> obj_bytes objs \<union> frame_bytes b - obj_ext (c, k, p)"
proof -
  have pop: "\<exists>objs'. slab_view nx b (put c k (nx p) hds) objs' \<and> obj_at k p \<and> obj_ext (c, k, p) \<subseteq> obj_bytes objs \<and>
      obj_bytes objs' \<union> frame_bytes b \<subseteq> obj_bytes objs \<union> frame_bytes b - obj_ext (c, k, p)"
    if v: "slab_view nx b hds objs" and p: "hds c k = Some p" for nx b hds objs
  proof -
    obtain as where P: "obj_at k p" "slab_view nx b (put c k (nx p) hds) (put c k as objs)"
      "obj_bytes objs = obj_ext (c, k, p) \<union> obj_bytes (put c k as objs)" "obj_ext (c, k, p) \<inter> obj_bytes (put c k as objs) = {}"
      using view_pop [OF v p] by metis
    moreover have "obj_ext (c, k, p) \<inter> frame_bytes b = {}" using slab_viewD(7) [OF v] unfolding P(3) by blast
    ultimately show ?thesis by (intro exI [of _ "put c k as objs"]) blast
  qed
  show ?thesis
  proof (cases "sfl_head (slab_list ch)")
    case (Some q)
    with a have e: "q = p" "nx' = nx" "b' = b" "sfl_head (slab_list ch') = nx p" "object_size ch' = osz k"
      using o by (auto simp: slab_allocate_def sfl_pop_def)
    from pop [OF V] h Some e(1) show ?thesis unfolding e by auto
  next
    case None
    obtain ch1 nx1 b1 u where g: "slab_grow ch nx b = (ch1, nx1, b1, Some u)"
      using a None by (auto simp: slab_allocate_def sfl_pop_def split: prod.splits option.splits)
    from view_grow [OF V k h o g] obtain objs1 where
      G: "slab_view nx1 b1 (put c k (sfl_head (slab_list ch1)) hds) objs1"
      "obj_bytes objs1 \<union> frame_bytes b1 \<subseteq> obj_bytes objs \<union> frame_bytes b" "sfl_head (slab_list ch1) \<noteq> None" "object_size ch1 = osz k" by metis
    then obtain q where q: "sfl_head (slab_list ch1) = Some q" by blast
    with a None g have e: "q = p" "nx' = nx1" "b' = b1" "sfl_head (slab_list ch') = nx1 p" "object_size ch' = osz k"
      using G(4) by (auto simp: slab_allocate_def sfl_pop_def)
    have "put c k (sfl_head (slab_list ch1)) hds c k = Some p" by (simp add: q e(1))
    from pop [OF G(1) this] obtain objs' where "slab_view nx1 b1 (put c k (nx1 p) hds) objs'" "obj_at k p"
      "obj_ext (c, k, p) \<subseteq> obj_bytes objs1" "obj_bytes objs' \<union> frame_bytes b1 \<subseteq> obj_bytes objs1 \<union> frame_bytes b1 - obj_ext (c, k, p)"
      unfolding put_put by blast
    with G(2) e(5) show ?thesis unfolding e(2-4) by (intro exI [of _ objs']) blast
  qed
qed

lemma slab_allocate_None:
  assumes V: "slab_view nx b hds objs" and k: "k < 8" and h: "hds c k = sfl_head (slab_list ch)" and o: "object_size ch = osz k"
    and a: "slab_allocate ch nx b = (ch', nx', b', None)"
  shows "ch' = ch \<and> nx' = nx \<and> b' = b"
proof -
  have h0: "sfl_head (slab_list ch) = None" using a by (auto simp: slab_allocate_def sfl_pop_def split: option.splits)
  obtain ch1 nx1 b1 u where g: "slab_grow ch nx b = (ch1, nx1, b1, u)" by (rule prod_cases4)
  have u: "u = None"
  proof (rule ccontr)
    assume "u \<noteq> None"
    with g view_grow [OF V k h o, of ch1 nx1 b1] have "sfl_head (slab_list ch1) \<noteq> None" by auto
    with a h0 g \<open>u \<noteq> None\<close> show False by (auto simp: slab_allocate_def sfl_pop_def split: option.splits)
  qed
  with g have f: "allocate_4k_frame b = (b1, None)" "ch1 = ch" "nx1 = nx"
    by (auto simp: slab_grow_def Let_def split: prod.splits option.splits)
  then have "allocate_order 0 b = (b1, None)" by (auto simp: allocate_4k_frame_def split: prod.splits)
  then have "b1 = b" using buddy_pool.alloc_None [OF slab_viewD(1) [OF V]] by simp
  with a h0 g u f show ?thesis by (auto simp: slab_allocate_def sfl_pop_def)
qed

subsection \<open>Objects and frames from one memory\<close>

text \<open>
  The clients of the memory: objects come from the caches, blocks of frames straight from the
  buddy allocator that also feeds the caches.
\<close>

datatype mem_request = ObjectReq usize Layout | FrameReq usize

fun mem_alloc ::
  "(Layout \<Rightarrow> 'h \<Rightarrow> 'h \<times> usize) \<Rightarrow> mem_request \<Rightarrow> 'h SlabSystem \<Rightarrow> 'h SlabSystem \<times> nat option" where
  "mem_alloc galloc (ObjectReq cpu l) s = per_core_alloc galloc cpu l s"
| "mem_alloc galloc (FrameReq n) s = (case allocate_order n (frames s) of (b, res) \<Rightarrow> (s\<lparr>frames := b\<rparr>, res))"

fun mem_dealloc ::
  "(usize \<Rightarrow> Layout \<Rightarrow> 'h \<Rightarrow> 'h) \<Rightarrow> mem_request \<Rightarrow> nat \<Rightarrow> 'h SlabSystem \<Rightarrow> 'h SlabSystem" where
  "mem_dealloc gdealloc (ObjectReq cpu l) p s = per_core_dealloc gdealloc cpu p l s"
| "mem_dealloc gdealloc (FrameReq n) f s = s\<lparr>frames := deallocate_order n f (frames s)\<rparr>"

fun mem_ok :: "mem_request \<Rightarrow> bool" where
  "mem_ok (ObjectReq cpu l) = (slab_class l \<noteq> None \<and> (\<exists>n. l_align l = 2 ^ n))"
| "mem_ok (FrameReq n) = True"

fun mem_extent :: "mem_request \<Rightarrow> nat \<Rightarrow> nat set" where
  "mem_extent (ObjectReq cpu l) p = {p ..< p + osz (the (slab_class l))}"
| "mem_extent (FrameReq n) f = (\<Union>x \<in> {f ..< f + 2 ^ n}. page_of x)"

fun mem_placed :: "mem_request \<Rightarrow> nat \<Rightarrow> bool" where
  "mem_placed (ObjectReq cpu l) p = (\<exists>k. slab_class l = Some k \<and> obj_at k p)"
| "mem_placed (FrameReq n) f = (n \<le> MAX_ORDER \<and> 2 ^ n dvd f \<and> f + 2 ^ n \<le> 2 ^ 35)"

lemma slab_inv_set:
  assumes inv: "slab_inv s" and pc: "per_core_caches s c = Some pc" and k: "k < 8" and o: "object_size ch = osz k"
    and v: "slab_view nx b (put c k (sfl_head (slab_list ch)) (heads s)) objs"
  shows "slab_inv (s\<lparr>nodes := nx, frames := b, per_core_caches := (per_core_caches s)(c \<mapsto> pc\<lparr>caches := (caches pc)[k := ch]\<rparr>)\<rparr>)"
    and "slab_free (s\<lparr>nodes := nx, frames := b, per_core_caches := (per_core_caches s)(c \<mapsto> pc\<lparr>caches := (caches pc)[k := ch]\<rparr>)\<rparr>) =
      obj_bytes objs \<union> frame_bytes b"
proof -
  let ?s = "s\<lparr>nodes := nx, frames := b, per_core_caches := (per_core_caches s)(c \<mapsto> pc\<lparr>caches := (caches pc)[k := ch]\<rparr>)\<rparr>"
  have sh: "slab_shape s" using inv by (simp add: slab_inv_def)
  then have "length (caches pc) = 8" using pc by (simp add: slab_shape_def)
  note h = heads_set [where nx = nx and b = b and ch = ch, OF pc k this]
  have w: "slab_view (nodes ?s) (frames ?s) (heads ?s) objs" unfolding h using v by simp
  then show "slab_inv ?s" using shape_set [OF sh pc k o] unfolding slab_inv_def by blast
  from slab_free_view [OF w] show "slab_free ?s = obj_bytes objs \<union> frame_bytes b" by simp
qed

lemma slab_inv_frames:
  assumes "slab_shape s" and "slab_view (nodes s) b (heads s) objs"
  shows "slab_inv (s\<lparr>frames := b\<rparr>)" and "slab_free (s\<lparr>frames := b\<rparr>) = obj_bytes objs \<union> frame_bytes b"
proof -
  have h: "heads (s\<lparr>frames := b\<rparr>) = heads s" by (simp add: heads_def fun_eq_iff)
  have w: "slab_view (nodes (s\<lparr>frames := b\<rparr>)) (frames (s\<lparr>frames := b\<rparr>)) (heads (s\<lparr>frames := b\<rparr>)) objs"
    unfolding h using assms(2) by simp
  moreover have "slab_shape (s\<lparr>frames := b\<rparr>)" using assms(1) by (simp add: slab_shape_def)
  ultimately show "slab_inv (s\<lparr>frames := b\<rparr>)" unfolding slab_inv_def by blast
  from slab_free_view [OF w] show "slab_free (s\<lparr>frames := b\<rparr>) = obj_bytes objs \<union> frame_bytes b" by simp
qed

lemma slab_inv_heads:
  assumes "slab_inv s" and "per_core_caches s c = Some pc" and "k < 8"
  shows "heads s c k = sfl_head (slab_list (caches pc ! k))" and "object_size (caches pc ! k) = osz k"
  using assms by (auto simp: heads_def slab_inv_def slab_shape_def)

lemma object_alloc:
  assumes inv: "slab_inv s" and ok: "mem_ok (ObjectReq c l)" and a: "per_core_alloc galloc c l s = (s', res)"
  shows "case res of
      None \<Rightarrow> s' = s
    | Some p \<Rightarrow> slab_inv s' \<and> mem_placed (ObjectReq c l) p \<and> mem_extent (ObjectReq c l) p \<subseteq> slab_free s \<and>
        slab_free s' \<subseteq> slab_free s - mem_extent (ObjectReq c l) p"
proof (cases "MAX_CPUS \<le> c \<or> per_core_caches s c = None")
  case True
  with a show ?thesis by (auto simp: per_core_alloc_def split: option.splits if_splits)
next
  case False
  then obtain pc where pc: "per_core_caches s c = Some pc" "\<not> MAX_CPUS \<le> c" by auto
  from ok obtain k where cl: "slab_class l = Some k" by auto
  then have k: "k < 8" using size_class_Some by (auto simp: slab_class_def)
  from inv obtain objs where v: "slab_view (nodes s) (frames s) (heads s) objs" by (auto simp: slab_inv_def)
  note H = slab_inv_heads [OF inv pc(1) k] and F = slab_free_view [OF v]
  obtain ch nx b r where sa: "slab_allocate (caches pc ! k) (nodes s) (frames s) = (ch, nx, b, r)" by (rule prod_cases4)
  have s': "s' = s\<lparr>nodes := nx, frames := b, per_core_caches := (per_core_caches s)(c \<mapsto> pc\<lparr>caches := (caches pc)[k := ch]\<rparr>)\<rparr>" "res = r"
    using a pc cl sa by (auto simp: per_core_alloc_def pc_allocate_def slab_class_def)
  show ?thesis
  proof (cases r)
    case None
    from slab_allocate_None [OF v k H sa [unfolded None]] pc(1) have "s' = s" by (simp add: s' fun_upd_idem)
    then show ?thesis by (simp add: s'(2) None)
  next
    case (Some p)
    from slab_allocate_Some [OF v k H sa [unfolded Some]] obtain objs' where
      A: "slab_view nx b (put c k (sfl_head (slab_list ch)) (heads s)) objs'" "obj_at k p" "object_size ch = osz k"
      "obj_ext (c, k, p) \<subseteq> slab_free s" "obj_bytes objs' \<union> frame_bytes b \<subseteq> slab_free s - obj_ext (c, k, p)" unfolding F by blast
    note S = slab_inv_set [OF inv pc(1) k A(3,1), folded s'(1)]
    have "mem_extent (ObjectReq c l) p = obj_ext (c, k, p)" by (simp add: cl obj_ext_def)
    with S A cl show ?thesis by (simp add: s'(2) Some)
  qed
qed

lemma object_dealloc:
  assumes inv: "slab_inv s" and pl: "mem_placed (ObjectReq c l) p" and d: "mem_extent (ObjectReq c l) p \<inter> slab_free s = {}"
  shows "slab_inv (per_core_dealloc gdealloc c p l s) \<and>
    slab_free (per_core_dealloc gdealloc c p l s) \<subseteq> slab_free s \<union> mem_extent (ObjectReq c l) p"
proof (cases "MAX_CPUS \<le> c \<or> per_core_caches s c = None")
  case True
  with inv show ?thesis by (auto simp: per_core_dealloc_def split: option.splits if_splits)
next
  case False
  then obtain pc where pc: "per_core_caches s c = Some pc" "\<not> MAX_CPUS \<le> c" by auto
  from pl obtain k where cl: "slab_class l = Some k" and at: "obj_at k p" by auto
  then have k: "k < 8" by (simp add: obj_at_def)
  from inv obtain objs where v: "slab_view (nodes s) (frames s) (heads s) objs" by (auto simp: slab_inv_def)
  note H = slab_inv_heads [OF inv pc(1) k] and F = slab_free_view [OF v]
  have x: "mem_extent (ObjectReq c l) p = obj_ext (c, k, p)" by (simp add: cl obj_ext_def)
  from d have dd: "obj_ext (c, k, p) \<inter> obj_bytes objs = {}" "obj_ext (c, k, p) \<inter> frame_bytes (frames s) = {}" unfolding x F by blast+
  note P = view_push [OF v at dd]
  obtain ch nx where sd: "slab_deallocate p (caches pc ! k) (nodes s) = (ch, nx)" by (cases "slab_deallocate p (caches pc ! k) (nodes s)")
  then have e: "nx = (nodes s)(p := heads s c k)" "sfl_head (slab_list ch) = Some p" "object_size ch = osz k"
    using H by (auto simp: slab_deallocate_def sfl_push_def)
  have s': "per_core_dealloc gdealloc c p l s =
      s\<lparr>nodes := nx, frames := frames s, per_core_caches := (per_core_caches s)(c \<mapsto> pc\<lparr>caches := (caches pc)[k := ch]\<rparr>)\<rparr>"
    using pc cl sd by (simp add: per_core_dealloc_def pc_deallocate_def slab_class_def)
  note S = slab_inv_set [OF inv pc(1) k e(3) P [folded e(1,2)]]
  show ?thesis unfolding s' S(2) obj_bytes_put F x using S(1) by blast
qed

text \<open>Blocks of frames.\<close>

lemma view_frames:
  assumes v: "slab_view nx b hds objs" and "buddy_inv b'" and "\<And>x. x \<in> free_set b' \<Longrightarrow> x < 2 ^ 35"
    and "obj_bytes objs \<inter> frame_bytes b' = {}"
  shows "slab_view nx b' hds objs"
  by (rule slab_viewI) (use assms slab_viewD [OF v] in auto)

lemma page_nonempty: "phys_to_virt (to_phys_addr x) \<in> page_of x"
  by (simp add: page_of_def SLAB_PAGE_SIZE_def)

lemma pages_apart:
  assumes "\<And>x. x \<in> A \<union> B \<Longrightarrow> x < 2 ^ 35"
  shows "(\<Union>x \<in> A. page_of x) \<inter> (\<Union>x \<in> B. page_of x) = {} \<longleftrightarrow> A \<inter> B = {}"
proof
  assume "A \<inter> B = {}"
  then have "page_of x \<inter> page_of y = {}" if "x \<in> A" "y \<in> B" for x y
    using pages_disjoint [of x y] assms that by blast
  then show "(\<Union>x \<in> A. page_of x) \<inter> (\<Union>x \<in> B. page_of x) = {}" by blast
next
  assume "(\<Union>x \<in> A. page_of x) \<inter> (\<Union>x \<in> B. page_of x) = {}"
  then show "A \<inter> B = {}" using page_nonempty by blast
qed

lemma frames_alloc:
  assumes inv: "slab_inv s" and a: "allocate_order n (frames s) = (b, Some f)"
  shows "slab_inv (s\<lparr>frames := b\<rparr>) \<and> mem_placed (FrameReq n) f \<and> mem_extent (FrameReq n) f \<subseteq> slab_free s \<and>
    slab_free (s\<lparr>frames := b\<rparr>) \<subseteq> slab_free s - mem_extent (FrameReq n) f"
proof -
  from inv obtain objs where v: "slab_view (nodes s) (frames s) (heads s) objs" and sh: "slab_shape s" by (auto simp: slab_inv_def)
  note D = slab_viewD [OF v]
  note A = allocate_Some [OF D(1) a]
  have blk: "blk (n, f) = {f ..< f + 2 ^ n}" by (simp add: blk_def)
  have ext: "mem_extent (FrameReq n) f \<subseteq> frame_bytes (frames s)" using A(4) unfolding blk by (auto simp: frame_bytes_def)
  have sub: "frame_bytes b \<subseteq> frame_bytes (frames s)" using A(5) by (auto simp: frame_bytes_def)
  have small: "x < 2 ^ 35" if "x \<in> {f ..< f + 2 ^ n} \<union> free_set b" for x using that A(4,5) D(2) unfolding blk by blast
  have apart: "mem_extent (FrameReq n) f \<inter> frame_bytes b = {}"
    using pages_apart [OF small] A(5) unfolding blk mem_extent.simps frame_bytes_def by blast
  have w: "slab_view (nodes s) b (heads s) objs"
    by (rule view_frames [OF v A(1)]) (use small D(7) sub in auto)
  have p: "0 < (2 :: nat) ^ n" by simp
  then have "f + (2 ^ n - 1) \<in> {f ..< f + 2 ^ n}" unfolding atLeastLessThan_iff by linarith
  then have "f + (2 ^ n - 1) < 2 ^ 35" using small by blast
  then have "f + 2 ^ n \<le> 2 ^ 35" using p by linarith
  then have "mem_placed (FrameReq n) f" using A(2,3) by simp
  moreover note slab_inv_frames [OF sh w]
  ultimately show ?thesis unfolding slab_free_view [OF v] using ext sub apart D(7) by blast
qed

lemma frames_dealloc:
  assumes inv: "slab_inv s" and pl: "mem_placed (FrameReq n) f" and d: "mem_extent (FrameReq n) f \<inter> slab_free s = {}"
  shows "slab_inv (s\<lparr>frames := deallocate_order n f (frames s)\<rparr>) \<and>
    slab_free (s\<lparr>frames := deallocate_order n f (frames s)\<rparr>) \<subseteq> slab_free s \<union> mem_extent (FrameReq n) f"
proof -
  let ?b = "deallocate_order n f (frames s)"
  from inv obtain objs where v: "slab_view (nodes s) (frames s) (heads s) objs" and sh: "slab_shape s" by (auto simp: slab_inv_def)
  note D = slab_viewD [OF v] and F = slab_free_view [OF v]
  have blk: "blk (n, f) = {f ..< f + 2 ^ n}" by (simp add: blk_def)
  have small: "x < 2 ^ 35" if "x \<in> {f ..< f + 2 ^ n} \<union> free_set (frames s)" for x using that pl D(2) by auto
  have "blk (n, f) \<inter> free_set (frames s) = {}"
    using pages_apart [OF small] d unfolding blk F mem_extent.simps frame_bytes_def by blast
  then have B: "buddy_inv ?b" "free_set ?b \<subseteq> free_set (frames s) \<union> {f ..< f + 2 ^ n}"
    using buddy_pool.dealloc [OF D(1), of n f] pl by (auto simp: blk)
  then have sub: "frame_bytes ?b \<subseteq> frame_bytes (frames s) \<union> mem_extent (FrameReq n) f"
    unfolding frame_bytes_def mem_extent.simps by blast
  have w: "slab_view (nodes s) ?b (heads s) objs"
  proof (rule view_frames [OF v B(1)])
    show "x < 2 ^ 35" if "x \<in> free_set ?b" for x using that B(2) small by blast
    show "obj_bytes objs \<inter> frame_bytes ?b = {}" using sub D(7) d unfolding F by blast
  qed
  from slab_inv_frames [OF sh w] show ?thesis unfolding F using sub by blast
qed

interpretation slab: frame_pool slab_inv mem_ok slab_free mem_extent mem_placed "mem_alloc galloc" "mem_dealloc gdealloc"
  for galloc :: "Layout \<Rightarrow> 'h \<Rightarrow> 'h \<times> usize" and gdealloc :: "usize \<Rightarrow> Layout \<Rightarrow> 'h \<Rightarrow> 'h"
proof unfold_locales
  fix s s' :: "'h SlabSystem" and r f
  assume inv: "slab_inv s"
  show "slab_inv s' \<and> mem_placed r f \<and> mem_extent r f \<subseteq> slab_free s \<and> slab_free s' \<subseteq> slab_free s - mem_extent r f"
    if ok: "mem_ok r" and al: "mem_alloc galloc r s = (s', Some f)"
  proof (cases r)
    case (ObjectReq c l)
    with object_alloc [OF inv, of c l galloc s' "Some f"] ok al show ?thesis by simp
  next
    case (FrameReq n)
    then obtain b where "allocate_order n (frames s) = (b, Some f)" "s' = s\<lparr>frames := b\<rparr>"
      using al by (auto split: prod.splits)
    with frames_alloc [OF inv, of n b f] FrameReq show ?thesis by blast
  qed
  show "s' = s" if ok: "mem_ok r" and al: "mem_alloc galloc r s = (s', None)"
  proof (cases r)
    case (ObjectReq c l)
    with object_alloc [OF inv, of c l galloc s' None] ok al show ?thesis by simp
  next
    case (FrameReq n)
    then obtain b where b: "allocate_order n (frames s) = (b, None)" "s' = s\<lparr>frames := b\<rparr>"
      using al by (auto split: prod.splits)
    have "buddy_inv (frames s)" using inv slab_viewD(1) by (auto simp: slab_inv_def)
    then have "b = frames s" using buddy_pool.alloc_None [of "frames s" n b] b(1) by simp
    then show ?thesis using b(2) by simp
  qed
  show "slab_inv (mem_dealloc gdealloc r f s) \<and> slab_free (mem_dealloc gdealloc r f s) \<subseteq> slab_free s \<union> mem_extent r f"
    if "mem_placed r f" and "mem_extent r f \<inter> slab_free s = {}"
    using that object_dealloc [OF inv] frames_dealloc [OF inv] by (cases r) simp_all
qed

subsection \<open>Properties\<close>

definition slab_boot :: "nodes \<Rightarrow> (u64 \<times> u64) list \<Rightarrow> usize \<Rightarrow> 'h \<Rightarrow> 'h SlabSystem" where
  "slab_boot nx rs cpus h = init_per_core_caches cpus
     \<lparr>nodes = nx, frames = buddy_init rs buddy_new, per_core_caches = Map.empty, global_heap = h\<rparr>"

lemma init_caches:
  "init_per_core_caches n s = s\<lparr>per_core_caches := (\<lambda>c. if c < min n MAX_CPUS then Some (per_core_new c) else per_core_caches s c)\<rparr>"
proof -
  have "fold (\<lambda>cpu s. s\<lparr>per_core_caches := (per_core_caches s)(cpu \<mapsto> per_core_new cpu)\<rparr>) [0..<m] s =
      s\<lparr>per_core_caches := (\<lambda>c. if c < m then Some (per_core_new c) else per_core_caches s c)\<rparr>" for m
    by (induction m) (auto simp: fun_eq_iff)
  then show ?thesis unfolding init_per_core_caches_def by blast
qed

lemma slab_boot_inv:
  assumes "regions_disjoint rs" and "\<forall>r \<in> set rs. region_end r \<le> 2 ^ 35"
  shows "slab_inv (slab_boot nx rs cpus h)"
proof -
  let ?s = "slab_boot nx rs cpus h" and ?b = "buddy_init rs buddy_new"
  have pc: "per_core_caches ?s c = Some pc \<Longrightarrow> pc = per_core_new c" for c pc
    by (auto simp: slab_boot_def init_caches split: if_splits)
  have new: "sfl_head (slab_list (caches (per_core_new c) ! k)) = None" "object_size (caches (per_core_new c) ! k) = osz k" if "k < 8" for c k
    using that by (simp_all add: per_core_new_def osz_def) (simp add: slab_new_def Let_def sfl_new_def)
  have "heads ?s c k = None" for c k using pc [of c] new by (auto simp: heads_def split: option.splits)
  moreover have "slab_shape ?s" unfolding slab_shape_def
  proof (intro allI impI)
    fix c p assume "per_core_caches ?s c = Some p"
    from pc [OF this] have p: "p = per_core_new c" .
    have "length (caches p) = 8" by (simp add: p per_core_new_def)
    then show "length (caches p) = 8 \<and> (\<forall>k < 8. object_size (caches p ! k) = osz k)" using new(2) by (simp add: p)
  qed
  moreover have "buddy_inv ?b" by (rule buddy_init_spec(1) [OF assms(1)])
  moreover have "x < 2 ^ 35" if x: "x \<in> free_set ?b" for x
  proof -
    from x buddy_init_spec(2) [OF assms(1)] obtain r where "r \<in> set rs" "x < region_end r" by (auto simp: region_frames_def)
    with assms(2) show ?thesis by (blast intro: less_le_trans)
  qed
  moreover have "frames ?s = ?b" by (simp add: slab_boot_def init_caches)
  ultimately show ?thesis unfolding slab_inv_def
    by (intro conjI exI [of _ "\<lambda>_ _. []"] slab_viewI) (auto simp: objects_def obj_bytes_def disjoint_family_on_def)
qed



end
