(* ===== verification/Scheduler.thy ===== *)
theory Scheduler
  imports Prelude "HOL-Library.Multiset"
begin

text \<open>
  The preemptive scheduler (\<open>src/src/task/scheduler.rs\<close>) with task control blocks and the context switch
  (\<open>src/src/task/context.rs\<close>) and the work-stealing queues (\<open>src/src/task/work_stealing.rs\<close>). Control blocks live in a store
  and are referred to by pointers; a register file per CPU makes the switch visible. The locks
  are not modelled: every operation is one step. A result \<open>None\<close> is a panic.
\<close>

subsection \<open>Contexts and control blocks\<close>

datatype TaskState = TsReady | TsRunning | TsBlocked | TsTerminated

record CpuContext =
  rbx :: u64
  rbp :: u64
  r12 :: u64
  r13 :: u64
  r14 :: u64
  r15 :: u64
  rsp :: u64
  rip :: u64
  rflags :: u64

definition ctx_empty :: CpuContext where
  "ctx_empty = \<lparr>rbx = 0, rbp = 0, r12 = 0, r13 = 0, r14 = 0, r15 = 0, rsp = 0, rip = 0, rflags = 0x200\<rparr>"

text \<open>\<open>new_task\<close>; the address of the trampoline is an argument.\<close>

definition new_task :: "u64 \<Rightarrow> u64 \<Rightarrow> u64 \<Rightarrow> u64 \<Rightarrow> CpuContext" where
  "new_task trampoline entry_point stack_top arg =
     \<lparr>rbx = 0, rbp = 0, r12 = entry_point, r13 = arg, r14 = 0, r15 = 0, rsp = wsub64 stack_top 8, rip = trampoline, rflags = 0x200\<rparr>"

definition STACK_SIZE :: usize where "STACK_SIZE = 16 * 1024"

text \<open>A kernel stack is the address of its memory.\<close>

type_synonym KernelStack = usize

definition stack_top :: "KernelStack \<Rightarrow> u64" where
  "stack_top base = wadd64 base STACK_SIZE div 16 * 16"

record TaskControlBlock =
  tcb_id :: u64
  state :: TaskState
  ctx :: CpuContext
  kernel_stack :: KernelStack
  priority :: nat
  cpu_time :: u64
  last_cpu :: "usize option"

text \<open>\<open>TaskControlBlock::new\<close> and \<open>idle\<close>; the stack is what the allocator returned, if anything.\<close>

definition task_cb_new :: "u64 \<Rightarrow> u64 \<Rightarrow> usize option \<Rightarrow> u64 \<Rightarrow> u64 \<Rightarrow> nat \<Rightarrow> TaskControlBlock option" where
  "task_cb_new i trampoline stack entry_point arg prio =
     (case stack of
        None \<Rightarrow> None
      | Some base \<Rightarrow> Some \<lparr>tcb_id = i, state = TsReady, ctx = new_task trampoline entry_point (stack_top base) arg,
          kernel_stack = base, priority = prio, cpu_time = 0, last_cpu = None\<rparr>)"

definition tcb_idle :: "u64 \<Rightarrow> usize \<Rightarrow> usize \<Rightarrow> TaskControlBlock" where
  "tcb_idle i base cpu = \<lparr>tcb_id = i, state = TsRunning, ctx = ctx_empty, kernel_stack = base, priority = 255,
     cpu_time = 0, last_cpu = Some cpu\<rparr>"

subsection \<open>One scheduler\<close>

definition PRIORITY_LEVELS :: usize where "PRIORITY_LEVELS = 8"
definition DEFAULT_TIME_SLICE :: u64 where "DEFAULT_TIME_SLICE = 10"
definition SCHED_CPUS :: usize where "SCHED_CPUS = 64"

type_synonym tcb_ptr = nat

record PerCpuScheduler =
  ps_cpu_id :: usize
  ready_queues :: "tcb_ptr list list"
  current :: "tcb_ptr option"
  idle_task :: "tcb_ptr option"
  remaining_slice :: u64
  need_reschedule :: bool

definition ps_new :: "usize \<Rightarrow> PerCpuScheduler" where
  "ps_new cpu = \<lparr>ps_cpu_id = cpu, ready_queues = replicate PRIORITY_LEVELS [], current = None, idle_task = None,
     remaining_slice = DEFAULT_TIME_SLICE, need_reschedule = False\<rparr>"

definition set_idle_task :: "tcb_ptr \<Rightarrow> PerCpuScheduler \<Rightarrow> PerCpuScheduler" where
  "set_idle_task idle p =
     (let p1 = p\<lparr>idle_task := Some idle\<rparr>
      in if current p1 = None then p1\<lparr>current := Some idle\<rparr> else p1)"

text \<open>The priority is read through the pointer, so the operations take the store of control blocks.\<close>

type_synonym tcb_store = "tcb_ptr \<Rightarrow> TaskControlBlock"

definition enqueue :: "tcb_store \<Rightarrow> tcb_ptr \<Rightarrow> PerCpuScheduler \<Rightarrow> PerCpuScheduler" where
  "enqueue st t p =
     (let queue_idx = min (priority (st t)) (PRIORITY_LEVELS - 1)
      in p\<lparr>ready_queues := (ready_queues p)[queue_idx := ready_queues p ! queue_idx @ [t]]\<rparr>)"

fun pop_first :: "tcb_ptr list list \<Rightarrow> tcb_ptr list list \<times> tcb_ptr option" where
  "pop_first [] = ([], None)"
| "pop_first ([] # qs) = (case pop_first qs of (qs', r) \<Rightarrow> ([] # qs', r))"
| "pop_first ((t # q) # qs) = (q # qs, Some t)"

definition dequeue_highest :: "PerCpuScheduler \<Rightarrow> PerCpuScheduler \<times> tcb_ptr option" where
  "dequeue_highest p = (case pop_first (ready_queues p) of (qs, r) \<Rightarrow> (p\<lparr>ready_queues := qs\<rparr>, r))"

definition pick_next :: "PerCpuScheduler \<Rightarrow> (PerCpuScheduler \<times> tcb_ptr) option" where
  "pick_next p =
     (case dequeue_highest p of
        (p', Some t) \<Rightarrow> Some (p', t)
      | (p', None) \<Rightarrow> (case idle_task p' of None \<Rightarrow> None | Some t \<Rightarrow> Some (p', t)))"

definition ps_tick :: "PerCpuScheduler \<Rightarrow> PerCpuScheduler \<times> bool" where
  "ps_tick p =
     (let p1 = (if remaining_slice p > 0 then p\<lparr>remaining_slice := remaining_slice p - 1\<rparr> else p)
      in if remaining_slice p1 = 0 then (p1\<lparr>need_reschedule := True\<rparr>, True) else (p1, False))"

definition request_reschedule :: "PerCpuScheduler \<Rightarrow> PerCpuScheduler" where
  "request_reschedule p = p\<lparr>need_reschedule := True\<rparr>"

subsection \<open>The tasking system\<close>

text \<open>
  The statics: control blocks, the schedulers, \<open>CURRENT_TASKS\<close>, \<open>TASK_LIST\<close>, the two counters; and the
  registers of each CPU.
\<close>

record Tasking =
  tcbs :: tcb_store
  next_ptr :: tcb_ptr
  next_task_id :: u64
  schedulers :: "usize \<Rightarrow> PerCpuScheduler option"
  current_tasks :: "usize \<Rightarrow> tcb_ptr option"
  task_list :: "tcb_ptr list"
  context_switch_count :: u64
  regs :: "usize \<Rightarrow> CpuContext"

definition set_current_task :: "usize \<Rightarrow> tcb_ptr \<Rightarrow> Tasking \<Rightarrow> Tasking" where
  "set_current_task cpu t s = (if cpu < 64 then s\<lparr>current_tasks := (current_tasks s)(cpu \<mapsto> t)\<rparr> else s)"

definition get_current_task :: "usize \<Rightarrow> Tasking \<Rightarrow> tcb_ptr option" where
  "get_current_task cpu s = (if cpu < 64 then current_tasks s cpu else None)"

text \<open>
  \<open>switch_context\<close>: the registers are saved in the old block, with the address of the label after the
  jump as instruction pointer, and loaded from the new one.
\<close>

definition switch_context :: "u64 \<Rightarrow> usize \<Rightarrow> tcb_ptr \<Rightarrow> tcb_ptr \<Rightarrow> Tasking \<Rightarrow> Tasking" where
  "switch_context resume cpu old new s =
     (let st = (tcbs s)(old := (tcbs s old)\<lparr>ctx := (regs s cpu)\<lparr>rip := resume\<rparr>\<rparr>)
      in s\<lparr>tcbs := st, regs := (regs s)(cpu := ctx (st new))\<rparr>)"

definition schedule_switch :: "u64 \<Rightarrow> usize \<Rightarrow> tcb_ptr \<Rightarrow> tcb_ptr \<Rightarrow> Tasking \<Rightarrow> Tasking" where
  "schedule_switch resume cpu cur next s =
     (if cur = next then s
      else let s1 = s\<lparr>context_switch_count := wadd64 (context_switch_count s) 1\<rparr>;
               st1 = (tcbs s1)(cur := (tcbs s1 cur)\<lparr>state := TsReady\<rparr>);
               st2 = st1(next := (st1 next)\<lparr>state := TsRunning, last_cpu := Some cpu\<rparr>)
           in switch_context resume cpu cur next (set_current_task cpu next (s1\<lparr>tcbs := st2\<rparr>)))"

text \<open>\<open>PerCpuScheduler::schedule\<close> on the scheduler of a CPU.\<close>

definition ps_schedule :: "u64 \<Rightarrow> usize \<Rightarrow> PerCpuScheduler \<Rightarrow> Tasking \<Rightarrow> Tasking option" where
  "ps_schedule resume cpu p s =
     (if \<not> need_reschedule p then Some s
      else let p1 = p\<lparr>need_reschedule := False\<rparr>
           in case current p1 of
                None \<Rightarrow> Some (s\<lparr>schedulers := (schedulers s)(cpu \<mapsto> p1)\<rparr>)
              | Some cur \<Rightarrow>
                  (let p2 = (if priority (tcbs s cur) < 255 then enqueue (tcbs s) cur p1 else p1)
                   in case pick_next p2 of
                        None \<Rightarrow> None
                      | Some (p3, next) \<Rightarrow>
                          if cur \<noteq> next then
                            (let p4 = p3\<lparr>current := Some next, remaining_slice := DEFAULT_TIME_SLICE\<rparr>
                             in Some (schedule_switch resume (ps_cpu_id p4) cur next (s\<lparr>schedulers := (schedulers s)(cpu \<mapsto> p4)\<rparr>)))
                          else Some (s\<lparr>schedulers := (schedulers s)(cpu \<mapsto> p3)\<rparr>)))"

definition with_scheduler :: "usize \<Rightarrow> (PerCpuScheduler \<Rightarrow> Tasking \<Rightarrow> Tasking option) \<Rightarrow> Tasking \<Rightarrow> Tasking option" where
  "with_scheduler cpu f s =
     (if SCHED_CPUS \<le> cpu then None else case schedulers s cpu of None \<Rightarrow> Some s | Some p \<Rightarrow> f p s)"

definition update_scheduler :: "usize \<Rightarrow> (PerCpuScheduler \<Rightarrow> PerCpuScheduler) \<Rightarrow> Tasking \<Rightarrow> Tasking option" where
  "update_scheduler cpu f s = with_scheduler cpu (\<lambda>p s. Some (s\<lparr>schedulers := (schedulers s)(cpu \<mapsto> f p)\<rparr>)) s"

definition block_current :: "usize \<Rightarrow> PerCpuScheduler \<Rightarrow> Tasking \<Rightarrow> Tasking option" where
  "block_current cpu p s =
     (case current p of
        None \<Rightarrow> Some s
      | Some cur \<Rightarrow> Some (s\<lparr>tcbs := (tcbs s)(cur := (tcbs s cur)\<lparr>state := TsBlocked\<rparr>),
                            schedulers := (schedulers s)(cpu \<mapsto> request_reschedule p)\<rparr>))"

definition unblock :: "usize \<Rightarrow> tcb_ptr \<Rightarrow> PerCpuScheduler \<Rightarrow> Tasking \<Rightarrow> Tasking option" where
  "unblock cpu t p s =
     (let st = (tcbs s)(t := (tcbs s t)\<lparr>state := TsReady\<rparr>)
      in Some (s\<lparr>tcbs := st, schedulers := (schedulers s)(cpu \<mapsto> request_reschedule (enqueue st t p))\<rparr>))"

text \<open>\<open>init_scheduler\<close>; a stack that cannot be allocated is a panic.\<close>

definition init_scheduler :: "usize option \<Rightarrow> usize \<Rightarrow> Tasking \<Rightarrow> Tasking option" where
  "init_scheduler stack cpu s =
     (if SCHED_CPUS \<le> cpu then None
      else case schedulers s cpu of
             Some _ \<Rightarrow> Some s
           | None \<Rightarrow>
               (case stack of
                  None \<Rightarrow> None
                | Some base \<Rightarrow>
                    (let idle = next_ptr s;
                         p = set_idle_task idle (ps_new cpu)
                     in Some (s\<lparr>tcbs := (tcbs s)(idle := tcb_idle (next_task_id s) base cpu), next_ptr := idle + 1,
                                next_task_id := wadd64 (next_task_id s) 1, schedulers := (schedulers s)(cpu \<mapsto> p)\<rparr>))))"

definition spawn_task :: "u64 \<Rightarrow> usize option \<Rightarrow> u64 \<Rightarrow> u64 \<Rightarrow> nat \<Rightarrow> Tasking \<Rightarrow> Tasking \<times> u64 option" where
  "spawn_task trampoline stack entry_point arg prio s =
     (case task_cb_new (next_task_id s) trampoline stack entry_point arg prio of
        None \<Rightarrow> (s, None)
      | Some tcb \<Rightarrow>
          (let t = next_ptr s;
               s1 = s\<lparr>tcbs := (tcbs s)(t := tcb), next_ptr := t + 1, next_task_id := wadd64 (next_task_id s) 1,
                      task_list := task_list s @ [t]\<rparr>;
               s2 = (case schedulers s1 0 of
                       None \<Rightarrow> s1
                     | Some p \<Rightarrow> s1\<lparr>schedulers := (schedulers s1)(0 \<mapsto> enqueue (tcbs s1) t p)\<rparr>)
           in (s2, Some (tcb_id tcb))))"

definition timer_tick :: "usize \<Rightarrow> Tasking \<Rightarrow> Tasking option" where
  "timer_tick cpu s = update_scheduler cpu (\<lambda>p. fst (ps_tick p)) s"

definition schedule :: "u64 \<Rightarrow> usize \<Rightarrow> Tasking \<Rightarrow> Tasking option" where
  "schedule resume cpu s = with_scheduler cpu (ps_schedule resume cpu) s"

definition sched_request :: "usize \<Rightarrow> Tasking \<Rightarrow> Tasking option" where
  "sched_request cpu s = update_scheduler cpu request_reschedule s"

definition yield_current :: "u64 \<Rightarrow> usize \<Rightarrow> Tasking \<Rightarrow> Tasking option" where
  "yield_current resume cpu s = Option.bind (sched_request cpu s) (schedule resume cpu)"

subsection \<open>Work-stealing queues\<close>

text \<open>The owner works at the back of its queue, thieves take from the front.\<close>

type_synonym 't WorkStealingQueue = "'t list"

definition ws_push :: "'t \<Rightarrow> 't WorkStealingQueue \<Rightarrow> 't WorkStealingQueue" where
  "ws_push t q = q @ [t]"

definition ws_pop :: "'t WorkStealingQueue \<Rightarrow> 't WorkStealingQueue \<times> 't option" where
  "ws_pop q = (if q = [] then (q, None) else (butlast q, Some (last q)))"

definition ws_steal :: "'t WorkStealingQueue \<Rightarrow> 't WorkStealingQueue \<times> 't option" where
  "ws_steal q = (case q of [] \<Rightarrow> ([], None) | t # ts \<Rightarrow> (ts, Some t))"

definition inject_global :: "'t \<Rightarrow> 't list \<Rightarrow> 't list" where
  "inject_global t q = q @ [t]"

definition steal_from_global :: "'t list \<Rightarrow> 't list \<times> 't option" where
  "steal_from_global q = (case q of [] \<Rightarrow> ([], None) | t # ts \<Rightarrow> (ts, Some t))"

definition register_worker :: "'t WorkStealingQueue \<Rightarrow> 't WorkStealingQueue list \<Rightarrow> 't WorkStealingQueue list" where
  "register_worker q ws = ws @ [q]"

text \<open>The loop of \<open>steal_from_workers\<close> from worker \<open>i\<close> on.\<close>

fun steal_scan :: "usize \<Rightarrow> usize \<Rightarrow> 't WorkStealingQueue list \<Rightarrow> 't WorkStealingQueue list \<times> 't option" where
  "steal_scan my_index i [] = ([], None)"
| "steal_scan my_index i (w # ws) =
     (if i = my_index then (case steal_scan my_index (Suc i) ws of (ws', r) \<Rightarrow> (w # ws', r))
      else case ws_steal w of
             (w', Some t) \<Rightarrow> (w' # ws, Some t)
           | (w', None) \<Rightarrow> (case steal_scan my_index (Suc i) ws of (ws', r) \<Rightarrow> (w' # ws', r)))"

definition steal_from_workers :: "usize \<Rightarrow> 't WorkStealingQueue list \<Rightarrow> 't WorkStealingQueue list \<times> 't option" where
  "steal_from_workers my_index ws = steal_scan my_index 0 ws"

text \<open>A task stolen leaves exactly one queue, and never the thief's own.\<close>

lemma steal_scan_conserves:
  "steal_scan m i ws = (ws', r) \<Longrightarrow>
     mset (concat ws) = mset (concat ws') + mset (case r of None \<Rightarrow> [] | Some t \<Rightarrow> [t]) \<and> length ws' = length ws \<and>
     (\<forall>j < length ws. i + j = m \<longrightarrow> ws' ! j = ws ! j)"
proof (induction ws arbitrary: i ws' r)
  case (Cons w ws)
  show ?case
  proof (cases "i = m \<or> w = []")
    case True
    obtain ws1 r1 where s: "steal_scan m (Suc i) ws = (ws1, r1)" by (cases "steal_scan m (Suc i) ws")
    from True Cons.prems s have e: "ws' = w # ws1" "r = r1" by (auto simp: ws_steal_def split: if_splits)
    from Cons.IH [OF s] show ?thesis by (auto simp: e nth_Cons split: nat.splits)
  next
    case False
    with Cons.prems show ?thesis by (cases w) (auto simp: ws_steal_def nth_Cons split: nat.splits)
  qed
qed simp

lemma steal_from_workers_conserves:
  "steal_from_workers m ws = (ws', r) \<Longrightarrow>
     mset (concat ws) = mset (concat ws') + mset (case r of None \<Rightarrow> [] | Some t \<Rightarrow> [t]) \<and> (m < length ws \<longrightarrow> ws' ! m = ws ! m)"
  unfolding steal_from_workers_def by (drule steal_scan_conserves) auto

subsection \<open>Picking and queueing\<close>

lemma pop_first_level:
  assumes "q < length qs" and "\<forall>j < q. qs ! j = []" and "qs ! q = t # ts"
  shows "pop_first qs = (qs[q := ts], Some t)"
  using assms
proof (induction qs arbitrary: q rule: pop_first.induct)
  case (2 qs)
  then obtain q' where q: "q = Suc q'" by (cases q) auto
  have "\<forall>j < q'. qs ! j = []" using 2(3) unfolding q by (metis Suc_mono nth_Cons_Suc)
  with 2 q show ?case by simp
next
  case (3 u us qs)
  have "q = 0"
  proof (rule ccontr)
    assume "q \<noteq> 0"
    with 3(2) have "((u # us) # qs) ! 0 = []" by blast
    then show False by simp
  qed
  with 3 show ?case by simp
qed simp

lemma pop_first_mset: "pop_first qs = (qs', r) \<Longrightarrow>
   mset (concat qs) = mset (concat qs') + mset (case r of None \<Rightarrow> [] | Some t \<Rightarrow> [t]) \<and> (r = None \<longrightarrow> concat qs = []) \<and> length qs' = length qs"
  by (induction qs arbitrary: qs' r rule: pop_first.induct) (auto split: prod.splits)

abbreviation level :: "TaskControlBlock \<Rightarrow> nat" where
  "level t \<equiv> min (priority t) 7"

lemma enqueue_queues: "ready_queues (enqueue st t p) = (ready_queues p)[level (st t) := ready_queues p ! level (st t) @ [t]]"
  by (simp add: enqueue_def PRIORITY_LEVELS_def Let_def)

lemma enqueue_simps [simp]: "current (enqueue st t p) = current p" "idle_task (enqueue st t p) = idle_task p"
  "ps_cpu_id (enqueue st t p) = ps_cpu_id p" "need_reschedule (enqueue st t p) = need_reschedule p"
  by (simp_all add: enqueue_def Let_def)

lemma schedule_switch_simps [simp]:
  "schedulers (schedule_switch resume cpu a b s) = schedulers s"
  "priority (tcbs (schedule_switch resume cpu a b s) t) = priority (tcbs s t)"
  by (simp_all add: schedule_switch_def switch_context_def set_current_task_def Let_def)

subsection \<open>Yielding\<close>

fun yields :: "u64 \<Rightarrow> usize \<Rightarrow> nat \<Rightarrow> Tasking \<Rightarrow> Tasking option" where
  "yields resume cpu 0 s = Some s"
| "yields resume cpu (Suc n) s = Option.bind (yields resume cpu n s) (yield_current resume cpu)"

text \<open>
  The running task and those waiting at its level, \<open>ts\<close> with the running one first, with nothing
  waiting at the levels before it.
\<close>

definition at_level :: "usize \<Rightarrow> nat \<Rightarrow> tcb_ptr list list \<Rightarrow> tcb_ptr list \<Rightarrow> Tasking \<Rightarrow> bool" where
  "at_level cpu q qs ts s =
     (\<exists>p. schedulers s cpu = Some p \<and> ts \<noteq> [] \<and> current p = Some (hd ts) \<and> ready_queues p = qs[q := tl ts] \<and>
        (\<forall>t \<in> set ts. level (tcbs s t) = q \<and> priority (tcbs s t) < 255))"

lemma yield_rotates:
  assumes cpu: "cpu < 64" and qs: "length qs = 8" "\<forall>j < q. qs ! j = []" and a: "at_level cpu q qs ts s"
  shows "\<exists>s'. yield_current resume cpu s = Some s' \<and> at_level cpu q qs (rotate1 ts) s'"
proof -
  from a obtain p where p: "schedulers s cpu = Some p" "current p = Some (hd ts)" "ready_queues p = qs[q := tl ts]" "ts \<noteq> []"
    and t: "\<forall>t \<in> set ts. level (tcbs s t) = q \<and> priority (tcbs s t) < 255" by (auto simp: at_level_def)
  obtain c xs where ts: "ts = c # xs" using p(4) by (cases ts) auto
  have q: "q < 8" using t by (auto simp: ts)
  have lc: "level (tcbs s c) = q" "priority (tcbs s c) < 255" using t by (simp_all add: ts)
  let ?p = "p\<lparr>need_reschedule := True\<rparr>" and ?s = "s\<lparr>schedulers := (schedulers s)(cpu \<mapsto> p\<lparr>need_reschedule := True\<rparr>)\<rparr>"
  let ?p2 = "enqueue (tcbs s) c (p\<lparr>need_reschedule := False\<rparr>)"
  obtain u us where u: "xs @ [c] = u # us" by (cases "xs @ [c]") auto
  have q2: "ready_queues ?p2 = qs[q := u # us]" using q qs(1) by (simp add: enqueue_queues lc(1) p(3) ts u)
  have pick: "pick_next ?p2 = Some (?p2\<lparr>ready_queues := qs[q := us]\<rparr>, u)"
    using pop_first_level [of q "qs[q := u # us]" u us] q qs by (simp add: pick_next_def dequeue_highest_def q2)
  let ?p3 = "?p2\<lparr>ready_queues := qs[q := us]\<rparr>"
  have prio: "\<forall>t \<in> set (u # us). level (tcbs s t) = q \<and> priority (tcbs s t) < 255"
    using t unfolding u [symmetric] by (simp add: ts)
  have step: "yield_current resume cpu s = ps_schedule resume cpu ?p ?s"
    using cpu p(1) by (simp add: yield_current_def sched_request_def update_scheduler_def with_scheduler_def schedule_def
        SCHED_CPUS_def request_reschedule_def)
  have r: "rotate1 ts = u # us" by (simp add: ts u)
  show ?thesis
  proof (cases "c = u")
    case True
    have "yield_current resume cpu s = Some (?s\<lparr>schedulers := (schedulers ?s)(cpu \<mapsto> ?p3)\<rparr>)"
      unfolding step ps_schedule_def using p(2) lc(2) pick True by (simp add: ts Let_def)
    moreover have "at_level cpu q qs (u # us) (?s\<lparr>schedulers := (schedulers ?s)(cpu \<mapsto> ?p3)\<rparr>)"
      unfolding at_level_def by (rule exI [of _ ?p3]) (use prio p(2) True in \<open>auto simp: ts\<close>)
    ultimately show ?thesis unfolding r by blast
  next
    case False
    let ?p4 = "?p3\<lparr>current := Some u, remaining_slice := DEFAULT_TIME_SLICE\<rparr>"
    let ?s' = "schedule_switch resume (ps_cpu_id ?p4) c u (?s\<lparr>schedulers := (schedulers ?s)(cpu \<mapsto> ?p4)\<rparr>)"
    have "yield_current resume cpu s = Some ?s'"
      unfolding step ps_schedule_def using p(2) lc(2) pick False by (simp add: ts Let_def)
    moreover have "at_level cpu q qs (u # us) ?s'"
      unfolding at_level_def by (rule exI [of _ ?p4]) (use prio in auto)
    ultimately show ?thesis unfolding r by blast
  qed
qed

lemma yields_rotate:
  assumes "cpu < 64" and "length qs = 8" and "\<forall>j < q. qs ! j = []" and "at_level cpu q qs ts s"
  shows "\<exists>s'. yields resume cpu k s = Some s' \<and> at_level cpu q qs (rotate k ts) s'"
proof (induction k)
  case (Suc k)
  then obtain s' where "yields resume cpu k s = Some s'" "at_level cpu q qs (rotate k ts) s'" by blast
  with yield_rotates [OF assms(1-3)] show ?case by fastforce
qed (use assms(4) in simp)

lemma enqueue_mset:
  assumes "length (ready_queues p) = 8"
  shows "mset (concat (ready_queues (enqueue st t p))) = add_mset t (mset (concat (ready_queues p)))"
proof -
  let ?q = "ready_queues p" and ?l = "level (st t)"
  have l: "?l < length ?q" using assms by simp
  have "mset (concat (?q[?l := ?q ! ?l @ [t]])) = add_mset t (mset (concat (take ?l ?q @ ?q ! ?l # drop (Suc ?l) ?q)))"
    by (simp add: upd_conv_take_nth_drop [OF l])
  then show ?thesis by (simp only: enqueue_queues id_take_nth_drop [OF l, symmetric])
qed

lemma switch_state: "a \<noteq> b \<Longrightarrow> state (tcbs (schedule_switch resume cpu a b s) a) = TsReady"
  by (simp add: schedule_switch_def switch_context_def set_current_task_def Let_def)

text \<open>A system with the idle task 0 and two tasks of priority 3, after the first yield.\<close>

definition two_tasks :: Tasking where
  "two_tasks =
     (let s0 = \<lparr>tcbs = (\<lambda>_. tcb_idle 0 0 0), next_ptr = 0, next_task_id = 0, schedulers = Map.empty, current_tasks = Map.empty,
            task_list = [], context_switch_count = 0, regs = (\<lambda>_. ctx_empty)\<rparr>;
          s1 = the (init_scheduler (Some 4096) 0 s0);
          s2 = fst (spawn_task 7 (Some 36864) 100 0 3 (fst (spawn_task 7 (Some 20480) 100 0 3 s1)))
      in the (yield_current 9 0 s2))"

lemma two_tasks_state:
  obtains p where "schedulers two_tasks 0 = Some p" "current p = Some 1" "ready_queues p = [[], [], [], [2], [], [], [], []]"
    "priority (tcbs two_tasks 1) = 3" "priority (tcbs two_tasks 2) = 3"
proof -
  have d: "map_option (\<lambda>p. (current p, ready_queues p)) (schedulers two_tasks 0) = Some (Some 1, [[], [], [], [2], [], [], [], []])"
    "priority (tcbs two_tasks 1) = 3" "priority (tcbs two_tasks 2) = 3" by code_simp+
  with that show thesis by auto
qed

subsection \<open>Properties\<close>



text \<open>
  C40: Blocking the running task does not take it off the CPU for good: \<open>block_current\<close> marks it as blocked,
  but the reschedule it asks for puts it back into its ready queue and, when another task is
  picked, marks it as ready again; otherwise it simply goes on running.
\<close>

theorem block_current_ineffective:
  assumes "cpu < 64" and "schedulers s cpu = Some p" and "current p = Some c" and "length (ready_queues p) = 8"
    and "priority (tcbs s c) < 255"
  shows "\<exists>s1 s2 p2. with_scheduler cpu (block_current cpu) s = Some s1 \<and> state (tcbs s1 c) = TsBlocked \<and>
    schedule resume cpu s1 = Some s2 \<and> schedulers s2 cpu = Some p2 \<and>
    (current p2 = Some c \<or> c \<in> set (concat (ready_queues p2)) \<and> state (tcbs s2 c) = TsReady)"
proof -
  let ?p = "request_reschedule p" and ?st = "(tcbs s)(c := (tcbs s c)\<lparr>state := TsBlocked\<rparr>)"
  let ?s1 = "s\<lparr>tcbs := ?st, schedulers := (schedulers s)(cpu \<mapsto> ?p)\<rparr>"
  have b: "with_scheduler cpu (block_current cpu) s = Some ?s1"
    using assms(1-3) by (simp add: with_scheduler_def block_current_def SCHED_CPUS_def)
  have sch: "schedule resume cpu ?s1 = ps_schedule resume cpu ?p ?s1"
    using assms(1) by (simp add: schedule_def with_scheduler_def SCHED_CPUS_def)
  let ?p1 = "?p\<lparr>need_reschedule := False\<rparr>" let ?p2 = "enqueue ?st c ?p1"
  have len: "length (ready_queues ?p1) = 8" using assms(4) by (simp add: request_reschedule_def)
  obtain qs r where pop: "pop_first (ready_queues ?p2) = (qs, r)" by (cases "pop_first (ready_queues ?p2)")
  note E = enqueue_mset [OF len, of ?st c] and M = pop_first_mset [OF pop]
  have "concat (ready_queues ?p2) \<noteq> []"
  proof
    assume "concat (ready_queues ?p2) = []"
    with E show False by (simp only: mset.simps empty_not_add_mset)
  qed
  then obtain n where r: "r = Some n" using M by (cases r) simp_all
  have pick: "pick_next ?p2 = Some (?p2\<lparr>ready_queues := qs\<rparr>, n)" using pop r by (simp add: pick_next_def dequeue_highest_def)
  have mem: "c = n \<or> c \<in> set (concat qs)"
  proof -
    have "c \<in># mset (concat (ready_queues ?p2))" unfolding E by simp
    with M r show ?thesis by auto
  qed
  have cur: "current ?p1 = Some c" "priority (?st c) < 255" "need_reschedule ?p" using assms(3,5) by (simp_all add: request_reschedule_def)
  show ?thesis
  proof (cases "c = n")
    case True
    let ?s2 = "?s1\<lparr>schedulers := (schedulers ?s1)(cpu \<mapsto> ?p2\<lparr>ready_queues := qs\<rparr>)\<rparr>"
    have "schedule resume cpu ?s1 = Some ?s2" unfolding sch ps_schedule_def using cur pick True by (simp add: Let_def)
    then show ?thesis using b cur(1) by (intro exI [of _ ?s1] exI [of _ ?s2] exI [of _ "?p2\<lparr>ready_queues := qs\<rparr>"]) simp
  next
    case False
    let ?p4 = "?p2\<lparr>ready_queues := qs, current := Some n, remaining_slice := DEFAULT_TIME_SLICE\<rparr>"
    let ?s2 = "schedule_switch resume (ps_cpu_id ?p4) c n (?s1\<lparr>schedulers := (schedulers ?s1)(cpu \<mapsto> ?p4)\<rparr>)"
    have "schedule resume cpu ?s1 = Some ?s2" unfolding sch ps_schedule_def using cur pick False by (simp add: Let_def)
    then show ?thesis using b mem False switch_state [OF False]
      by (intro exI [of _ ?s1] exI [of _ ?s2] exI [of _ ?p4]) simp
  qed
qed

theorem block_current_ineffective_witness:
  "\<exists>s1 s2 p2. with_scheduler 0 (block_current 0) two_tasks = Some s1 \<and> schedule 9 0 s1 = Some s2 \<and> schedulers s2 0 = Some p2 \<and>
     (current p2 = Some 1 \<or> 1 \<in> set (concat (ready_queues p2)) \<and> state (tcbs s2 1) = TsReady)"
proof -
  obtain p where p: "schedulers two_tasks 0 = Some p" "current p = Some 1" "ready_queues p = [[], [], [], [2], [], [], [], []]"
    and d: "priority (tcbs two_tasks 1) = 3" by (rule two_tasks_state)
  have h: "(0 :: nat) < 64" "length (ready_queues p) = 8" "priority (tcbs two_tasks 1) < 255" using d by (simp_all add: p(3))
  from block_current_ineffective [OF h(1) p(1,2) h(2,3), of 9] show ?thesis by blast
qed

end
