(* ===== verification/Spsc.thy ===== *)
theory Spsc
  imports Fifo
begin

text \<open>
  The lock-free ring buffer with one producer and one consumer and the back-off counter
  (\<open>src/src/sync/lockfree.rs\<close>). The two sides run concurrently: every access to shared memory, a load or a store
  of an index or of a slot, is one step, and the steps of the sides interleave freely. The memory
  orderings of the source make the index stores publish the slots; accordingly the steps act on one
  sequentially consistent memory. A slot that was never written is \<open>None\<close>.
\<close>

subsection \<open>Back-off\<close>

definition BACKOFF_SPIN_LIMIT :: nat where "BACKOFF_SPIN_LIMIT = 6"
definition BACKOFF_YIELD_LIMIT :: nat where "BACKOFF_YIELD_LIMIT = 10"

record Backoff =
  bo_step :: nat

definition bo_new :: Backoff where "bo_new = \<lparr>bo_step = 0\<rparr>"

definition bo_reset :: "Backoff \<Rightarrow> Backoff" where "bo_reset b = b\<lparr>bo_step := 0\<rparr>"

text \<open>The spinning itself has no effect on memory.\<close>

definition bo_spin :: "Backoff \<Rightarrow> Backoff" where
  "bo_spin b = (if bo_step b < BACKOFF_YIELD_LIMIT then b\<lparr>bo_step := bo_step b + 1\<rparr> else b)"

definition bo_snooze :: "Backoff \<Rightarrow> Backoff" where
  "bo_snooze b = (if bo_step b \<le> BACKOFF_SPIN_LIMIT then b\<lparr>bo_step := bo_step b + 1\<rparr> else b)"

definition is_completed :: "Backoff \<Rightarrow> bool" where
  "is_completed b = (BACKOFF_YIELD_LIMIT < bo_step b)"

text \<open>The counter stops at the limit that \<open>is_completed\<close> wants exceeded: it never completes.\<close>

definition bo_within :: "Backoff \<Rightarrow> bool" where
  "bo_within b = (bo_step b \<le> BACKOFF_YIELD_LIMIT)"

lemma bo_within [simp]:
  "bo_within bo_new" "bo_within (bo_reset b)" "bo_within b \<Longrightarrow> bo_within (bo_spin b)"
  "bo_within b \<Longrightarrow> bo_within (bo_snooze b)"
  by (simp_all add: bo_within_def bo_new_def bo_reset_def bo_spin_def bo_snooze_def BACKOFF_YIELD_LIMIT_def BACKOFF_SPIN_LIMIT_def)

lemma never_completed [simp]: "bo_within b \<Longrightarrow> \<not> is_completed b"
  by (simp add: bo_within_def is_completed_def)

subsection \<open>The ring buffer\<close>

record 'a SpscRingBuffer =
  sq_head :: usize
  sq_tail :: usize
  sq_buffer :: "usize \<Rightarrow> 'a option"

definition spsc_new :: "usize \<Rightarrow> 'a SpscRingBuffer option" where
  "spsc_new N = (if 2 \<le> N then Some \<lparr>sq_head = 0, sq_tail = 0, sq_buffer = (\<lambda>_. None)\<rparr> else None)"

definition spsc_capacity :: "usize \<Rightarrow> usize" where
  "spsc_capacity N = N - 1"

text \<open>The queries, on the values their two loads return.\<close>

definition spsc_len :: "usize \<Rightarrow> usize \<Rightarrow> usize \<Rightarrow> usize" where
  "spsc_len N head tail = wsub64 head tail mod N"

definition spsc_is_empty :: "usize \<Rightarrow> usize \<Rightarrow> bool" where
  "spsc_is_empty head tail = (head = tail)"

definition spsc_is_full :: "usize \<Rightarrow> usize \<Rightarrow> usize \<Rightarrow> bool" where
  "spsc_is_full N head tail = (wadd64 head 1 mod N = tail)"

text \<open>
  A call of \<open>push\<close>, access by access: \<open>head\<close> is loaded; \<open>tail\<close> is loaded and compared; the slot is written; \<open>head\<close> is
  stored. Between calls the producer holds the result of the last one, \<open>Inl\<close> being the value handed
  back by a full ring.
\<close>

datatype 'a producer = PReturned "('a + unit) option" | PLoaded 'a usize | PWrite 'a usize | PStore 'a usize

definition push_step :: "usize \<Rightarrow> 'a SpscRingBuffer \<Rightarrow> 'a producer \<Rightarrow> 'a SpscRingBuffer \<times> 'a producer" where
  "push_step N r p =
     (case p of
        PReturned _ \<Rightarrow> (r, p)
      | PLoaded v head \<Rightarrow>
          (r, if (head + 1) mod N = sq_tail r then PReturned (Some (Inl v)) else PWrite v head)
      | PWrite v head \<Rightarrow> (r\<lparr>sq_buffer := (sq_buffer r)(head := Some v)\<rparr>, PStore v head)
      | PStore v head \<Rightarrow> (r\<lparr>sq_head := (head + 1) mod N\<rparr>, PReturned (Some (Inr ()))))"

definition push_call :: "'a \<Rightarrow> 'a SpscRingBuffer \<Rightarrow> 'a producer \<Rightarrow> 'a producer" where
  "push_call v r p = (case p of PReturned _ \<Rightarrow> PLoaded v (sq_head r) | _ \<Rightarrow> p)"

text \<open>A call of \<open>pop\<close>; \<open>peek\<close> is the same without the last store.\<close>

datatype 'a consumer = CReturned "'a option option" | CLoaded bool usize | CRead bool usize | CStore usize "'a option"

definition pop_call :: "bool \<Rightarrow> 'a SpscRingBuffer \<Rightarrow> 'a consumer \<Rightarrow> 'a consumer" where
  "pop_call peeking r c = (case c of CReturned _ \<Rightarrow> CLoaded peeking (sq_tail r) | _ \<Rightarrow> c)"

definition pop_step :: "usize \<Rightarrow> 'a SpscRingBuffer \<Rightarrow> 'a consumer \<Rightarrow> 'a SpscRingBuffer \<times> 'a consumer" where
  "pop_step N r c =
     (case c of
        CReturned _ \<Rightarrow> (r, c)
      | CLoaded peeking tail \<Rightarrow> (r, if tail = sq_head r then CReturned (Some None) else CRead peeking tail)
      | CRead peeking tail \<Rightarrow>
          (r, if peeking then CReturned (Some (sq_buffer r tail)) else CStore tail (sq_buffer r tail))
      | CStore tail v \<Rightarrow> (r\<lparr>sq_tail := (tail + 1) mod N\<rparr>, CReturned (Some v)))"

subsection \<open>Messages between cores\<close>

datatype InterCoreMessage =
  MigrateTask u64 nat nat
| StealRequest nat
| StealResponse "u64 option"
| RelayInterrupt nat
| Shutdown
| Custom u64

definition DEFAULT_QUEUE_SIZE :: usize where "DEFAULT_QUEUE_SIZE = 256"

type_synonym InterCoreChannel = "InterCoreMessage SpscRingBuffer"

definition create_inter_core_channel :: "InterCoreChannel option" where
  "create_inter_core_channel = spsc_new DEFAULT_QUEUE_SIZE"

subsection \<open>Interleavings\<close>

record 'a spsc_system =
  spsc_ring :: "'a SpscRingBuffer"
  spsc_prod :: "'a producer"
  spsc_cons :: "'a consumer"

datatype 'a spsc_move = Push 'a | Pop | Peek | ProducerStep | ConsumerStep

text \<open>One step of either side, with the values that went in and came out: a value goes in when \<open>head\<close> passes it and comes out when \<open>tail\<close> does.\<close>

definition spsc_step ::
  "usize \<Rightarrow> 'a spsc_move \<Rightarrow> 'a spsc_system \<Rightarrow> 'a spsc_system \<times> 'a option list \<times> 'a option list" where
  "spsc_step N m s =
     (case m of
        Push v \<Rightarrow> (s\<lparr>spsc_prod := push_call v (spsc_ring s) (spsc_prod s)\<rparr>, [], [])
      | Pop \<Rightarrow> (s\<lparr>spsc_cons := pop_call False (spsc_ring s) (spsc_cons s)\<rparr>, [], [])
      | Peek \<Rightarrow> (s\<lparr>spsc_cons := pop_call True (spsc_ring s) (spsc_cons s)\<rparr>, [], [])
      | ProducerStep \<Rightarrow>
          (case push_step N (spsc_ring s) (spsc_prod s) of
             (r, p) \<Rightarrow> (s\<lparr>spsc_ring := r, spsc_prod := p\<rparr>, case spsc_prod s of PStore v _ \<Rightarrow> [Some v] | _ \<Rightarrow> [], []))
      | ConsumerStep \<Rightarrow>
          (case pop_step N (spsc_ring s) (spsc_cons s) of
             (r, c) \<Rightarrow> (s\<lparr>spsc_ring := r, spsc_cons := c\<rparr>, [], case spsc_cons s of CStore _ v \<Rightarrow> [v] | _ \<Rightarrow> [])))"

definition ring_dist :: "usize \<Rightarrow> usize \<Rightarrow> usize \<Rightarrow> usize" where
  "ring_dist N head tail = (if tail \<le> head then head - tail else head + N - tail)"

definition spsc_contents :: "usize \<Rightarrow> 'a SpscRingBuffer \<Rightarrow> 'a option list" where
  "spsc_contents N r = map (\<lambda>i. sq_buffer r ((sq_tail r + i) mod N)) [0..<ring_dist N (sq_head r) (sq_tail r)]"

text \<open>What each side relies on between its steps.\<close>

fun prod_ok :: "usize \<Rightarrow> 'a SpscRingBuffer \<Rightarrow> 'a producer \<Rightarrow> bool" where
  "prod_ok N r (PReturned _) = True"
| "prod_ok N r (PLoaded v h) = (h = sq_head r)"
| "prod_ok N r (PWrite v h) = (h = sq_head r \<and> (h + 1) mod N \<noteq> sq_tail r)"
| "prod_ok N r (PStore v h) = (h = sq_head r \<and> (h + 1) mod N \<noteq> sq_tail r \<and> sq_buffer r h = Some v)"

fun cons_ok :: "'a SpscRingBuffer \<Rightarrow> 'a consumer \<Rightarrow> bool" where
  "cons_ok r (CReturned _) = True"
| "cons_ok r (CLoaded pk t) = (t = sq_tail r)"
| "cons_ok r (CRead pk t) = (t = sq_tail r \<and> t \<noteq> sq_head r)"
| "cons_ok r (CStore t v) = (t = sq_tail r \<and> t \<noteq> sq_head r \<and> v = sq_buffer r t)"

definition spsc_inv :: "usize \<Rightarrow> 'a spsc_system \<Rightarrow> bool" where
  "spsc_inv N s =
     (2 \<le> N \<and> sq_head (spsc_ring s) < N \<and> sq_tail (spsc_ring s) < N \<and>
      prod_ok N (spsc_ring s) (spsc_prod s) \<and> cons_ok (spsc_ring s) (spsc_cons s))"

lemma ring_dist_less: "h < N \<Longrightarrow> t < N \<Longrightarrow> ring_dist N h t < N"
  by (auto simp: ring_dist_def)

lemma succ_mod: "h < (N :: nat) \<Longrightarrow> (h + 1) mod N = (if h + 1 = N then 0 else h + 1)"
  by auto

lemma ring_dist_end: "h < N \<Longrightarrow> t < N \<Longrightarrow> (t + ring_dist N h t) mod N = h"
  by (auto simp: ring_dist_def)

lemma ring_dist_push:
  "h < N \<Longrightarrow> t < N \<Longrightarrow> (h + 1) mod N \<noteq> t \<Longrightarrow> ring_dist N ((h + 1) mod N) t = Suc (ring_dist N h t)"
  by (subst succ_mod, simp) (auto simp: ring_dist_def succ_mod split: if_splits)

lemma ring_dist_pop:
  "h < N \<Longrightarrow> t < N \<Longrightarrow> t \<noteq> h \<Longrightarrow> ring_dist N h t = Suc (ring_dist N h ((t + 1) mod N))"
  by (subst succ_mod, simp) (auto simp: ring_dist_def split: if_splits)

lemma ring_dist_full: "h < N \<Longrightarrow> t < N \<Longrightarrow> (h + 1) mod N = t \<Longrightarrow> ring_dist N h t = N - 1"
  by (cases "h + 1 = N") (auto simp: ring_dist_def)

lemma ring_dist_zero [simp]: "h < N \<Longrightarrow> t < N \<Longrightarrow> ring_dist N h t = 0 \<longleftrightarrow> h = t"
  by (auto simp: ring_dist_def)

text \<open>A slot outside the filled part may be written.\<close>

lemma ring_slot_free:
  assumes "h < N" and "t < N" and "i < ring_dist N h t"
  shows "(t + i) mod N \<noteq> h"
proof -
  have "t + i < 2 * N" using assms ring_dist_less [OF assms(1,2)] by simp
  then have "(t + i) mod N = (if t + i < N then t + i else t + i - N)" by (simp add: le_mod_geq)
  then show ?thesis using assms by (auto simp: ring_dist_def split: if_splits)
qed

lemma contents_write:
  "sq_head r < N \<Longrightarrow> sq_tail r < N \<Longrightarrow>
     spsc_contents N (r\<lparr>sq_buffer := (sq_buffer r)(sq_head r := x)\<rparr>) = spsc_contents N r"
  by (auto simp: spsc_contents_def ring_slot_free)

lemma contents_push:
  "sq_head r < N \<Longrightarrow> sq_tail r < N \<Longrightarrow> (sq_head r + 1) mod N \<noteq> sq_tail r \<Longrightarrow>
     spsc_contents N (r\<lparr>sq_head := (sq_head r + 1) mod N\<rparr>) = spsc_contents N r @ [sq_buffer r (sq_head r)]"
  by (simp add: spsc_contents_def ring_dist_push ring_dist_end del: mod_Suc_eq One_nat_def)

lemma contents_pop:
  assumes "sq_head r < N" and "sq_tail r < N" and "sq_tail r \<noteq> sq_head r"
  shows "spsc_contents N r = sq_buffer r (sq_tail r) # spsc_contents N (r\<lparr>sq_tail := (sq_tail r + 1) mod N\<rparr>)"
  using assms
  by (simp add: spsc_contents_def ring_dist_pop upt_conv_Cons map_Suc_upt [symmetric] del: upt_Suc map_Suc_upt One_nat_def)
     (simp add: mod_add_left_eq comp_def)

lemma contents_length [simp]: "length (spsc_contents N r) = ring_dist N (sq_head r) (sq_tail r)"
  by (simp add: spsc_contents_def)

lemma contents_Nil: "sq_head r < N \<Longrightarrow> sq_tail r < N \<Longrightarrow> spsc_contents N r = [] \<longleftrightarrow> sq_tail r = sq_head r"
  by (auto simp: spsc_contents_def)

lemma succ_mod_inj: "h < (N :: nat) \<Longrightarrow> t < N \<Longrightarrow> (h + 1) mod N = (t + 1) mod N \<Longrightarrow> h = t"
  by (cases "h + 1 = N"; cases "t + 1 = N") auto

text \<open>Neither side disturbs the other.\<close>

lemma cons_ok_push:
  "cons_ok r c \<Longrightarrow> cons_ok (r\<lparr>sq_buffer := (sq_buffer r)(sq_head r := x)\<rparr>) c"
  "cons_ok r c \<Longrightarrow> h \<noteq> sq_tail r \<Longrightarrow> cons_ok (r\<lparr>sq_head := h\<rparr>) c"
  by (cases c; auto)+

lemma prod_ok_pop:
  "prod_ok N r p \<Longrightarrow> sq_head r < N \<Longrightarrow> sq_tail r < N \<Longrightarrow> sq_tail r \<noteq> sq_head r \<Longrightarrow>
     prod_ok N (r\<lparr>sq_tail := (sq_tail r + 1) mod N\<rparr>) p"
  using succ_mod_inj [of "sq_head r" N "sq_tail r"] by (cases p) auto

lemma producer_step:
  assumes "spsc_inv N s" and "spsc_step N ProducerStep s = (s', ins, outs)"
  shows "spsc_inv N s' \<and> outs @ spsc_contents N (spsc_ring s') = spsc_contents N (spsc_ring s) @ ins"
  using assms contents_push [of "spsc_ring s" N] contents_write [of "spsc_ring s" N]
  by (cases "spsc_prod s") (auto simp: spsc_inv_def spsc_step_def push_step_def cons_ok_push)

lemma consumer_step:
  assumes "spsc_inv N s" and "spsc_step N ConsumerStep s = (s', ins, outs)"
  shows "spsc_inv N s' \<and> outs @ spsc_contents N (spsc_ring s') = spsc_contents N (spsc_ring s) @ ins"
  using assms contents_pop [of "spsc_ring s" N] prod_ok_pop [of N "spsc_ring s" "spsc_prod s"]
  by (cases "spsc_cons s") (auto simp: spsc_inv_def spsc_step_def pop_step_def)

lemma call_step:
  assumes "spsc_inv N s"
  shows "spsc_inv N (s\<lparr>spsc_prod := push_call v (spsc_ring s) (spsc_prod s)\<rparr>)"
    and "spsc_inv N (s\<lparr>spsc_cons := pop_call pk (spsc_ring s) (spsc_cons s)\<rparr>)"
  using assms
  by (cases "spsc_prod s"; simp add: spsc_inv_def push_call_def) (cases "spsc_cons s"; use assms in \<open>simp add: spsc_inv_def pop_call_def\<close>)

lemma spsc_step_fifo:
  assumes i: "spsc_inv N s" and q: "spsc_step N m s = (s', ins, outs)"
  shows "spsc_inv N s' \<and> outs @ spsc_contents N (spsc_ring s') = spsc_contents N (spsc_ring s) @ ins"
proof (cases m)
  case ProducerStep
  with q show ?thesis using producer_step [OF i] by simp
next
  case ConsumerStep
  with q show ?thesis using consumer_step [OF i] by simp
qed (use q call_step [OF i] in \<open>auto simp: spsc_step_def\<close>)

interpretation spsc: fifo "spsc_inv N" "\<lambda>s. spsc_contents N (spsc_ring s)" "\<lambda>_. spsc_capacity N" "spsc_step N" for N
proof
  fix s :: "'a spsc_system" and m s' ins outs
  assume "spsc_inv N s" and "spsc_step N m s = (s', ins, outs)"
  from spsc_step_fifo [OF this]
  show "spsc_inv N s' \<and> outs @ spsc_contents N (spsc_ring s') = spsc_contents N (spsc_ring s) @ ins \<and>
      spsc_capacity N = spsc_capacity N" by simp
next
  fix s :: "'a spsc_system"
  assume "spsc_inv N s"
  then show "length (spsc_contents N (spsc_ring s)) \<le> spsc_capacity N"
    using ring_dist_less [of "sq_head (spsc_ring s)" N "sq_tail (spsc_ring s)"] by (simp add: spsc_inv_def spsc_capacity_def)
qed

text \<open>The length reported is right when the number of slots divides the index range, as powers of two do; for three slots it is not.\<close>

lemma spsc_len_exact:
  assumes "N dvd U64_MOD" and "head < N" and "tail < N"
  shows "spsc_len N head tail = ring_dist N head tail"
proof -
  have N: "N \<le> U64_MOD" using assms(1) by (rule dvd_imp_le) (simp add: U64_MOD_def)
  obtain k where k: "U64_MOD = N * k" using assms(1) by blast
  have "(head + U64_MOD - tail) mod N = (head + N - tail) mod N"
  proof -
    have "head + U64_MOD - tail = head + N - tail + N * (k - 1)" using assms N k by (cases k) auto
    then show ?thesis by simp
  qed
  moreover have "(head + U64_MOD - tail) mod U64_MOD mod N = (head + U64_MOD - tail) mod N"
    using assms(1) by (rule mod_mod_cancel)
  moreover have "(head + N - tail) mod N = ring_dist N head tail"
  proof (cases "tail \<le> head")
    case True
    then have e: "head + N - tail = (head - tail) + N" by simp
    show ?thesis unfolding e mod_add_self2 using True assms by (simp add: ring_dist_def)
  qed (use assms in \<open>simp add: ring_dist_def\<close>)
  ultimately show ?thesis using assms N by (simp add: spsc_len_def wsub64_def)
qed

lemma spsc_len_three_slots: "spsc_len 3 0 2 = 2" and "ring_dist 3 0 2 = 1"
  by code_simp+

subsection \<open>Properties\<close>

definition spsc_start :: "'a SpscRingBuffer \<Rightarrow> 'a spsc_system" where
  "spsc_start r = \<lparr>spsc_ring = r, spsc_prod = PReturned None, spsc_cons = CReturned None\<rparr>"

lemma spsc_start_inv:
  "spsc_new N = Some r \<Longrightarrow> spsc_inv N (spsc_start r) \<and> spsc_contents N (spsc_ring (spsc_start r)) = []"
  by (auto simp: spsc_new_def spsc_start_def spsc_inv_def spsc_contents_def ring_dist_def split: if_splits)

text \<open>
  C7: Under every interleaving of the memory accesses of one producer and one consumer, the ring
  delivers exactly the values accepted, in order, and no slot is read before it is written. A push
  is refused exactly when the capacity is reached at that moment, a pop comes back empty exactly
  when nothing is inside, and a peek returns the oldest value.
\<close>

theorem spsc_linearizable:
  assumes "spsc_new N = Some r" and "fifo_run (spsc_step N) ms (spsc_start r) = (s, ins, outs)"
  defines "c \<equiv> spsc_contents N (spsc_ring s)"
  shows "ins = outs @ c \<and> length c \<le> spsc_capacity N \<and>
    (\<forall>v h. spsc_prod s = PLoaded v h \<longrightarrow>
       (spsc_prod (fst (spsc_step N ProducerStep s)) = PReturned (Some (Inl v)) \<longleftrightarrow> length c = spsc_capacity N)) \<and>
    (\<forall>pk t. spsc_cons s = CLoaded pk t \<longrightarrow>
       (spsc_cons (fst (spsc_step N ConsumerStep s)) = CReturned (Some None) \<longleftrightarrow> c = [])) \<and>
    (\<forall>t. spsc_cons s = CRead True t \<longrightarrow>
       c \<noteq> [] \<and> spsc_cons (fst (spsc_step N ConsumerStep s)) = CReturned (Some (hd c)))"
proof -
  note S = spsc_start_inv [OF assms(1)]
  have i: "spsc_inv N s" using spsc.run_fifo [OF S [THEN conjunct1] assms(2)] by blast
  let ?r = "spsc_ring s"
  have b: "sq_head ?r < N" "sq_tail ?r < N" "2 \<le> N" using i by (auto simp: spsc_inv_def)
  have full: "ring_dist N (sq_head ?r) (sq_tail ?r) = N - 1 \<longleftrightarrow> (sq_head ?r + 1) mod N = sq_tail ?r"
    using ring_dist_full [OF b(1,2)] ring_dist_push [OF b(1,2)] ring_dist_less [OF _ b(2), of "(sq_head ?r + 1) mod N"] b(3) by fastforce
  have hd: "hd c = sq_buffer ?r (sq_tail ?r)" if "sq_tail ?r \<noteq> sq_head ?r" using contents_pop [OF b(1,2) that] by (simp add: c_def)
  show ?thesis
    using spsc.run_prefix [OF S [THEN conjunct1] S [THEN conjunct2] assms(2)] spsc.within [OF i] i full hd contents_Nil [OF b(1,2)]
    by (auto simp: c_def spsc_inv_def spsc_step_def push_step_def pop_step_def spsc_capacity_def)
qed

definition spsc_demo :: "nat spsc_system \<times> nat option list \<times> nat option list" where
  "spsc_demo = fifo_run (spsc_step 2) [Push 7, ProducerStep, Pop, ProducerStep, ProducerStep, Push 8] (spsc_start (the (spsc_new 2)))"

theorem spsc_linearizable_witness:
  "spsc_contents 2 (spsc_ring (fst spsc_demo)) = [Some 7] \<and>
   spsc_prod (fst (spsc_step 2 ProducerStep (fst spsc_demo))) = PReturned (Some (Inl 8))"
proof -
  have n: "spsc_new 2 = Some (the (spsc_new 2))" by (simp add: spsc_new_def)
  have r: "fifo_run (spsc_step 2) [Push 7, ProducerStep, Pop, ProducerStep, ProducerStep, Push 8] (spsc_start (the (spsc_new 2)))
      = (fst spsc_demo, [Some 7], [])"
  proof -
    have "snd spsc_demo = ([Some 7], [])" by code_simp
    then show ?thesis unfolding spsc_demo_def by (metis prod.collapse)
  qed
  have p: "spsc_prod (fst spsc_demo) = PLoaded 8 1" "spsc_capacity 2 = 1" by code_simp+
  note T = spsc_linearizable [OF n r]
  from T have c: "spsc_contents 2 (spsc_ring (fst spsc_demo)) = [Some 7]" by simp
  with T p show ?thesis by simp
qed

end
