(* ===== verification/Mpsc.thy ===== *)
theory Mpsc
  imports Spsc
begin

text \<open>
  The lock-free ring buffer for many producers and one consumer, and the bounded channel over it
  (\<open>src/src/sync/lockfree.rs\<close>), again access by access. A producer reserves a slot by a compare-and-exchange on \<open>head\<close>,
  writes it, waits for the slots before it and commits. The indices run modulo the number of slots,
  so the exchange cannot tell a \<open>head\<close> that went round from one that stood still.
\<close>

subsection \<open>The ring buffer\<close>

record 'a MpscRingBuffer =
  mp_head :: usize
  mp_committed :: usize
  mp_tail :: usize
  mp_buffer :: "usize \<Rightarrow> 'a option"

definition mpsc_new :: "usize \<Rightarrow> 'a MpscRingBuffer option" where
  "mpsc_new N = (if 2 \<le> N then Some \<lparr>mp_head = 0, mp_committed = 0, mp_tail = 0, mp_buffer = (\<lambda>_. None)\<rparr> else None)"

definition mpsc_capacity :: "usize \<Rightarrow> usize" where
  "mpsc_capacity N = N - 1"

text \<open>The queries, on the values their loads return.\<close>

definition mpsc_is_empty :: "usize \<Rightarrow> usize \<Rightarrow> bool" where
  "mpsc_is_empty committed tail = (committed = tail)"

definition mpsc_len :: "usize \<Rightarrow> usize \<Rightarrow> usize \<Rightarrow> usize" where
  "mpsc_len N committed tail = wsub64 committed tail mod N"

definition sender_is_full :: "usize \<Rightarrow> usize \<Rightarrow> usize \<Rightarrow> bool" where
  "sender_is_full N head tail = ((head + 1) mod N = tail)"

text \<open>
  A call of \<open>push\<close>: the head is loaded, the tail is loaded and compared, the exchange on the head
  succeeds or sends the producer back to the start, the slot is written, \<open>committed\<close> is polled until it
  reaches the slot, and \<open>committed\<close> is stored.
\<close>

datatype 'a mpsc_producer =
  MReturned "('a + unit) option"
| MStart 'a Backoff
| MLoaded 'a Backoff usize
| MCas 'a Backoff usize
| MWrite 'a usize
| MWait 'a usize Backoff
| MCommit 'a usize

definition mpsc_push_call :: "'a \<Rightarrow> 'a mpsc_producer \<Rightarrow> 'a mpsc_producer" where
  "mpsc_push_call v p = (case p of MReturned _ \<Rightarrow> MStart v bo_new | _ \<Rightarrow> p)"

text \<open>The exchange is the weak one, which may fail without a reason: \<open>spurious\<close>.\<close>

definition mpsc_push_step ::
  "usize \<Rightarrow> bool \<Rightarrow> 'a MpscRingBuffer \<Rightarrow> 'a mpsc_producer \<Rightarrow> 'a MpscRingBuffer \<times> 'a mpsc_producer" where
  "mpsc_push_step N spurious r p =
     (case p of
        MReturned _ \<Rightarrow> (r, p)
      | MStart v b \<Rightarrow> (r, MLoaded v b (mp_head r))
      | MLoaded v b head \<Rightarrow> (r, if (head + 1) mod N = mp_tail r then MReturned (Some (Inl v)) else MCas v b head)
      | MCas v b head \<Rightarrow>
          if mp_head r = head \<and> \<not> spurious then (r\<lparr>mp_head := (head + 1) mod N\<rparr>, MWrite v head)
          else (r, MStart v (bo_spin b))
      | MWrite v head \<Rightarrow> (r\<lparr>mp_buffer := (mp_buffer r)(head := Some v)\<rparr>, MWait v head bo_new)
      | MWait v head b \<Rightarrow> (r, if mp_committed r \<noteq> head then MWait v head (bo_snooze b) else MCommit v head)
      | MCommit v head \<Rightarrow> (r\<lparr>mp_committed := (head + 1) mod N\<rparr>, MReturned (Some (Inr ()))))"

datatype 'a mpsc_consumer = KReturned "'a option option" | KLoaded usize | KRead usize | KStore usize "'a option"

definition mpsc_pop_call :: "'a MpscRingBuffer \<Rightarrow> 'a mpsc_consumer \<Rightarrow> 'a mpsc_consumer" where
  "mpsc_pop_call r c = (case c of KReturned _ \<Rightarrow> KLoaded (mp_tail r) | _ \<Rightarrow> c)"

definition mpsc_pop_step :: "usize \<Rightarrow> 'a MpscRingBuffer \<Rightarrow> 'a mpsc_consumer \<Rightarrow> 'a MpscRingBuffer \<times> 'a mpsc_consumer" where
  "mpsc_pop_step N r c =
     (case c of
        KReturned _ \<Rightarrow> (r, c)
      | KLoaded tail \<Rightarrow> (r, if tail = mp_committed r then KReturned (Some None) else KRead tail)
      | KRead tail \<Rightarrow> (r, KStore tail (mp_buffer r tail))
      | KStore tail v \<Rightarrow> (r\<lparr>mp_tail := (tail + 1) mod N\<rparr>, KReturned (Some v)))"

subsection \<open>Interleavings\<close>

record 'a mpsc_system =
  mpsc_ring :: "'a MpscRingBuffer"
  mpsc_prods :: "nat \<Rightarrow> 'a mpsc_producer"
  mpsc_cons :: "'a mpsc_consumer"

datatype 'a mpsc_move = SendCall nat 'a | SendStep nat bool | RecvCall | RecvStep

text \<open>One move of the channel \<open>BoundedChannel\<close>: the senders share the ring, the receiver owns the tail. A value is accepted when its push returns.\<close>

definition mpsc_step ::
  "usize \<Rightarrow> 'a mpsc_move \<Rightarrow> 'a mpsc_system \<Rightarrow> 'a mpsc_system \<times> 'a option list \<times> 'a option list" where
  "mpsc_step N m s =
     (case m of
        SendCall i v \<Rightarrow> (s\<lparr>mpsc_prods := (mpsc_prods s)(i := mpsc_push_call v (mpsc_prods s i))\<rparr>, [], [])
      | SendStep i spurious \<Rightarrow>
          (case mpsc_push_step N spurious (mpsc_ring s) (mpsc_prods s i) of
             (r, p) \<Rightarrow> (s\<lparr>mpsc_ring := r, mpsc_prods := (mpsc_prods s)(i := p)\<rparr>,
                       case mpsc_prods s i of MCommit v _ \<Rightarrow> [Some v] | _ \<Rightarrow> [], []))
      | RecvCall \<Rightarrow> (s\<lparr>mpsc_cons := mpsc_pop_call (mpsc_ring s) (mpsc_cons s)\<rparr>, [], [])
      | RecvStep \<Rightarrow>
          (case mpsc_pop_step N (mpsc_ring s) (mpsc_cons s) of
             (r, c) \<Rightarrow> (s\<lparr>mpsc_ring := r, mpsc_cons := c\<rparr>, [], case mpsc_cons s of KStore _ v \<Rightarrow> [v] | _ \<Rightarrow> [])))"

definition mpsc_start :: "'a MpscRingBuffer \<Rightarrow> 'a mpsc_system" where
  "mpsc_start r = \<lparr>mpsc_ring = r, mpsc_prods = (\<lambda>_. MReturned None), mpsc_cons = KReturned None\<rparr>"

lemmas mpsc_steps = mpsc_step_def mpsc_push_call_def mpsc_push_step_def mpsc_pop_call_def mpsc_pop_step_def

subsection \<open>Undisturbed calls\<close>

text \<open>A push or pop that no other access interrupts.\<close>

definition send_all :: "nat \<Rightarrow> 'a \<Rightarrow> 'a mpsc_move list" where
  "send_all i v = SendCall i v # replicate 6 (SendStep i False)"

definition recv_all :: "'a mpsc_move list" where
  "recv_all = RecvCall # replicate 3 RecvStep"

lemma send_alone:
  assumes "mpsc_prods s i = MReturned x" and "mp_committed (mpsc_ring s) = mp_head (mpsc_ring s)"
    and "(mp_head (mpsc_ring s) + 1) mod N \<noteq> mp_tail (mpsc_ring s)"
  shows "fifo_run (mpsc_step N) (send_all i v) s =
    (s\<lparr>mpsc_ring := (mpsc_ring s)\<lparr>mp_head := (mp_head (mpsc_ring s) + 1) mod N, mp_committed := (mp_head (mpsc_ring s) + 1) mod N,
         mp_buffer := (mp_buffer (mpsc_ring s))(mp_head (mpsc_ring s) := Some v)\<rparr>,
       mpsc_prods := (mpsc_prods s)(i := MReturned (Some (Inr ())))\<rparr>, [Some v], [])"
  using assms by (simp add: send_all_def numeral_eq_Suc mpsc_steps)

lemma recv_alone:
  assumes "mpsc_cons s = KReturned x" and "mp_tail (mpsc_ring s) \<noteq> mp_committed (mpsc_ring s)"
  shows "fifo_run (mpsc_step N) recv_all s =
    (s\<lparr>mpsc_ring := (mpsc_ring s)\<lparr>mp_tail := (mp_tail (mpsc_ring s) + 1) mod N\<rparr>,
       mpsc_cons := KReturned (Some (mp_buffer (mpsc_ring s) (mp_tail (mpsc_ring s))))\<rparr>,
     [], [mp_buffer (mpsc_ring s) (mp_tail (mpsc_ring s))])"
  using assms by (simp add: recv_all_def numeral_eq_Suc mpsc_steps)

text \<open>Pushes of one sender that fill the slots from \<open>head\<close> up to the end of the array.\<close>

lemma send_many:
  assumes "mp_head (mpsc_ring s) = h" and "mp_committed (mpsc_ring s) = h" and "mp_tail (mpsc_ring s) = 1"
    and "mpsc_prods s i = MReturned x" and "1 \<le> h" and "h + length vs \<le> N" and "h < N"
  shows "\<exists>s'. fifo_run (mpsc_step N) (concat (map (send_all i) vs)) s = (s', map Some vs, []) \<and>
     mp_head (mpsc_ring s') = (h + length vs) mod N \<and> mp_committed (mpsc_ring s') = (h + length vs) mod N \<and>
     mp_tail (mpsc_ring s') = 1 \<and> mpsc_cons s' = mpsc_cons s \<and>
     (\<forall>j. j \<noteq> i \<longrightarrow> mpsc_prods s' j = mpsc_prods s j) \<and> (\<exists>y. mpsc_prods s' i = MReturned y)"
  using assms
proof (induction vs arbitrary: s h x)
  case Nil
  then show ?case by auto
next
  case (Cons v vs)
  have nx: "(h + 1) mod N \<noteq> 1" using Cons.prems(5-7) by (cases "h + 1 = N") auto
  let ?s = "s\<lparr>mpsc_ring := (mpsc_ring s)\<lparr>mp_head := (h + 1) mod N, mp_committed := (h + 1) mod N,
       mp_buffer := (mp_buffer (mpsc_ring s))(h := Some v)\<rparr>, mpsc_prods := (mpsc_prods s)(i := MReturned (Some (Inr ())))\<rparr>"
  have one: "fifo_run (mpsc_step N) (send_all i v) s = (?s, [Some v], [])"
    using send_alone [of s i x N v] Cons.prems(1-4) nx by simp
  show ?case
  proof (cases "h + 1 = N")
    case True
    then have "vs = []" using Cons.prems(6) by auto
    with one True Cons.prems(3) show ?thesis by auto
  next
    case False
    then have "h + 1 < N" using Cons.prems(6) by simp
    with Cons.IH [of ?s "h + 1" "Some (Inr ())"] Cons.prems
    obtain s' where "fifo_run (mpsc_step N) (concat (map (send_all i) vs)) ?s = (s', map Some vs, [])"
      "mp_head (mpsc_ring s') = (h + 1 + length vs) mod N" "mp_committed (mpsc_ring s') = (h + 1 + length vs) mod N"
      "mp_tail (mpsc_ring s') = 1" "mpsc_cons s' = mpsc_cons s" "\<forall>j. j \<noteq> i \<longrightarrow> mpsc_prods s' j = mpsc_prods s j" "\<exists>y. mpsc_prods s' i = MReturned y"
      by auto
    with one show ?thesis by (auto simp: fifo_run_append)
  qed
qed

subsection \<open>Properties\<close>

text \<open>The schedule of the lost values: a sender pauses before its exchange while another one goes once round the ring.\<close>

definition aba_schedule :: "'a \<Rightarrow> 'a \<Rightarrow> 'a list \<Rightarrow> 'a mpsc_move list" where
  "aba_schedule late first vs =
     [SendCall 0 late, SendStep 0 False, SendStep 0 False] @ send_all 1 first @ recv_all @
     concat (map (send_all 1) vs) @ replicate 4 (SendStep 0 False)"

text \<open>
  C10: The exchange of \<open>push\<close> is deceived by an index that went round: a sender reads \<open>head\<close> and \<open>tail\<close> and
  pauses; another sends \<open>N\<close> values, of which the receiver takes one; then the exchange of the first
  sender still succeeds although the ring is full. All \<open>N + 1\<close> sends report success and every call
  has returned, but the ring says it is empty and the next receive finds nothing: \<open>N\<close> accepted values
  are lost.
\<close>

theorem mpsc_aba_loses:
  assumes "mpsc_new N = Some r" and "length vs = N - 1"
  shows "\<exists>s. fifo_run (mpsc_step N) (aba_schedule late first vs) (mpsc_start r) =
       (s, Some first # map Some vs @ [Some late], [Some first]) \<and>
     (\<forall>i. \<exists>x. mpsc_prods s i = MReturned x) \<and>
     mpsc_is_empty (mp_committed (mpsc_ring s)) (mp_tail (mpsc_ring s)) \<and>
     mpsc_cons (fst (fifo_run (mpsc_step N) recv_all s)) = KReturned (Some None)"
proof -
  have N: "2 \<le> N" "1 mod N = 1" and r: "r = \<lparr>mp_head = 0, mp_committed = 0, mp_tail = 0, mp_buffer = (\<lambda>_. None)\<rparr>"
    using assms(1) by (auto simp: mpsc_new_def split: if_splits)
  let ?a = "(mpsc_start r)\<lparr>mpsc_prods := (\<lambda>_. MReturned None)(0 := MCas late bo_new 0)\<rparr>"
  have A: "fifo_run (mpsc_step N) [SendCall 0 late, SendStep 0 False, SendStep 0 False] (mpsc_start r) = (?a, [], [])"
    using N by (simp add: mpsc_steps mpsc_start_def r)
  let ?b = "?a\<lparr>mpsc_ring := \<lparr>mp_head = 1, mp_committed = 1, mp_tail = 0, mp_buffer = (\<lambda>_. None)(0 := Some first)\<rparr>,
      mpsc_prods := (\<lambda>_. MReturned None)(0 := MCas late bo_new 0, 1 := MReturned (Some (Inr ())))\<rparr>"
  have B: "fifo_run (mpsc_step N) (send_all 1 first) ?a = (?b, [Some first], [])"
    using send_alone [of ?a 1 None N first] N by (simp add: mpsc_start_def r)
  let ?c = "?b\<lparr>mpsc_ring := \<lparr>mp_head = 1, mp_committed = 1, mp_tail = 1, mp_buffer = (\<lambda>_. None)(0 := Some first)\<rparr>,
      mpsc_cons := KReturned (Some (Some first))\<rparr>"
  have C: "fifo_run (mpsc_step N) recv_all ?b = (?c, [], [Some first])"
    using recv_alone [of ?b None N] N by (simp add: mpsc_start_def r)
  obtain s y where D: "fifo_run (mpsc_step N) (concat (map (send_all 1) vs)) ?c = (s, map Some vs, [])"
    "mp_head (mpsc_ring s) = 0" "mp_committed (mpsc_ring s) = 0" "mp_tail (mpsc_ring s) = 1"
    "mpsc_cons s = KReturned (Some (Some first))"
    "mpsc_prods s 0 = MCas late bo_new 0" "\<forall>i. i \<noteq> 0 \<and> i \<noteq> 1 \<longrightarrow> mpsc_prods s i = MReturned None" "mpsc_prods s 1 = MReturned y"
    using send_many [of ?c 1 1 "Some (Inr ())" vs N] N assms(2) by auto
  have E: "fifo_run (mpsc_step N) (replicate 4 (SendStep 0 False)) s =
      (s\<lparr>mpsc_ring := (mpsc_ring s)\<lparr>mp_head := 1, mp_committed := 1, mp_buffer := (mp_buffer (mpsc_ring s))(0 := Some late)\<rparr>,
         mpsc_prods := (mpsc_prods s)(0 := MReturned (Some (Inr ())))\<rparr>, [Some late], [])"
    (is "_ = (?e, _, _)")
    using D(2-4,6) N by (simp add: numeral_eq_Suc mpsc_steps)
  have "fifo_run (mpsc_step N) (aba_schedule late first vs) (mpsc_start r) = (?e, Some first # map Some vs @ [Some late], [Some first])"
    unfolding aba_schedule_def
    using fifo_run_trans [OF A fifo_run_trans [OF B fifo_run_trans [OF C fifo_run_trans [OF D(1) E]]]] by simp
  moreover have "mpsc_cons (fst (fifo_run (mpsc_step N) recv_all ?e)) = KReturned (Some None)"
    using D(4,5) by (simp add: recv_all_def numeral_eq_Suc mpsc_steps)
  moreover have "\<exists>x. mpsc_prods ?e i = MReturned x" for i using D(7,8) by (cases "i = 0"; cases "i = 1") auto
  ultimately show ?thesis using D(4) by (auto simp: mpsc_is_empty_def)
qed

theorem mpsc_aba_loses_witness:
  "\<exists>s. fifo_run (mpsc_step 3) (aba_schedule (9 :: nat) 1 [2, 3]) (mpsc_start (the (mpsc_new 3))) =
       (s, [Some 1, Some 2, Some 3, Some 9], [Some 1]) \<and> mpsc_is_empty (mp_committed (mpsc_ring s)) (mp_tail (mpsc_ring s))"
proof -
  have "mpsc_new 3 = Some (the (mpsc_new 3))" by (simp add: mpsc_new_def)
  from mpsc_aba_loses [OF this, of "[2, 3 :: nat]" 9 1] show ?thesis by auto
qed

end
