(* ===== verification/Mpmc.thy ===== *)
theory Mpmc
  imports Spsc
begin

text \<open>
  The lock-free ring buffer for many producers and many consumers (\<open>src/src/sync/lockfree.rs\<close>), access by access. Positions
  count up and wrap only at the width of the index; every slot carries a sequence number that says
  for which position it is free or filled. Each thread owns its program point and its back-off
  counter. The non-blocking \<open>try_push\<close> and \<open>try_pop\<close> run through the same points and give up where the others
  retry.
\<close>

subsection \<open>The ring buffer\<close>

definition SLOT_EMPTY :: nat where "SLOT_EMPTY = 0"

record 'a MpmcSlot =
  slot_state :: nat
  sequence :: usize
  slot_data :: "'a option"

definition slot_new :: "usize \<Rightarrow> 'a MpmcSlot" where
  "slot_new i = \<lparr>slot_state = SLOT_EMPTY, sequence = i, slot_data = None\<rparr>"

record 'a MpmcRingBuffer =
  mm_head :: usize
  mm_tail :: usize
  mm_slots :: "usize \<Rightarrow> 'a MpmcSlot"

definition mpmc_new :: "usize \<Rightarrow> 'a MpmcRingBuffer option" where
  "mpmc_new N = (if 2 \<le> N then Some \<lparr>mm_head = 0, mm_tail = 0, mm_slots = slot_new\<rparr> else None)"

definition mpmc_capacity :: "usize \<Rightarrow> usize" where
  "mpmc_capacity N = N"

definition mpmc_len :: "usize \<Rightarrow> usize \<Rightarrow> usize" where
  "mpmc_len head tail = wsub64 head tail"

definition mpmc_is_empty :: "usize \<Rightarrow> usize \<Rightarrow> bool" where
  "mpmc_is_empty head tail = (mpmc_len head tail = 0)"

text \<open>The two stores into a slot.\<close>

definition set_seq :: "'a MpmcRingBuffer \<Rightarrow> usize \<Rightarrow> usize \<Rightarrow> 'a MpmcRingBuffer" where
  "set_seq r i x = r\<lparr>mm_slots := (mm_slots r)(i := (mm_slots r i)\<lparr>sequence := x\<rparr>)\<rparr>"

definition set_data :: "'a MpmcRingBuffer \<Rightarrow> usize \<Rightarrow> 'a option \<Rightarrow> 'a MpmcRingBuffer" where
  "set_data r i x = r\<lparr>mm_slots := (mm_slots r)(i := (mm_slots r i)\<lparr>slot_data := x\<rparr>)\<rparr>"

lemma set_seq_fields [simp]:
  "mm_head (set_seq r i x) = mm_head r" "mm_tail (set_seq r i x) = mm_tail r"
  "sequence (mm_slots (set_seq r i x) k) = (if k = i then x else sequence (mm_slots r k))"
  "slot_data (mm_slots (set_seq r i x) k) = slot_data (mm_slots r k)"
  by (simp_all add: set_seq_def)

lemma set_data_fields [simp]:
  "mm_head (set_data r i x) = mm_head r" "mm_tail (set_data r i x) = mm_tail r"
  "sequence (mm_slots (set_data r i x) k) = sequence (mm_slots r k)"
  "slot_data (mm_slots (set_data r i x) k) = (if k = i then x else slot_data (mm_slots r k))"
  by (simp_all add: set_data_def)

subsection \<open>Threads\<close>

datatype 'a mpmc_result = Pushed "'a + unit" | Popped "'a option"

text \<open>The program points of a push and of a pop, named after the access that comes next; the flag marks the non-blocking variant.\<close>

datatype 'a mpmc_pc =
  QIdle "'a mpmc_result option"
| PuHead bool 'a
| PuTail bool 'a usize
| PuSeq bool 'a usize
| PuCas bool 'a usize
| PuWrite 'a usize
| PuStore 'a usize
| PoTail bool
| PoHead bool usize
| PoSeq bool usize
| PoAgain usize
| PoCas bool usize
| PoRead usize
| PoStore usize "'a option"

definition mpmc_push_step ::
  "usize \<Rightarrow> bool \<Rightarrow> 'a MpmcRingBuffer \<Rightarrow> 'a mpmc_pc \<times> Backoff \<Rightarrow> 'a MpmcRingBuffer \<times> 'a mpmc_pc \<times> Backoff" where
  "mpmc_push_step N spurious r t =
     (case t of (pc, b) \<Rightarrow>
       (case pc of
          PuHead try v \<Rightarrow> (r, PuTail try v (mm_head r), b)
        | PuTail try v head \<Rightarrow>
            if N \<le> wsub64 head (mm_tail r) then
              (if try \<or> is_completed b then (r, QIdle (Some (Pushed (Inl v))), b) else (r, PuHead try v, bo_spin b))
            else (r, PuSeq try v head, b)
        | PuSeq try v head \<Rightarrow>
            (let seq = sequence (mm_slots r (head mod N))
             in if seq = head then (r, PuCas try v head, b)
                else if try then (r, QIdle (Some (Pushed (Inl v))), b)
                else if seq < head then (r, PuHead try v, bo_spin b)
                else (r, PuHead try v, bo_snooze b))
        | PuCas try v head \<Rightarrow>
            if mm_head r = head \<and> (try \<or> \<not> spurious) then (r\<lparr>mm_head := wadd64 head 1\<rparr>, PuWrite v head, b)
            else if try then (r, QIdle (Some (Pushed (Inl v))), b)
            else (r, PuHead try v, bo_snooze b)
        | PuWrite v head \<Rightarrow>
            (set_data r (head mod N) (Some v), PuStore v head, b)
        | PuStore v head \<Rightarrow>
            (set_seq r (head mod N) (wadd64 head 1), QIdle (Some (Pushed (Inr ()))), b)
        | _ \<Rightarrow> (r, pc, b)))"

definition mpmc_pop_step ::
  "usize \<Rightarrow> bool \<Rightarrow> 'a MpmcRingBuffer \<Rightarrow> 'a mpmc_pc \<times> Backoff \<Rightarrow> 'a MpmcRingBuffer \<times> 'a mpmc_pc \<times> Backoff" where
  "mpmc_pop_step N spurious r t =
     (case t of (pc, b) \<Rightarrow>
       (case pc of
          PoTail try \<Rightarrow> (r, PoHead try (mm_tail r), b)
        | PoHead try tail \<Rightarrow>
            if tail = mm_head r then (r, QIdle (Some (Popped None)), b) else (r, PoSeq try tail, b)
        | PoSeq try tail \<Rightarrow>
            (let seq = sequence (mm_slots r (tail mod N)); expected_seq = wadd64 tail 1
             in if seq = expected_seq then (r, PoCas try tail, b)
                else if try then (r, QIdle (Some (Popped None)), b)
                else if seq < expected_seq then (r, PoAgain tail, b)
                else (r, PoTail try, bo_snooze b))
        | PoAgain tail \<Rightarrow>
            if tail = mm_tail r then
              (if is_completed b then (r, QIdle (Some (Popped None)), b) else (r, PoTail False, bo_spin b))
            else (r, PoTail False, b)
        | PoCas try tail \<Rightarrow>
            if mm_tail r = tail \<and> (try \<or> \<not> spurious) then (r\<lparr>mm_tail := wadd64 tail 1\<rparr>, PoRead tail, b)
            else if try then (r, QIdle (Some (Popped None)), b)
            else (r, PoTail try, bo_snooze b)
        | PoRead tail \<Rightarrow> (r, PoStore tail (slot_data (mm_slots r (tail mod N))), b)
        | PoStore tail v \<Rightarrow>
            (set_seq r (tail mod N) (wadd64 tail N), QIdle (Some (Popped v)), b)
        | _ \<Rightarrow> (r, pc, b)))"

fun in_push :: "'a mpmc_pc \<Rightarrow> bool" where
  "in_push (PuHead _ _) = True" | "in_push (PuTail _ _ _) = True" | "in_push (PuSeq _ _ _) = True" | "in_push (PuCas _ _ _) = True"
| "in_push (PuWrite _ _) = True" | "in_push (PuStore _ _) = True" | "in_push _ = False"

text \<open>
  The non-blocking variants enter at the same points with the flag set: a full or unready slot and a
  lost exchange, which is then the strong one, return at once.
\<close>

definition try_push_call :: "'a \<Rightarrow> 'a mpmc_pc" where
  "try_push_call v = PuHead True v"

definition try_pop_call :: "'a mpmc_pc" where
  "try_pop_call = PoTail True"

lemma calls [simp]:
  "(if try then try_push_call v else PuHead False v) = PuHead try v"
  "(if try then try_pop_call else PoTail False) = PoTail try"
  by (simp_all add: try_push_call_def try_pop_call_def)

subsection \<open>Interleavings\<close>

record 'a mpmc_system =
  mpmc_ring :: "'a MpmcRingBuffer"
  mpmc_pcs :: "nat \<Rightarrow> 'a mpmc_pc"
  mpmc_backoffs :: "nat \<Rightarrow> Backoff"

definition moved :: "'a mpmc_system \<Rightarrow> 'a MpmcRingBuffer \<Rightarrow> nat \<Rightarrow> 'a mpmc_pc \<Rightarrow> Backoff \<Rightarrow> 'a mpmc_system" where
  "moved s r i pc b = s\<lparr>mpmc_ring := r, mpmc_pcs := (mpmc_pcs s)(i := pc), mpmc_backoffs := (mpmc_backoffs s)(i := b)\<rparr>"

lemma moved_fields [simp]:
  "mpmc_ring (moved s r i pc b) = r" "mpmc_pcs (moved s r i pc b) = (mpmc_pcs s)(i := pc)"
  "mpmc_backoffs (moved s r i pc b) = (mpmc_backoffs s)(i := b)"
  by (simp_all add: moved_def)

datatype 'a mpmc_move = QPush nat bool 'a | QPop nat bool | QStep nat bool

text \<open>
  A move of a thread, with the values taken in and given out, each with its position: a value is in
  when its position is reserved and out when its slot is released.
\<close>

definition mpmc_step ::
  "usize \<Rightarrow> 'a mpmc_move \<Rightarrow> 'a mpmc_system \<Rightarrow> 'a mpmc_system \<times> (usize \<times> 'a option) list \<times> (usize \<times> 'a option) list" where
  "mpmc_step N m s =
     (case m of
        QPush i try v \<Rightarrow>
          (case mpmc_pcs s i of
             QIdle _ \<Rightarrow> (moved s (mpmc_ring s) i (if try then try_push_call v else PuHead False v) bo_new, [], [])
           | _ \<Rightarrow> (s, [], []))
      | QPop i try \<Rightarrow>
          (case mpmc_pcs s i of
             QIdle _ \<Rightarrow> (moved s (mpmc_ring s) i (if try then try_pop_call else PoTail False) bo_new, [], [])
           | _ \<Rightarrow> (s, [], []))
      | QStep i spurious \<Rightarrow>
          (case (if in_push (mpmc_pcs s i) then mpmc_push_step else mpmc_pop_step) N spurious (mpmc_ring s) (mpmc_pcs s i, mpmc_backoffs s i) of
             (r, pc, b) \<Rightarrow>
               (moved s r i pc b,
                case (mpmc_pcs s i, pc) of (PuCas _ v h, PuWrite _ _) \<Rightarrow> [(h, Some v)] | _ \<Rightarrow> [],
                case mpmc_pcs s i of PoStore t v \<Rightarrow> [(t, v)] | _ \<Rightarrow> [])))"

definition mpmc_start :: "'a MpmcRingBuffer \<Rightarrow> 'a mpmc_system" where
  "mpmc_start r = \<lparr>mpmc_ring = r, mpmc_pcs = (\<lambda>_. QIdle None), mpmc_backoffs = (\<lambda>_. bo_new)\<rparr>"

subsection \<open>What the threads hold\<close>

text \<open>The position a thread has reserved for writing or for reading.\<close>

fun wpos :: "'a mpmc_pc \<Rightarrow> usize option" where
  "wpos (PuWrite v h) = Some h" | "wpos (PuStore v h) = Some h" | "wpos _ = None"

fun rpos :: "'a mpmc_pc \<Rightarrow> usize option" where
  "rpos (PoRead t) = Some t" | "rpos (PoStore t v) = Some t" | "rpos _ = None"

text \<open>
  The ring against the log of the values taken in, the positions being written (\<open>W\<close>) and being read
  (\<open>R\<close>). Every slot belongs to exactly one position from the tail to \<open>N\<close> beyond it.
\<close>

definition slots_ok :: "usize \<Rightarrow> 'a MpmcRingBuffer \<Rightarrow> (usize \<times> 'a option) list \<Rightarrow> usize set \<Rightarrow> usize set \<Rightarrow> bool" where
  "slots_ok N r log W R =
     (mm_tail r \<le> mm_head r \<and> mm_head r \<le> mm_tail r + N \<and> map fst log = [0..<mm_head r] \<and>
      W \<subseteq> {mm_tail r..<mm_head r} \<and> (\<forall>t \<in> R. t < mm_tail r \<and> mm_head r \<le> t + N) \<and>
      (\<forall>p. mm_tail r \<le> p \<and> p < mm_head r \<longrightarrow>
         (if p \<in> W then sequence (mm_slots r (p mod N)) = p
          else sequence (mm_slots r (p mod N)) = p + 1 \<and> slot_data (mm_slots r (p mod N)) = snd (log ! p))) \<and>
      (\<forall>p. mm_head r \<le> p \<and> p < mm_tail r + N \<longrightarrow>
         (if N \<le> p \<and> p - N \<in> R then sequence (mm_slots r (p mod N)) = p - N + 1 \<and> slot_data (mm_slots r (p mod N)) = snd (log ! (p - N))
          else sequence (mm_slots r (p mod N)) = p)))"

text \<open>What a thread relies on at each point; the values it loaded may be out of date.\<close>

fun local_ok :: "usize \<Rightarrow> 'a MpmcRingBuffer \<Rightarrow> (usize \<times> 'a option) list \<Rightarrow> 'a mpmc_pc \<Rightarrow> bool" where
  "local_ok N r log (PuTail _ v h) = (h \<le> mm_head r)"
| "local_ok N r log (PuSeq _ v h) = (h \<le> mm_head r \<and> h < mm_tail r + N)"
| "local_ok N r log (PuCas _ v h) =
     (h \<le> mm_head r \<and> h < mm_tail r + N \<and> (h = mm_head r \<longrightarrow> sequence (mm_slots r (h mod N)) = h))"
| "local_ok N r log (PuWrite v h) = (log ! h = (h, Some v))"
| "local_ok N r log (PuStore v h) = (log ! h = (h, Some v) \<and> slot_data (mm_slots r (h mod N)) = Some v)"
| "local_ok N r log (PoHead _ t) = (t \<le> mm_tail r)"
| "local_ok N r log (PoSeq _ t) = (t \<le> mm_tail r \<and> t < mm_head r)"
| "local_ok N r log (PoCas _ t) =
     (t \<le> mm_tail r \<and> t < mm_head r \<and> (t = mm_tail r \<longrightarrow> sequence (mm_slots r (t mod N)) = t + 1))"
| "local_ok N r log (PoStore t v) = (log ! t = (t, v))"
| "local_ok N r log _ = True"

lemma window_unique:
  assumes "T \<le> p" "p < T + N" "T \<le> q" "q < T + N" "p mod N = q mod N"
  shows "p = (q :: nat)"
proof -
  have "p - T < N" "q - T < N" using assms by auto
  then show ?thesis
    using assms mod_eq_dvd_iff_nat [of p q N] mod_eq_dvd_iff_nat [of q p N] nat_dvd_not_less [of "p - q" N] nat_dvd_not_less [of "q - p" N]
    by (cases "q < p"; cases "p < q") auto
qed

lemma slots_okD:
  assumes "slots_ok N r log W R"
  shows "mm_tail r \<le> mm_head r" "mm_head r \<le> mm_tail r + N" "map fst log = [0..<mm_head r]" "length log = mm_head r"
    "p \<in> W \<Longrightarrow> mm_tail r \<le> p \<and> p < mm_head r" "t \<in> R \<Longrightarrow> t < mm_tail r \<and> mm_head r \<le> t + N"
    "p \<in> W \<Longrightarrow> sequence (mm_slots r (p mod N)) = p"
    "mm_tail r \<le> p \<Longrightarrow> p < mm_head r \<Longrightarrow> p \<notin> W \<Longrightarrow>
       sequence (mm_slots r (p mod N)) = p + 1 \<and> slot_data (mm_slots r (p mod N)) = snd (log ! p)"
    "t \<in> R \<Longrightarrow> sequence (mm_slots r (t mod N)) = t + 1 \<and> slot_data (mm_slots r (t mod N)) = snd (log ! t)"
    "mm_head r \<le> p \<Longrightarrow> p < mm_tail r + N \<Longrightarrow> (N \<le> p \<Longrightarrow> p - N \<notin> R) \<Longrightarrow> sequence (mm_slots r (p mod N)) = p"
proof -
  note D = assms [unfolded slots_ok_def]
  show "mm_tail r \<le> mm_head r" "mm_head r \<le> mm_tail r + N" and L: "map fst log = [0..<mm_head r]"
    and "p \<in> W \<Longrightarrow> mm_tail r \<le> p \<and> p < mm_head r" and R: "t \<in> R \<Longrightarrow> t < mm_tail r \<and> mm_head r \<le> t + N"
    using D by auto
  from L show "length log = mm_head r" by (metis length_map length_upt diff_zero)
  show "p \<in> W \<Longrightarrow> sequence (mm_slots r (p mod N)) = p" using D by auto
  show "mm_tail r \<le> p \<Longrightarrow> p < mm_head r \<Longrightarrow> p \<notin> W \<Longrightarrow>
      sequence (mm_slots r (p mod N)) = p + 1 \<and> slot_data (mm_slots r (p mod N)) = snd (log ! p)"
    and "mm_head r \<le> p \<Longrightarrow> p < mm_tail r + N \<Longrightarrow> (N \<le> p \<Longrightarrow> p - N \<notin> R) \<Longrightarrow> sequence (mm_slots r (p mod N)) = p"
    using D by auto
  show "sequence (mm_slots r (t mod N)) = t + 1 \<and> slot_data (mm_slots r (t mod N)) = snd (log ! t)" if "t \<in> R"
    using D that R [OF that] by (auto dest!: spec [of _ "t + N"])
qed

lemma slots_okI:
  assumes "mm_tail r \<le> mm_head r" "mm_head r \<le> mm_tail r + N" "map fst log = [0..<mm_head r]"
    and "\<And>p. p \<in> W \<Longrightarrow> mm_tail r \<le> p \<and> p < mm_head r" and "\<And>t. t \<in> R \<Longrightarrow> t < mm_tail r \<and> mm_head r \<le> t + N"
    and "\<And>p. p \<in> W \<Longrightarrow> sequence (mm_slots r (p mod N)) = p"
    and "\<And>p. mm_tail r \<le> p \<Longrightarrow> p < mm_head r \<Longrightarrow> p \<notin> W \<Longrightarrow>
       sequence (mm_slots r (p mod N)) = p + 1 \<and> slot_data (mm_slots r (p mod N)) = snd (log ! p)"
    and "\<And>t. t \<in> R \<Longrightarrow> sequence (mm_slots r (t mod N)) = t + 1 \<and> slot_data (mm_slots r (t mod N)) = snd (log ! t)"
    and "\<And>p. mm_head r \<le> p \<Longrightarrow> p < mm_tail r + N \<Longrightarrow> \<not> (N \<le> p \<and> p - N \<in> R) \<Longrightarrow> sequence (mm_slots r (p mod N)) = p"
  shows "slots_ok N r log W R"
proof -
  have "sequence (mm_slots r (p mod N)) = p - N + 1 \<and> slot_data (mm_slots r (p mod N)) = snd (log ! (p - N))"
    if "N \<le> p" "p - N \<in> R" for p using assms(8) [OF that(2)] that(1) by (simp add: le_mod_geq)
  with assms show ?thesis unfolding slots_ok_def by auto
qed

subsection \<open>The five changes of the ring\<close>

lemma reserve_push:
  assumes S: "slots_ok N r log W R" and N: "2 \<le> N" and H: "mm_head r < mm_tail r + N"
    and q: "sequence (mm_slots r (mm_head r mod N)) = mm_head r"
  shows "slots_ok N (r\<lparr>mm_head := mm_head r + 1\<rparr>) (log @ [(mm_head r, Some v)]) (insert (mm_head r) W) R"
proof (rule slots_okI, goal_cases)
  case (5 t)
  have "t mod N = mm_head r mod N" if "t + N = mm_head r" unfolding that [symmetric] by simp
  with 5 have "t + N \<noteq> mm_head r" using slots_okD(9) [OF S, of t] q N by auto
  with 5 slots_okD(6) [OF S, of t] show ?case by auto
next
  case (7 p)
  then have "p < mm_head r" "p \<notin> W" by auto
  with 7 slots_okD(8) [OF S, of p] slots_okD(4) [OF S] show ?case by (simp add: nth_append)
next
  case (8 t)
  then show ?case using slots_okD(4,1) [OF S] slots_okD(6,9) [OF S, of t] by (auto simp: nth_append)
qed (use S H q slots_okD [OF S] in \<open>auto simp: less_Suc_eq\<close>)

lemma write_slot:
  assumes S: "slots_ok N r log W R" and h: "h \<in> W"
  shows "slots_ok N (set_data r (h mod N) x) log W R"
proof -
  have other: "p mod N \<noteq> h mod N" if "p \<noteq> h" "mm_tail r \<le> p" "p < mm_tail r + N" for p
    using window_unique [of "mm_tail r" p N h] that slots_okD(2) [OF S] slots_okD(5) [OF S h] by auto
  have R: "t mod N \<noteq> h mod N" if "t \<in> R" for t
    using other [of "t + N"] slots_okD(5) [OF S h] slots_okD(6) [OF S that] slots_okD(1) [OF S] by auto
  show ?thesis
  proof (rule slots_okI, goal_cases)
    case (7 p)
    then have "p \<noteq> h" using h by auto
    with 7 other [of p] slots_okD(2) [OF S] slots_okD(8) [OF S, of p] show ?case by auto
  qed (use S slots_okD [OF S] R in auto)
qed

lemma publish:
  assumes S: "slots_ok N r log W R" and h: "h \<in> W" and d: "slot_data (mm_slots r (h mod N)) = snd (log ! h)"
  shows "slots_ok N (set_seq r (h mod N) (h + 1)) log (W - {h}) R"
proof -
  have other: "p mod N \<noteq> h mod N" if "p \<noteq> h" "mm_tail r \<le> p" "p < mm_tail r + N" for p
    using window_unique [of "mm_tail r" p N h] that slots_okD(2) [OF S] slots_okD(5) [OF S h] by auto
  have R: "t mod N \<noteq> h mod N" if "t \<in> R" for t
    using other [of "t + N"] slots_okD(5) [OF S h] slots_okD(6) [OF S that] slots_okD(1) [OF S] by auto
  show ?thesis
  proof (rule slots_okI, goal_cases)
    case (6 p)
    then show ?case using other [of p] slots_okD(5,7) [OF S, of p] slots_okD(2) [OF S] by auto
  next
    case (7 p)
    then show ?case using d other [of p] slots_okD(2) [OF S] slots_okD(8) [OF S, of p] by (cases "p = h") auto
  next
    case (9 p)
    then show ?case using other [of p] slots_okD(5) [OF S h] slots_okD(1) [OF S] slots_okD(10) [OF S, of p] by auto
  qed (use S slots_okD [OF S] R in auto)
qed

lemma reserve_pop:
  assumes S: "slots_ok N r log W R" and N: "2 \<le> N" and T: "mm_tail r < mm_head r"
    and q: "sequence (mm_slots r (mm_tail r mod N)) = mm_tail r + 1"
  shows "slots_ok N (r\<lparr>mm_tail := mm_tail r + 1\<rparr>) log W (insert (mm_tail r) R)"
proof -
  have W: "mm_tail r \<notin> W" using slots_okD(7) [OF S, of "mm_tail r"] q by auto
  show ?thesis
  proof (rule slots_okI, goal_cases)
    case (4 p)
    then show ?case using W slots_okD(5) [OF S, of p] by (cases "p = mm_tail r") auto
  next
    case (5 t)
    then show ?case using slots_okD(2) [OF S] slots_okD(6) [OF S, of t] by auto
  next
    case (8 t)
    then show ?case using q slots_okD(8) [OF S, of "mm_tail r"] W T slots_okD(9) [OF S, of t] by auto
  next
    case (9 p)
    then show ?case using slots_okD(10) [OF S, of p] by (cases "p = mm_tail r + N") auto
  qed (use S slots_okD [OF S] T in auto)
qed

lemma release:
  assumes S: "slots_ok N r log W R" and t: "t \<in> R"
  shows "slots_ok N (set_seq r (t mod N) (t + N)) log W (R - {t})"
proof -
  note B = slots_okD(6) [OF S t] slots_okD(1) [OF S]
  have other: "p mod N \<noteq> t mod N" if "p \<noteq> t + N" "mm_tail r \<le> p" "p < mm_tail r + N" for p
    using window_unique [of "mm_tail r" p N "t + N"] that B by auto
  have R: "t' mod N \<noteq> t mod N" if "t' \<in> R" "t' \<noteq> t" for t'
    using other [of "t' + N"] that slots_okD(6) [OF S that(1)] B by auto
  show ?thesis
  proof (rule slots_okI, goal_cases)
    case (6 p)
    then show ?case using other [of p] slots_okD(5,7) [OF S, of p] slots_okD(2) [OF S] B by auto
  next
    case (7 p)
    then show ?case using other [of p] slots_okD(2) [OF S] B slots_okD(8) [OF S, of p] by auto
  next
    case (9 p)
    then show ?case using other [of p] B slots_okD(10) [OF S, of p] by (cases "p = t + N") auto
  qed (use S slots_okD [OF S] R in auto)
qed

text \<open>None of the changes takes from another thread what it relies on.\<close>

lemma local_reserve_push:
  assumes S: "slots_ok N r log W R" and L: "local_ok N r log pc" and w: "set_option (wpos pc) \<subseteq> W" and t: "set_option (rpos pc) \<subseteq> R"
  shows "local_ok N (r\<lparr>mm_head := mm_head r + 1\<rparr>) (log @ [x]) pc"
  using L w t slots_okD(1,4) [OF S] slots_okD(5,6) [OF S] by (cases pc) (auto simp: nth_append dest: order.strict_trans2)

lemma local_write:
  assumes S: "slots_ok N r log W R" and h: "h \<in> W" and L: "local_ok N r log pc"
    and w: "set_option (wpos pc) \<subseteq> W - {h}"
  shows "local_ok N (set_data r (h mod N) x) log pc"
proof -
  have "h' mod N \<noteq> h mod N" if "h' \<in> W - {h}" for h'
    using window_unique [of "mm_tail r" h' N h] that slots_okD(2) [OF S] slots_okD(5) [OF S h] slots_okD(5) [OF S, of h'] by auto
  with L w show ?thesis by (cases pc) auto
qed

lemma local_publish:
  assumes S: "slots_ok N r log W R" and h: "h \<in> W" and L: "local_ok N r log pc"
  shows "local_ok N (set_seq r (h mod N) (h + 1)) log pc"
proof -
  note B = slots_okD(5) [OF S h] slots_okD(2) [OF S] slots_okD(7) [OF S h]
  have "mm_head r mod N \<noteq> h mod N" if "mm_head r < mm_tail r + N"
    using window_unique [of "mm_tail r" "mm_head r" N h] that B by auto
  moreover have "mm_tail r mod N = h mod N \<Longrightarrow> mm_tail r < mm_head r \<Longrightarrow> mm_tail r = h"
    using window_unique [of "mm_tail r" "mm_tail r" N h] B by auto
  ultimately show ?thesis using L by (cases pc) auto
qed

lemma local_reserve_pop: "local_ok N r log pc \<Longrightarrow> local_ok N (r\<lparr>mm_tail := mm_tail r + 1\<rparr>) log pc"
  by (cases pc) auto

lemma local_release:
  assumes S: "slots_ok N r log W R" and N: "2 \<le> N" and t: "t \<in> R" and L: "local_ok N r log pc"
  shows "local_ok N (set_seq r (t mod N) (t + N)) log pc"
proof -
  note B = slots_okD(6) [OF S t] slots_okD(1) [OF S] slots_okD(9) [OF S t]
  have "mm_head r mod N \<noteq> t mod N" if "mm_head r < mm_tail r + N" "sequence (mm_slots r (mm_head r mod N)) = mm_head r"
  proof
    assume e: "mm_head r mod N = t mod N"
    then have "mm_head r = t + N" using window_unique [of "mm_tail r" "mm_head r" N "t + N"] that(1) B by auto
    then show False using B N that(2) e by simp
  qed
  moreover have "mm_tail r mod N \<noteq> t mod N" if "mm_tail r < mm_head r"
    using window_unique [of "mm_tail r" "mm_tail r" N "t + N"] that B N by auto
  ultimately show ?thesis using L by (cases pc) auto
qed

subsection \<open>The invariant of the whole system\<close>

definition wmap :: "'a mpmc_system \<Rightarrow> nat \<rightharpoonup> usize" where "wmap s i = wpos (mpmc_pcs s i)"
definition rmap :: "'a mpmc_system \<Rightarrow> nat \<rightharpoonup> usize" where "rmap s i = rpos (mpmc_pcs s i)"

definition mpmc_inv :: "usize \<Rightarrow> 'a mpmc_system \<Rightarrow> (usize \<times> 'a option) list \<Rightarrow> (usize \<times> 'a option) list \<Rightarrow> bool" where
  "mpmc_inv N s log out =
     (2 \<le> N \<and> slots_ok N (mpmc_ring s) log (ran (wmap s)) (ran (rmap s)) \<and>
      inj_on (wmap s) (dom (wmap s)) \<and> inj_on (rmap s) (dom (rmap s)) \<and>
      (\<forall>i. local_ok N (mpmc_ring s) log (mpmc_pcs s i)) \<and>
      distinct (map fst out) \<and> set out \<subseteq> set log \<and> fst ` set out = {0..<mm_tail (mpmc_ring s)} - ran (rmap s))"

lemma ran_remove: "inj_on m (dom m) \<Longrightarrow> m i = Some p \<Longrightarrow> ran (m(i := None)) = ran m - {p}"
  by (auto simp: ran_def inj_on_def dom_def split: if_splits) (metis option.inject)+

lemma inj_remove: "inj_on m (dom m) \<Longrightarrow> inj_on (m(i := None)) (dom (m(i := None)))"
  by (auto simp: inj_on_def dom_def)

lemma inj_insert: "inj_on m (dom m) \<Longrightarrow> p \<notin> ran m \<Longrightarrow> inj_on (m(i \<mapsto> p)) (dom (m(i \<mapsto> p)))"
  by (auto simp: inj_on_def dom_def ran_def)

lemma moved_maps [simp]: "wmap (moved s r i pc bs) = (wmap s)(i := wpos pc)" "rmap (moved s r i pc bs) = (rmap s)(i := rpos pc)"
  by (auto simp: wmap_def rmap_def)

lemma mpmc_invD:
  assumes "mpmc_inv N s log out"
  shows "2 \<le> N" "slots_ok N (mpmc_ring s) log (ran (wmap s)) (ran (rmap s))" "inj_on (wmap s) (dom (wmap s))"
    "inj_on (rmap s) (dom (rmap s))" "local_ok N (mpmc_ring s) log (mpmc_pcs s i)" "distinct (map fst out)" "set out \<subseteq> set log"
    "fst ` set out = {0..<mm_tail (mpmc_ring s)} - ran (rmap s)"
    "set_option (wpos (mpmc_pcs s i)) \<subseteq> ran (wmap s)" "set_option (rpos (mpmc_pcs s i)) \<subseteq> ran (rmap s)"
    "wpos (mpmc_pcs s i) = Some p \<Longrightarrow> j \<noteq> i \<Longrightarrow> wpos (mpmc_pcs s j) \<noteq> Some p"
proof -
  note D = assms [unfolded mpmc_inv_def]
  show "2 \<le> N" "slots_ok N (mpmc_ring s) log (ran (wmap s)) (ran (rmap s))" and I: "inj_on (wmap s) (dom (wmap s))"
    and "inj_on (rmap s) (dom (rmap s))" "local_ok N (mpmc_ring s) log (mpmc_pcs s i)" "distinct (map fst out)" "set out \<subseteq> set log"
    "fst ` set out = {0..<mm_tail (mpmc_ring s)} - ran (rmap s)"
    using D by blast+
  show "set_option (wpos (mpmc_pcs s i)) \<subseteq> ran (wmap s)" "set_option (rpos (mpmc_pcs s i)) \<subseteq> ran (rmap s)"
    by (auto simp: ran_def wmap_def rmap_def)
  show "wpos (mpmc_pcs s j) \<noteq> Some p" if "wpos (mpmc_pcs s i) = Some p" "j \<noteq> i"
    using I that unfolding inj_on_def dom_def wmap_def by (metis (mono_tags, lifting) mem_Collect_eq option.distinct(1))
qed

text \<open>A move that leaves the ring alone.\<close>

lemma inv_quiet:
  assumes "mpmc_inv N s log out" and "wpos pc = wpos (mpmc_pcs s i)" and "rpos pc = rpos (mpmc_pcs s i)"
    and "local_ok N (mpmc_ring s) log pc"
  shows "mpmc_inv N (moved s (mpmc_ring s) i pc bs) log out"
proof -
  have "(wmap s)(i := wpos pc) = wmap s" "(rmap s)(i := rpos pc) = rmap s" using assms(2,3) by (auto simp: wmap_def rmap_def)
  with assms(1,4) show ?thesis by (simp add: mpmc_inv_def)
qed

lemma inv_reserve_push:
  assumes I: "mpmc_inv N s log out" and pc: "mpmc_pcs s i = PuCas tr v h" and h: "mm_head (mpmc_ring s) = h"
  shows "mpmc_inv N (moved s ((mpmc_ring s)\<lparr>mm_head := h + 1\<rparr>) i (PuWrite v h) bs) (log @ [(h, Some v)]) out"
proof -
  note D = mpmc_invD [OF I]
  have l: "h < mm_tail (mpmc_ring s) + N" "sequence (mm_slots (mpmc_ring s) (h mod N)) = h" using D(5) [of i] pc h by auto
  have w: "wmap s i = None" "rmap s i = None" by (simp_all add: wmap_def rmap_def pc)
  then have W: "ran ((wmap s)(i \<mapsto> h)) = insert h (ran (wmap s))" and R: "(rmap s)(i := None) = rmap s"
    by (auto simp: fun_upd_idem)
  have n: "h \<notin> ran (wmap s)" using slots_okD(5) [OF D(2), of h] h by auto
  note S = reserve_push [OF D(2,1), of v, unfolded h, OF l]
  have "local_ok N ((mpmc_ring s)\<lparr>mm_head := h + 1\<rparr>) (log @ [(h, Some v)]) (((mpmc_pcs s)(i := PuWrite v h)) j)" for j
  proof (cases "j = i")
    case True
    then show ?thesis using slots_okD(4) [OF D(2)] h by (simp add: nth_append)
  next
    case False
    then show ?thesis using local_reserve_push [OF D(2) D(5) D(9,10)] h by auto
  qed
  then show ?thesis using D(1,3,4,6-8) S W R inj_insert [OF D(3) n, of i] by (auto simp: mpmc_inv_def)
qed

lemma inv_write:
  assumes I: "mpmc_inv N s log out" and pc: "mpmc_pcs s i = PuWrite v h"
  shows "mpmc_inv N (moved s (set_data (mpmc_ring s) (h mod N) (Some v)) i (PuStore v h) bs) log out"
proof -
  note D = mpmc_invD [OF I]
  have m: "(wmap s)(i := Some h) = wmap s" "(rmap s)(i := None) = rmap s" by (auto simp: wmap_def rmap_def pc)
  have h: "h \<in> ran (wmap s)" using D(9) [of i] pc by simp
  have "local_ok N (set_data (mpmc_ring s) (h mod N) (Some v)) log (((mpmc_pcs s)(i := PuStore v h)) j)" for j
  proof (cases "j = i")
    case False
    then have "wpos (mpmc_pcs s j) \<noteq> Some h" using D(11) [of i h j] pc by simp
    then show ?thesis using local_write [OF D(2) h D(5), of j] D(9) [of j] False by (cases "wpos (mpmc_pcs s j)") auto
  qed (use D(5) [of i] pc in simp)
  then show ?thesis using D(1,3,4,6-8) write_slot [OF D(2) h] m by (simp add: mpmc_inv_def)
qed

lemma inv_publish:
  assumes I: "mpmc_inv N s log out" and pc: "mpmc_pcs s i = PuStore v h"
  shows "mpmc_inv N (moved s (set_seq (mpmc_ring s) (h mod N) (h + 1)) i (QIdle x) bs) log out"
proof -
  note D = mpmc_invD [OF I]
  have h: "h \<in> ran (wmap s)" and i: "wmap s i = Some h" "(rmap s)(i := None) = rmap s"
    using D(9) [of i] pc by (auto simp: wmap_def rmap_def)
  have d: "slot_data (mm_slots (mpmc_ring s) (h mod N)) = snd (log ! h)" using D(5) [of i] pc by simp
  have "local_ok N (set_seq (mpmc_ring s) (h mod N) (h + 1)) log (((mpmc_pcs s)(i := QIdle x)) j)" for j
    using local_publish [OF D(2) h D(5), of j] by (cases "j = i") auto
  then show ?thesis using D(1,4,6-8) publish [OF D(2) h d] i ran_remove [OF D(3) i(1)] inj_remove [OF D(3), of i]
    by (simp add: mpmc_inv_def)
qed

lemma inv_reserve_pop:
  assumes I: "mpmc_inv N s log out" and pc: "mpmc_pcs s i = PoCas tr t" and t: "mm_tail (mpmc_ring s) = t"
  shows "mpmc_inv N (moved s ((mpmc_ring s)\<lparr>mm_tail := t + 1\<rparr>) i (PoRead t) bs) log out"
proof -
  note D = mpmc_invD [OF I]
  have l: "t < mm_head (mpmc_ring s)" "sequence (mm_slots (mpmc_ring s) (t mod N)) = t + 1" using D(5) [of i] pc t by auto
  have w: "wmap s i = None" "rmap s i = None" by (simp_all add: wmap_def rmap_def pc)
  then have R: "ran ((rmap s)(i \<mapsto> t)) = insert t (ran (rmap s))" and W: "(wmap s)(i := None) = wmap s"
    by (auto simp: fun_upd_idem)
  have n: "t \<notin> ran (rmap s)" using slots_okD(6) [OF D(2), of t] t by auto
  have "local_ok N ((mpmc_ring s)\<lparr>mm_tail := t + 1\<rparr>) log (((mpmc_pcs s)(i := PoRead t)) j)" for j
    using local_reserve_pop [OF D(5), of j] t by (cases "j = i") auto
  moreover have "fst ` set out = {0..<t + 1} - insert t (ran (rmap s))" using D(8) t n by auto
  ultimately show ?thesis
    using D(1,3,6,7) reserve_pop [OF D(2,1), unfolded t, OF l] R W inj_insert [OF D(4) n, of i] by (simp add: mpmc_inv_def)
qed

lemma inv_release:
  assumes I: "mpmc_inv N s log out" and pc: "mpmc_pcs s i = PoStore t v"
  shows "mpmc_inv N (moved s (set_seq (mpmc_ring s) (t mod N) (t + N)) i (QIdle x) bs) log (out @ [(t, v)])"
proof -
  note D = mpmc_invD [OF I]
  have t: "t \<in> ran (rmap s)" and i: "rmap s i = Some t" "(wmap s)(i := None) = wmap s"
    using D(10) [of i] pc by (auto simp: wmap_def rmap_def)
  note B = slots_okD(6) [OF D(2) t] slots_okD(1,4) [OF D(2)]
  have "(t, v) \<in> set log" using D(5) [of i] pc B by (metis local_ok.simps(9) nth_mem order.strict_trans2)
  moreover have "t \<notin> fst ` set out" using D(8) t by auto
  moreover have "insert t (fst ` set out) = {0..<mm_tail (mpmc_ring s)} - (ran (rmap s) - {t})" using D(8) t B by auto
  moreover have "local_ok N (set_seq (mpmc_ring s) (t mod N) (t + N)) log (((mpmc_pcs s)(i := QIdle x)) j)" for j
    using local_release [OF D(2,1) t D(5), of j] by (cases "j = i") auto
  ultimately show ?thesis
    using D(1,3,6,7) release [OF D(2) t] i ran_remove [OF D(4) i(1)] inj_remove [OF D(4), of i] by (simp add: mpmc_inv_def)
qed

lemma wsub64_below:
  "a < b \<Longrightarrow> b + N \<le> U64_MOD \<Longrightarrow> N \<le> wsub64 a b"
  by (simp add: wsub64_def)

lemma wsub64_check:
  assumes "wsub64 h t < N" and "h + N \<le> U64_MOD" and "t + N \<le> U64_MOD" and "0 < N"
  shows "h < t + N"
  using assms wsub64_below [of h t N] wsub64_exact [of t h] by (cases "h < t") auto

lemma push_step_inv:
  assumes I: "mpmc_inv N s log out" and q: "mpmc_step N (QStep i sp) s = (s', ins, outs)"
    and B: "length (log @ ins) + N \<le> U64_MOD" and p: "in_push (mpmc_pcs s i)"
  shows "mpmc_inv N s' (log @ ins) (out @ outs)"
proof -
  note D = mpmc_invD [OF I] slots_okD(1,4) [OF mpmc_invD(2) [OF I]]
  note E = mpmc_step_def mpmc_push_step_def Let_def
  show ?thesis
  proof (cases "mpmc_pcs s i")
    case (PuCas tr v h)
    show ?thesis
    proof (cases "mm_head (mpmc_ring s) = h \<and> (tr \<or> \<not> sp)")
      case True
      then have "wadd64 h 1 = h + 1" using q PuCas B D(1,12-) by (intro wadd64_exact) (auto simp: E)
      with inv_reserve_push [OF I PuCas] True q PuCas show ?thesis by (auto simp: E)
    next
      case False
      with q PuCas inv_quiet [OF I, of _ i] show ?thesis by (auto simp: E split: if_splits)
    qed
  next
    case (PuTail tr v h)
    have "h < mm_tail (mpmc_ring s) + N" if "wsub64 h (mm_tail (mpmc_ring s)) < N"
      using wsub64_check [OF that] D(1,12-) D(5) [of i] B PuTail by auto
    with q PuTail D(5) [of i] inv_quiet [OF I, of _ i] show ?thesis by (auto simp: E split: if_splits)
  next
    case (PuSeq tr v h)
    have "local_ok N (mpmc_ring s) log (PuCas tr v h)" if "sequence (mm_slots (mpmc_ring s) (h mod N)) = h"
      using D(5) [of i] that unfolding PuSeq local_ok.simps by blast
    with q PuSeq inv_quiet [OF I, of _ i] show ?thesis by (auto simp: E simp del: local_ok.simps(3) split: if_splits)
  next
    case (PuWrite v h)
    with q inv_write [OF I PuWrite] show ?thesis by (auto simp: E)
  next
    case (PuStore v h)
    have "h < mm_head (mpmc_ring s)" using slots_okD(5) [OF D(2), of h] D(9) [of i] PuStore by simp
    then have "wadd64 h 1 = h + 1" using B D(1,12-) by (intro wadd64_exact) auto
    with q PuStore inv_publish [OF I PuStore] show ?thesis by (auto simp: E)
  qed (use p q D(5) [of i] inv_quiet [OF I, of _ i] in \<open>auto simp: E split: if_splits\<close>)
qed

lemma pop_step_inv:
  assumes I: "mpmc_inv N s log out" and q: "mpmc_step N (QStep i sp) s = (s', ins, outs)"
    and B: "length (log @ ins) + N \<le> U64_MOD" and p: "\<not> in_push (mpmc_pcs s i)"
  shows "mpmc_inv N s' (log @ ins) (out @ outs)"
proof -
  note D = mpmc_invD [OF I] slots_okD(1,4) [OF mpmc_invD(2) [OF I]]
  note E = mpmc_step_def mpmc_pop_step_def Let_def
  have w: "wadd64 t 1 = t + 1" if "t \<le> mm_tail (mpmc_ring s)" for t
    using that B D(1,12-) by (intro wadd64_exact) auto
  show ?thesis
  proof (cases "mpmc_pcs s i")
    case (PoCas tr t)
    with q D(5) [of i] w [of t] inv_reserve_pop [OF I PoCas] inv_quiet [OF I, of _ i] show ?thesis
      by (auto simp: E split: if_splits)
  next
    case (PoRead t)
    then have t: "t \<in> ran (rmap s)" using D(10) [of i] by simp
    have l: "t < length log" using slots_okD(6) [OF D(2) t] D(12-) by simp
    have "fst (log ! t) = t" using slots_okD(3) [OF D(2)] l D(13) by (metis add_0 nth_map nth_upt)
    then have "log ! t = (t, slot_data (mm_slots (mpmc_ring s) (t mod N)))"
      using slots_okD(9) [OF D(2) t] by (metis prod.collapse)
    with q PoRead inv_quiet [OF I, of _ i] show ?thesis by (auto simp: E)
  next
    case (PoStore t v)
    then have "t < mm_tail (mpmc_ring s)" using slots_okD(6) [OF D(2), of t] D(10) [of i] by simp
    then have "wadd64 t N = t + N" using B D(1,12-) by (intro wadd64_exact) auto
    with q PoStore inv_release [OF I PoStore] show ?thesis by (auto simp: E)
  next
    case (PoSeq tr t)
    then have "local_ok N (mpmc_ring s) log (PoCas tr t)" if "sequence (mm_slots (mpmc_ring s) (t mod N)) = wadd64 t 1"
      using D(5) [of i] that w [of t] by (metis local_ok.simps(7,8))
    with q PoSeq inv_quiet [OF I, of _ i] show ?thesis by (auto simp: E simp del: local_ok.simps(8) split: if_splits)
  next
    case (PoHead tr t)
    with q D(5) [of i] D(12) inv_quiet [OF I, of _ i] show ?thesis by (auto simp: E split: if_splits)
  qed (use p q D(5) [of i] inv_quiet [OF I, of _ i] in \<open>auto simp: E split: if_splits\<close>)
qed

lemma mpmc_step_inv:
  assumes I: "mpmc_inv N s log out" and q: "mpmc_step N m s = (s', ins, outs)" and B: "length (log @ ins) + N \<le> U64_MOD"
  shows "mpmc_inv N s' (log @ ins) (out @ outs)"
proof (cases m)
  case (QStep i sp)
  with push_step_inv pop_step_inv assms show ?thesis by blast
qed (use q I inv_quiet [OF I] in \<open>auto simp: mpmc_step_def split: mpmc_pc.splits\<close>)

lemma mpmc_run_inv:
  "mpmc_inv N s log out \<Longrightarrow> fifo_run (mpmc_step N) ms s = (s', ins, outs) \<Longrightarrow> length (log @ ins) + N \<le> U64_MOD \<Longrightarrow>
     mpmc_inv N s' (log @ ins) (out @ outs)"
proof (induction ms arbitrary: s log out ins outs)
  case (Cons m ms)
  obtain s1 i1 o1 where m: "mpmc_step N m s = (s1, i1, o1)" by (cases "mpmc_step N m s")
  obtain s2 i2 o2 where r: "fifo_run (mpmc_step N) ms s1 = (s2, i2, o2)" by (cases "fifo_run (mpmc_step N) ms s1")
  have e: "s' = s2" "ins = i1 @ i2" "outs = o1 @ o2" using Cons.prems(2) m r by auto
  have "mpmc_inv N s1 (log @ i1) (out @ o1)" by (rule mpmc_step_inv [OF Cons.prems(1) m]) (use Cons.prems(3) e in simp)
  from Cons.IH [OF this, of i2 o2] r show ?case using Cons.prems(3) e by simp
qed simp

lemma mpmc_start_inv: "mpmc_new N = Some r \<Longrightarrow> mpmc_inv N (mpmc_start r) [] []"
  by (auto simp: mpmc_new_def mpmc_inv_def mpmc_start_def slots_ok_def wmap_def rmap_def ran_def inj_on_def slot_new_def split: if_splits)

lemma mpmc_run_values: "fifo_run (mpmc_step N) ms s = (s', ins, outs) \<Longrightarrow> None \<notin> snd ` set ins"
proof (induction ms arbitrary: s ins outs)
  case (Cons m ms)
  obtain s1 i1 o1 where m: "mpmc_step N m s = (s1, i1, o1)" by (cases "mpmc_step N m s")
  obtain s2 i2 o2 where r: "fifo_run (mpmc_step N) ms s1 = (s2, i2, o2)" by (cases "fifo_run (mpmc_step N) ms s1")
  have "None \<notin> snd ` set (fst (snd (mpmc_step N m s)))" by (auto simp: mpmc_step_def split: mpmc_move.splits mpmc_pc.splits prod.splits)
  moreover have "ins = i1 @ i2" "None \<notin> snd ` set i2" using Cons.IH [of s1 i2 o2] Cons.prems m r by auto
  ultimately show ?case using m by (simp add: image_Un)
qed simp

subsection \<open>Properties\<close>

text \<open>
  C8: Under every interleaving of the accesses of any number of producers and consumers, blocking or
  not, the ring is a queue: positions are handed out to values in one order, never more than the
  capacity ahead of the reads; every pop returns the value of its own position, a value that was
  pushed; no position is read twice; and when all calls have returned, exactly the positions before
  the tail have been read. This holds until the positions reach the width of the index.
\<close>

theorem mpmc_linearizable:
  assumes "mpmc_new N = Some r" and "fifo_run (mpmc_step N) ms (mpmc_start r) = (s, ins, outs)"
    and "length ins + N \<le> U64_MOD"
  shows "map fst ins = [0..<mm_head (mpmc_ring s)] \<and> None \<notin> snd ` set ins \<and>
    mm_tail (mpmc_ring s) \<le> mm_head (mpmc_ring s) \<and> mm_head (mpmc_ring s) - mm_tail (mpmc_ring s) \<le> mpmc_capacity N \<and>
    distinct (map fst outs) \<and> set outs \<subseteq> set (take (mm_tail (mpmc_ring s)) ins) \<and>
    ((\<forall>i. \<exists>x. mpmc_pcs s i = QIdle x) \<longrightarrow> set outs = set (take (mm_tail (mpmc_ring s)) ins))"
proof -
  have I: "mpmc_inv N s ins outs" using mpmc_run_inv [OF mpmc_start_inv [OF assms(1)] assms(2)] assms(3) by simp
  note D = mpmc_invD [OF I] and S = slots_okD(1-4) [OF mpmc_invD(2) [OF I]]
  let ?T = "mm_tail (mpmc_ring s)"
  have at: "ins ! p = (p, v)" if "(p, v) \<in> set ins" for p v
  proof -
    obtain k where k: "k < length ins" "ins ! k = (p, v)" using \<open>(p, v) \<in> set ins\<close> by (auto simp: in_set_conv_nth)
    then have "p = map fst ins ! k" by simp
    then show ?thesis using k S(3,4) by simp
  qed
  have "x \<in> set (take ?T ins)" if "x \<in> set outs" for x
  proof (cases x)
    case (Pair p v)
    have "p < ?T" "(p, v) \<in> set ins" using D(7,8) that Pair by force+
    then have "p < length (take ?T ins)" "take ?T ins ! p = x" using at [of p v] Pair S(1,4) by simp_all
    then show ?thesis by (metis nth_mem)
  qed
  moreover have "x \<in> set outs" if x: "x \<in> set (take ?T ins)" and idle: "\<forall>i. \<exists>x. mpmc_pcs s i = QIdle x" for x
  proof -
    have "rmap s = Map.empty" using idle by (auto simp: rmap_def fun_eq_iff) (metis rpos.simps(3))
    then have f: "fst ` set outs = {0..<?T}" using D(8) by simp
    obtain k where k: "k < ?T" "x = ins ! k" using x by (auto simp: in_set_conv_nth)
    then obtain v where "(k, v) \<in> set outs" using f by force
    with at [of k v] D(7) k(2) show ?thesis by auto
  qed
  ultimately show ?thesis using D(6) S mpmc_run_values [OF assms(2)] by (auto simp: mpmc_capacity_def)
qed

text \<open>
  C11: The back-off of a blocking push never completes, so on a full ring \<open>push\<close> does not return the value
  as documented: left alone it spins for ever, whereas \<open>try_push\<close> hands the value back at its second access.
\<close>

theorem mpmc_full_push_spins:
  assumes "mpmc_pcs s i = QIdle x" and "N \<le> mpmc_len (mm_head (mpmc_ring s)) (mm_tail (mpmc_ring s))"
  shows "\<not> (\<exists>y. mpmc_pcs (fst (fifo_run (mpmc_step N) (QPush i False v # map (QStep i) sps) s)) i = QIdle y) \<and>
    mpmc_pcs (fst (fifo_run (mpmc_step N) [QPush i True v, QStep i a, QStep i b] s)) i = QIdle (Some (Pushed (Inl v)))"
proof -
  let ?h = "mm_head (mpmc_ring s)"
  have spin: "mpmc_pcs (fst (fifo_run (mpmc_step N) (map (QStep i) sps) u)) i \<in> {PuHead False v, PuTail False v ?h}"
    if "mpmc_pcs u i \<in> {PuHead False v, PuTail False v ?h}" "mpmc_ring u = mpmc_ring s" "bo_within (mpmc_backoffs u i)" for u
    using that
  proof (induction sps arbitrary: u)
    case (Cons sp sps)
    obtain u1 i1 o1 where q: "mpmc_step N (QStep i sp) u = (u1, i1, o1)" by (cases "mpmc_step N (QStep i sp) u")
    have "mpmc_pcs u1 i \<in> {PuHead False v, PuTail False v ?h}" "mpmc_ring u1 = mpmc_ring s" "bo_within (mpmc_backoffs u1 i)"
      using Cons.prems assms(2) q by (auto simp: mpmc_step_def mpmc_push_step_def mpmc_len_def)
    from Cons.IH [OF this] q show ?case by (cases "fifo_run (mpmc_step N) (map (QStep i) sps) u1") simp
  qed simp
  show ?thesis
    using spin [of "moved s (mpmc_ring s) i (PuHead False v) bo_new"] assms
    by (auto simp: mpmc_step_def mpmc_push_step_def mpmc_len_def split: prod.splits)
qed

text \<open>Two threads: one pushes a value while the other one, started before, pops it.\<close>

definition mpmc_demo :: "nat mpmc_move list" where
  "mpmc_demo = QPop 1 False # QPush 0 False 7 # replicate 6 (QStep 0 False) @ replicate 6 (QStep 1 False)"

theorem mpmc_linearizable_witness:
  "\<exists>s. fifo_run (mpmc_step 2) mpmc_demo (mpmc_start (the (mpmc_new 2))) = (s, [(0, Some 7)], [(0, Some 7)]) \<and>
     mm_head (mpmc_ring s) = 1"
proof -
  have n: "mpmc_new 2 = Some (the (mpmc_new 2))" by (simp add: mpmc_new_def)
  have "snd (fifo_run (mpmc_step 2) mpmc_demo (mpmc_start (the (mpmc_new 2)))) = ([(0, Some 7)], [(0, Some 7)])" by code_simp
  then obtain s where s: "fifo_run (mpmc_step 2) mpmc_demo (mpmc_start (the (mpmc_new 2))) = (s, [(0, Some 7)], [(0, Some 7)])"
    by (metis prod.collapse)
  from mpmc_linearizable [OF n s] have "[0..<mm_head (mpmc_ring s)] = [0]" by (simp add: U64_MOD_def)
  then have "mm_head (mpmc_ring s) = 1" by (metis length_upt length_Cons list.size(3) diff_zero One_nat_def)
  with s show ?thesis by blast
qed

definition full_demo :: "nat mpmc_system" where
  "full_demo = \<lparr>mpmc_ring = \<lparr>mm_head = 2, mm_tail = 0, mm_slots = (\<lambda>i. \<lparr>slot_state = SLOT_EMPTY, sequence = i + 1, slot_data = Some i\<rparr>)\<rparr>,
     mpmc_pcs = (\<lambda>_. QIdle None), mpmc_backoffs = (\<lambda>_. bo_new)\<rparr>"

theorem mpmc_full_push_spins_witness:
  "\<forall>sps. \<not> (\<exists>y. mpmc_pcs (fst (fifo_run (mpmc_step 2) (QPush 0 False 9 # map (QStep 0) sps) full_demo)) 0 = QIdle y)"
proof -
  have i: "mpmc_pcs full_demo 0 = QIdle None" by (simp add: full_demo_def)
  have f: "2 \<le> mpmc_len (mm_head (mpmc_ring full_demo)) (mm_tail (mpmc_ring full_demo))" by code_simp
  show ?thesis using mpmc_full_push_spins [OF i f, THEN conjunct1] by blast
qed

end
