(* ===== verification/Seqlock.thy ===== *)
theory Seqlock
  imports Fifo
begin

text \<open>
  The sequence lock (\<open>src/src/sync/lockfree.rs\<close>). The protected value is copied word by word, so a read can overlap a write; the
  sequence number, odd during a write, is what detects it. Every access to the number or to a word of
  the value is one step of a reader or a writer, and the steps interleave freely.
\<close>

subsection \<open>The lock\<close>

record 'w Seqlock =
  sl_sequence :: usize
  sl_words :: "'w list"

definition seqlock_new :: "'w list \<Rightarrow> 'w Seqlock" where
  "seqlock_new v = \<lparr>sl_sequence = 0, sl_words = v\<rparr>"

definition seq_fetch_add :: "'w Seqlock \<Rightarrow> 'w Seqlock" where
  "seq_fetch_add l = l\<lparr>sl_sequence := wadd64 (sl_sequence l) 1\<rparr>"

text \<open>A \<open>read\<close> returns, waits to load the number, or has copied some words since the load.\<close>

datatype 'w seq_reader = RReturned "'w list option" | RStart | RCopy usize "'w list"

definition seq_read_call :: "'w seq_reader \<Rightarrow> 'w seq_reader" where
  "seq_read_call rd = (case rd of RReturned _ \<Rightarrow> RStart | _ \<Rightarrow> rd)"

definition seq_read_step :: "'w Seqlock \<Rightarrow> 'w seq_reader \<Rightarrow> 'w seq_reader" where
  "seq_read_step l rd =
     (case rd of
        RReturned _ \<Rightarrow> rd
      | RStart \<Rightarrow> if odd (sl_sequence l) then RStart else RCopy (sl_sequence l) []
      | RCopy seq1 ws \<Rightarrow>
          if length ws < length (sl_words l) then RCopy seq1 (ws @ [sl_words l ! length ws])
          else if seq1 = sl_sequence l then RReturned (Some ws)
          else RStart)"

text \<open>A \<open>write\<close> has stored a prefix of its value; a write guard lets its owner store any word until it is dropped.\<close>

datatype 'w seq_writer = WIdle | WWrite "'w list" nat | WGuard

definition seq_write_call :: "'w list \<Rightarrow> 'w Seqlock \<times> 'w seq_writer \<Rightarrow> 'w Seqlock \<times> 'w seq_writer" where
  "seq_write_call v lw = (case lw of (l, WIdle) \<Rightarrow> (seq_fetch_add l, WWrite v 0) | _ \<Rightarrow> lw)"

definition seq_write_step :: "'w Seqlock \<times> 'w seq_writer \<Rightarrow> 'w Seqlock \<times> 'w seq_writer" where
  "seq_write_step lw =
     (case lw of
        (l, WWrite v k) \<Rightarrow>
          if k < length v then (l\<lparr>sl_words := (sl_words l)[k := v ! k]\<rparr>, WWrite v (k + 1)) else (seq_fetch_add l, WIdle)
      | _ \<Rightarrow> lw)"

definition write_guard :: "'w Seqlock \<times> 'w seq_writer \<Rightarrow> 'w Seqlock \<times> 'w seq_writer" where
  "write_guard lw = (case lw of (l, WIdle) \<Rightarrow> (seq_fetch_add l, WGuard) | _ \<Rightarrow> lw)"

definition guard_store :: "nat \<Rightarrow> 'w \<Rightarrow> 'w Seqlock \<times> 'w seq_writer \<Rightarrow> 'w Seqlock \<times> 'w seq_writer" where
  "guard_store k x lw = (case lw of (l, WGuard) \<Rightarrow> (l\<lparr>sl_words := (sl_words l)[k := x]\<rparr>, WGuard) | _ \<Rightarrow> lw)"

definition guard_drop :: "'w Seqlock \<times> 'w seq_writer \<Rightarrow> 'w Seqlock \<times> 'w seq_writer" where
  "guard_drop lw = (case lw of (l, WGuard) \<Rightarrow> (seq_fetch_add l, WIdle) | _ \<Rightarrow> lw)"

subsection \<open>Interleavings\<close>

record 'w seqlock_system =
  the_lock :: "'w Seqlock"
  readers :: "nat \<Rightarrow> 'w seq_reader"
  writers :: "nat \<Rightarrow> 'w seq_writer"

datatype 'w seq_op = WriteCall "'w list" | WriteStep | GuardCall | GuardStore nat 'w | GuardDrop

datatype 'w seq_move = ReadCall nat | ReadStep nat | Writer nat "'w seq_op"

fun writer_op :: "'w seq_op \<Rightarrow> 'w Seqlock \<times> 'w seq_writer \<Rightarrow> 'w Seqlock \<times> 'w seq_writer" where
  "writer_op (WriteCall v) = seq_write_call v"
| "writer_op WriteStep = seq_write_step"
| "writer_op GuardCall = write_guard"
| "writer_op (GuardStore k x) = guard_store k x"
| "writer_op GuardDrop = guard_drop"

text \<open>Going in are the values left by a writer that becomes idle, coming out those returned to readers.\<close>

definition seqlock_step :: "'w seq_move \<Rightarrow> 'w seqlock_system \<Rightarrow> 'w seqlock_system \<times> 'w list list \<times> 'w list list" where
  "seqlock_step m s =
     (case m of
        ReadCall i \<Rightarrow>
          (s\<lparr>readers := (readers s)(i := seq_read_call (readers s i))\<rparr>, [], [])
      | ReadStep i \<Rightarrow>
          (let rd = seq_read_step (the_lock s) (readers s i)
           in (s\<lparr>readers := (readers s)(i := rd)\<rparr>, [],
               case (readers s i, rd) of (RCopy _ _, RReturned (Some ws)) \<Rightarrow> [ws] | _ \<Rightarrow> []))
      | Writer i oper \<Rightarrow>
          (case writer_op oper (the_lock s, writers s i) of
             (l, w) \<Rightarrow> (s\<lparr>the_lock := l, writers := (writers s)(i := w)\<rparr>,
                       if writers s i \<noteq> WIdle \<and> w = WIdle then [sl_words l] else [], [])))"

definition seqlock_start :: "'w list \<Rightarrow> 'w seqlock_system" where
  "seqlock_start v = \<lparr>the_lock = seqlock_new v, readers = (\<lambda>_. RReturned None), writers = (\<lambda>_. WIdle)\<rparr>"

subsection \<open>One writer\<close>

text \<open>The value stored last is the one the sequence number counts; a reader whose number is still current has copied a prefix of it.\<close>

definition reader_ok :: "'w Seqlock \<Rightarrow> 'w seq_reader \<Rightarrow> bool" where
  "reader_ok l rd =
     (case rd of
        RCopy seq1 ws \<Rightarrow> even seq1 \<and> seq1 \<le> sl_sequence l \<and>
          (seq1 = sl_sequence l \<longrightarrow> ws = take (length ws) (sl_words l) \<and> length ws \<le> length (sl_words l))
      | _ \<Rightarrow> True)"

definition seqlock_inv :: "'w list list \<Rightarrow> 'w seqlock_system \<Rightarrow> bool" where
  "seqlock_inv hist s =
     (hist \<noteq> [] \<and>
      sl_sequence (the_lock s) = 2 * (length hist - 1) + (if writers s 0 = WIdle then 0 else 1) \<and>
      (writers s 0 = WIdle \<longrightarrow> sl_words (the_lock s) = last hist) \<and>
      (\<forall>i. reader_ok (the_lock s) (readers s i)))"

lemma reader_step_inv:
  assumes "seqlock_inv hist s" and "seqlock_step (ReadStep i) s = (s', ins, outs)"
  shows "seqlock_inv hist s' \<and> ins = [] \<and> set outs \<subseteq> set hist"
proof -
  let ?rd = "seq_read_step (the_lock s) (readers s i)"
  have ok: "reader_ok (the_lock s) (readers s i)" using assms(1) by (simp add: seqlock_inv_def)
  have "reader_ok (the_lock s) ?rd"
    using ok by (auto simp: reader_ok_def seq_read_step_def take_Suc_conv_app_nth split: seq_reader.splits)
  moreover have "ws \<in> set hist" if "readers s i = RCopy seq1 v" and "?rd = RReturned (Some ws)" for seq1 v ws
  proof -
    have e: "ws = v" "\<not> length v < length (sl_words (the_lock s))" "seq1 = sl_sequence (the_lock s)"
      using that by (auto simp: seq_read_step_def split: if_splits)
    then have "ws = sl_words (the_lock s)" "even (sl_sequence (the_lock s))" using ok that(1) by (auto simp: reader_ok_def)
    then show ?thesis using assms(1) by (auto simp: seqlock_inv_def split: if_splits)
  qed
  ultimately show ?thesis using assms
    by (auto simp: seqlock_inv_def seqlock_step_def Let_def split: seq_reader.splits option.splits)
qed

text \<open>A new number or, under an odd one, a new word leaves every reader in order.\<close>

lemma reader_ok_call: "reader_ok l rd \<Longrightarrow> reader_ok l (seq_read_call rd)"
  by (auto simp: reader_ok_def seq_read_call_def split: seq_reader.splits)

lemma reader_ok_number: "reader_ok l rd \<Longrightarrow> sl_sequence l < sl_sequence l' \<Longrightarrow> reader_ok l' rd"
  by (auto simp: reader_ok_def split: seq_reader.splits)

lemma reader_ok_word: "reader_ok l rd \<Longrightarrow> odd (sl_sequence l) \<Longrightarrow> reader_ok (l\<lparr>sl_words := ws\<rparr>) rd"
  by (auto simp: reader_ok_def split: seq_reader.splits)

lemma writer_step_inv:
  assumes I: "seqlock_inv hist s" and q: "seqlock_step (Writer 0 oper) s = (s', ins, outs)"
    and B: "2 * length (hist @ ins) < U64_MOD"
  shows "seqlock_inv (hist @ ins) s' \<and> outs = []"
proof -
  note D = I [unfolded seqlock_inv_def]
  have add: "sl_sequence (seq_fetch_add (the_lock s)) = sl_sequence (the_lock s) + 1"
  proof -
    have "2 * (length hist - 1) + 2 = 2 * length hist" using D by (cases hist) auto
    then have "sl_sequence (the_lock s) + 1 < U64_MOD" using D B by (auto split: if_splits)
    then show ?thesis by (simp add: seq_fetch_add_def wadd64_exact)
  qed
  have words: "sl_words (seq_fetch_add l) = sl_words l" for l :: "'w Seqlock" by (simp add: seq_fetch_add_def)
  have new: "reader_ok (seq_fetch_add (the_lock s)) (readers s i)" for i
    using D reader_ok_number [of "the_lock s" _ "seq_fetch_add (the_lock s)"] add by auto
  have word: "writers s 0 \<noteq> WIdle \<Longrightarrow> reader_ok ((the_lock s)\<lparr>sl_words := ws\<rparr>) (readers s i)" for ws i
    using D reader_ok_word [of "the_lock s"] by auto
  have n: "2 * (length hist - 1) + 2 = 2 * length hist" using D by (cases hist) auto
  show ?thesis
  proof (cases "writers s 0 = WIdle")
    case True
    with D q add new words show ?thesis
      by (cases oper) (auto simp: seqlock_inv_def seqlock_step_def seq_write_call_def seq_write_step_def write_guard_def
        guard_store_def guard_drop_def)
  next
    case False
    with D q add new word words n show ?thesis
      by (cases oper) (auto simp: seqlock_inv_def seqlock_step_def seq_write_call_def seq_write_step_def write_guard_def
        guard_store_def guard_drop_def split: seq_writer.splits if_splits)
  qed
qed

definition single_writer :: "'w seq_move list \<Rightarrow> bool" where
  "single_writer ms = list_all (\<lambda>m. case m of Writer i _ \<Rightarrow> i = 0 | _ \<Rightarrow> True) ms"

lemma seqlock_run:
  "seqlock_inv hist s \<Longrightarrow> fifo_run seqlock_step ms s = (s', ins, outs) \<Longrightarrow> single_writer ms \<Longrightarrow>
     2 * length (hist @ ins) < U64_MOD \<Longrightarrow> seqlock_inv (hist @ ins) s' \<and> set outs \<subseteq> set (hist @ ins)"
proof (induction ms arbitrary: s hist ins outs)
  case (Cons m ms)
  obtain s1 i1 o1 where m: "seqlock_step m s = (s1, i1, o1)" by (cases "seqlock_step m s")
  obtain s2 i2 o2 where r: "fifo_run seqlock_step ms s1 = (s2, i2, o2)" by (cases "fifo_run seqlock_step ms s1")
  have e: "s' = s2" "ins = i1 @ i2" "outs = o1 @ o2" using Cons.prems(2) m r by auto
  have "seqlock_inv (hist @ i1) s1 \<and> set o1 \<subseteq> set (hist @ i1)"
  proof (cases m)
    case (ReadCall i)
    with m Cons.prems(1) show ?thesis by (auto simp: seqlock_step_def seqlock_inv_def reader_ok_call)
  next
    case (ReadStep i)
    with reader_step_inv [OF Cons.prems(1)] m show ?thesis by fastforce
  next
    case (Writer i oper)
    with Cons.prems(3) have "i = 0" by (simp add: single_writer_def)
    with writer_step_inv [OF Cons.prems(1), of oper s1 i1 o1] Writer m e Cons.prems(4) show ?thesis by auto
  qed
  moreover have "single_writer ms" using Cons.prems(3) by (simp add: single_writer_def)
  ultimately show ?case using Cons.IH [of "hist @ i1" s1 i2 o2] r e Cons.prems(4) by auto
qed simp

subsection \<open>Properties\<close>

text \<open>
  Two writers at once are not kept apart, although \<open>write\<close> is documented as exclusive: both numbers they add
  make the number even while a write is under way, and a reader returns a value nobody wrote.
\<close>

lemma seqlock_two_writers_tear:
  "snd (fifo_run seqlock_step
     [Writer 0 (WriteCall [1, 1]), Writer 0 WriteStep, Writer 1 (WriteCall [2, 2]), ReadCall 0, ReadStep 0, ReadStep 0, ReadStep 0, ReadStep 0]
     (seqlock_start [0, 0 :: nat])) = ([], [[1, 0]])"
  by code_simp

text \<open>
  C9: With one writer, whether it uses \<open>write\<close> or a guard, and any number of readers, every interleaving
  of their accesses returns to readers only whole values: the initial one or one the writer left
  behind at the end of a write. This holds while the sequence number does not wrap.
\<close>

theorem seqlock_reads_whole:
  assumes "fifo_run seqlock_step ms (seqlock_start v) = (s, written, reads)" and "single_writer ms"
    and "2 * (length written + 1) < U64_MOD"
  shows "set reads \<subseteq> set (v # written)"
proof -
  have "seqlock_inv [v] (seqlock_start v)"
    by (simp add: seqlock_inv_def seqlock_start_def seqlock_new_def reader_ok_def)
  from seqlock_run [OF this assms(1,2)] assms(3) show ?thesis by simp
qed

theorem seqlock_reads_whole_witness:
  "snd (snd (fifo_run seqlock_step
     [ReadCall 0, ReadStep 0, ReadStep 0, Writer 0 (WriteCall [1, 1]), Writer 0 WriteStep, ReadStep 0, Writer 0 WriteStep, Writer 0 WriteStep,
      ReadStep 0, ReadStep 0, ReadStep 0, ReadStep 0, ReadStep 0] (seqlock_start [0, 0 :: nat]))) = [[1, 1]] \<and> set [[1, 1]] \<subseteq> set [[0, 0], [1, 1 :: nat]]"
  (is "snd (snd (fifo_run _ ?ms ?s)) = _ \<and> _")
proof -
  have r: "snd (fifo_run seqlock_step ?ms ?s) = ([[1, 1]], [[1, 1]])" by code_simp
  obtain s where s: "fifo_run seqlock_step ?ms ?s = (s, [[1, 1]], [[1, 1]])" using r by (metis prod.collapse)
  have "single_writer ?ms" by code_simp
  from seqlock_reads_whole [OF s this] r show ?thesis by (simp add: U64_MOD_def)
qed

end
