(* ===== verification/IrqMutex.thy ===== *)
theory IrqMutex
  imports Prelude
begin

text \<open>
  The mutex that disables interrupts (\<open>src/src/sync/irq_mutex.rs\<close>). A system has any number of CPUs, each with its interrupt
  flag and the guards it holds, newest first, and any number of mutexes. Acquiring and releasing take
  several steps; the steps of the CPUs interleave.
\<close>

subsection \<open>Mutexes, flags and guards\<close>

record 'd IrqMutex =
  im_locked :: bool
  im_data :: 'd

definition im_new :: "'d \<Rightarrow> 'd IrqMutex" where
  "im_new d = \<lparr>im_locked = False, im_data = d\<rparr>"

definition is_locked :: "'d IrqMutex \<Rightarrow> bool" where
  "is_locked m = im_locked m"

text \<open>A guard names its mutex and whether interrupts were enabled before.\<close>

type_synonym IrqMutexGuard = "nat \<times> bool"

datatype irq_pc = Running | Locking bool nat bool | Restoring bool

record 'd irq_system =
  mutexes :: "nat \<Rightarrow> 'd IrqMutex"
  iflags :: "nat \<Rightarrow> bool"
  guards :: "nat \<Rightarrow> IrqMutexGuard list"
  irq_pcs :: "nat \<Rightarrow> irq_pc"

definition interrupts_enabled :: "nat \<Rightarrow> 'd irq_system \<Rightarrow> bool" where
  "interrupts_enabled c s = iflags s c"

definition enable_interrupts :: "nat \<Rightarrow> 'd irq_system \<Rightarrow> 'd irq_system" where
  "enable_interrupts c s = s\<lparr>iflags := (iflags s)(c := True)\<rparr>"

definition disable_interrupts :: "nat \<Rightarrow> 'd irq_system \<Rightarrow> 'd irq_system" where
  "disable_interrupts c s = s\<lparr>iflags := (iflags s)(c := False)\<rparr>"

definition save_and_disable_interrupts :: "nat \<Rightarrow> 'd irq_system \<Rightarrow> 'd irq_system \<times> bool" where
  "save_and_disable_interrupts c s = (s\<lparr>iflags := (iflags s)(c := False)\<rparr>, iflags s c)"

definition restore_interrupts :: "bool \<Rightarrow> nat \<Rightarrow> 'd irq_system \<Rightarrow> 'd irq_system" where
  "restore_interrupts was_enabled c s = (if was_enabled then s\<lparr>iflags := (iflags s)(c := True)\<rparr> else s)"

definition with_interrupts_disabled :: "nat \<Rightarrow> ('d irq_system \<Rightarrow> 'd irq_system \<times> 'r) \<Rightarrow> 'd irq_system \<Rightarrow> 'd irq_system \<times> 'r" where
  "with_interrupts_disabled c f s =
     (case save_and_disable_interrupts c s of (s1, was_enabled) \<Rightarrow>
       (case f s1 of (s2, result) \<Rightarrow> (restore_interrupts was_enabled c s2, result)))"

text \<open>\<open>lock\<close> and \<open>try_lock\<close>: interrupts go off first, then the exchange is tried; the flag marks \<open>try_lock\<close>.\<close>

definition lock_call :: "bool \<Rightarrow> nat \<Rightarrow> nat \<Rightarrow> 'd irq_system \<Rightarrow> 'd irq_system" where
  "lock_call try m c s =
     (case irq_pcs s c of
        Running \<Rightarrow> (case save_and_disable_interrupts c s of
            (s1, was_enabled) \<Rightarrow> s1\<lparr>irq_pcs := (irq_pcs s1)(c := Locking try m was_enabled)\<rparr>)
      | _ \<Rightarrow> s)"

definition lock_step :: "bool \<Rightarrow> nat \<Rightarrow> 'd irq_system \<Rightarrow> 'd irq_system" where
  "lock_step spurious c s =
     (case irq_pcs s c of
        Locking try m was_enabled \<Rightarrow>
          if \<not> im_locked (mutexes s m) \<and> (try \<or> \<not> spurious) then
            s\<lparr>mutexes := (mutexes s)(m := (mutexes s m)\<lparr>im_locked := True\<rparr>),
              guards := (guards s)(c := (m, was_enabled) # guards s c), irq_pcs := (irq_pcs s)(c := Running)\<rparr>
          else if try then (restore_interrupts was_enabled c s)\<lparr>irq_pcs := (irq_pcs s)(c := Running)\<rparr>
          else s
      | _ \<Rightarrow> s)"

text \<open>Access through a guard, and dropping the guard at position \<open>k\<close>: the lock is released, then interrupts are restored.\<close>

definition guard_update :: "('d \<Rightarrow> 'd) \<Rightarrow> nat \<Rightarrow> nat \<Rightarrow> 'd irq_system \<Rightarrow> 'd irq_system" where
  "guard_update f k c s =
     (if k < length (guards s c) then
        (let m = fst (guards s c ! k)
         in s\<lparr>mutexes := (mutexes s)(m := (mutexes s m)\<lparr>im_data := f (im_data (mutexes s m))\<rparr>)\<rparr>)
      else s)"

definition irq_guard_drop :: "nat \<Rightarrow> nat \<Rightarrow> 'd irq_system \<Rightarrow> 'd irq_system" where
  "irq_guard_drop k c s =
     (case irq_pcs s c of
        Running \<Rightarrow>
          if k < length (guards s c) then
            (case guards s c ! k of (m, was_enabled) \<Rightarrow>
               s\<lparr>mutexes := (mutexes s)(m := (mutexes s m)\<lparr>im_locked := False\<rparr>),
                 guards := (guards s)(c := take k (guards s c) @ drop (Suc k) (guards s c)),
                 irq_pcs := (irq_pcs s)(c := Restoring was_enabled)\<rparr>)
          else s
      | _ \<Rightarrow> s)"

definition restore_step :: "nat \<Rightarrow> 'd irq_system \<Rightarrow> 'd irq_system" where
  "restore_step c s =
     (case irq_pcs s c of
        Restoring was_enabled \<Rightarrow> (restore_interrupts was_enabled c s)\<lparr>irq_pcs := (irq_pcs s)(c := Running)\<rparr>
      | _ \<Rightarrow> s)"

subsection \<open>Reachable states\<close>

text \<open>The steps of any CPU; with \<open>nested\<close>, guards are dropped newest first.\<close>

inductive irq_step :: "bool \<Rightarrow> 'd irq_system \<Rightarrow> 'd irq_system \<Rightarrow> bool" for nested where
  call: "irq_step nested s (lock_call try m c s)"
| acquire: "irq_step nested s (lock_step spurious c s)"
| access: "irq_step nested s (guard_update f k c s)"
| drop: "(nested \<Longrightarrow> k = 0) \<Longrightarrow> irq_step nested s (irq_guard_drop k c s)"
| restore: "irq_step nested s (restore_step c s)"

inductive irq_reachable :: "bool \<Rightarrow> 'd irq_system \<Rightarrow> bool" for nested where
  start: "(\<forall>m. \<not> im_locked (mutexes s m)) \<Longrightarrow> guards s = (\<lambda>_. []) \<Longrightarrow> irq_pcs s = (\<lambda>_. Running) \<Longrightarrow> irq_reachable nested s"
| step: "irq_reachable nested s \<Longrightarrow> irq_step nested s s' \<Longrightarrow> irq_reachable nested s'"

text \<open>Every mutex is locked exactly when some CPU holds a guard for it, and there is only one such guard.\<close>

definition held :: "'d irq_system \<Rightarrow> nat \<Rightarrow> nat set" where
  "held s c = fst ` set (guards s c)"

definition exclusive :: "'d irq_system \<Rightarrow> bool" where
  "exclusive s =
     ((\<forall>m. im_locked (mutexes s m) \<longleftrightarrow> (\<exists>c. m \<in> held s c)) \<and>
      (\<forall>c. distinct (map fst (guards s c))) \<and> (\<forall>c c'. c \<noteq> c' \<longrightarrow> held s c \<inter> held s c' = {}))"

lemma exclusive_step: "irq_step nested s s' \<Longrightarrow> exclusive s \<Longrightarrow> exclusive s'"
proof (induction rule: irq_step.induct)
  case (call s tr m c)
  then show ?case by (simp add: lock_call_def save_and_disable_interrupts_def exclusive_def held_def split: irq_pc.splits)
next
  case (acquire s spurious c)
  show ?case
  proof (cases "irq_pcs s c")
    case (Locking tr m was)
    then show ?thesis using acquire
      by (auto simp: lock_step_def restore_interrupts_def exclusive_def held_def)
  qed (use acquire in \<open>simp_all add: lock_step_def\<close>)
next
  case (access s f k c)
  then show ?case by (auto simp: guard_update_def Let_def exclusive_def held_def)
next
  case (restore s c)
  then show ?case by (auto simp: restore_step_def restore_interrupts_def exclusive_def held_def split: irq_pc.splits)
next
  case (drop k s c)
  show ?case
  proof (cases "irq_pcs s c = Running \<and> k < length (guards s c)")
    case True
    obtain m was where g: "guards s c ! k = (m, was)" by (cases "guards s c ! k")
    obtain xs ys where e: "guards s c = xs @ (m, was) # ys" "take k (guards s c) @ drop (Suc k) (guards s c) = xs @ ys"
      using id_take_nth_drop [of k "guards s c"] True g by auto
    let ?s = "irq_guard_drop k c s"
    have s: "guards ?s = (guards s)(c := xs @ ys)" "mutexes ?s = (mutexes s)(m := (mutexes s m)\<lparr>im_locked := False\<rparr>)"
      using True g e(2) by (simp_all add: irq_guard_drop_def)
    have x: "distinct (map fst (xs @ (m, was) # ys))" using drop(2) by (simp add: exclusive_def flip: e(1))
    then have d: "m \<notin> fst ` set xs" "m \<notin> fst ` set ys" by auto
    have m: "m \<in> held s c" using e(1) by (simp add: held_def)
    have h: "held ?s c' = held s c' - {m}" for c'
    proof (cases "c' = c")
      case True
      then show ?thesis using e(1) d unfolding held_def s by (auto simp: image_Un)
    next
      case False
      then have "m \<notin> held s c'" using drop(2) m unfolding exclusive_def by blast
      with False show ?thesis by (simp add: held_def s)
    qed
    have "im_locked (mutexes ?s m') \<longleftrightarrow> (\<exists>c. m' \<in> held ?s c)" for m'
      using drop(2) by (cases "m' = m") (auto simp: h s exclusive_def)
    moreover have "distinct (map fst (guards ?s c'))" for c' using drop(2) x unfolding s exclusive_def by (cases "c' = c") auto
    moreover have "held ?s c1 \<inter> held ?s c2 = {}" if "c1 \<noteq> c2" for c1 c2 using drop(2) that unfolding h exclusive_def by blast
    ultimately show ?thesis by (simp add: exclusive_def)
  qed (use drop in \<open>auto simp: irq_guard_drop_def split: irq_pc.splits\<close>)
qed

text \<open>With nested guards, only the oldest one may have found interrupts enabled, and they stay off until it is gone.\<close>

definition flags_ok :: "bool \<Rightarrow> IrqMutexGuard list \<Rightarrow> irq_pc \<Rightarrow> bool" where
  "flags_ok iflag gs pc =
     ((gs \<noteq> [] \<longrightarrow> \<not> iflag \<and> True \<notin> snd ` set (butlast gs)) \<and>
      (case pc of
         Running \<Rightarrow> True
       | Locking _ _ was \<Rightarrow> \<not> iflag \<and> (gs \<noteq> [] \<longrightarrow> \<not> was)
       | Restoring was \<Rightarrow> \<not> iflag \<and> (gs \<noteq> [] \<longrightarrow> \<not> was)))"

definition masked :: "'d irq_system \<Rightarrow> bool" where
  "masked s = (\<forall>c. flags_ok (iflags s c) (guards s c) (irq_pcs s c))"

lemma flags_ok_steps:
  "flags_ok f gs Running \<Longrightarrow> flags_ok False gs (Locking tr m f)"
  "flags_ok f gs (Locking tr m was) \<Longrightarrow> flags_ok f ((m, was) # gs) Running"
  "flags_ok f ((m, was) # gs) Running \<Longrightarrow> flags_ok f gs (Restoring was)"
  "flags_ok f gs (Locking tr m True) \<Longrightarrow> flags_ok True gs Running" "flags_ok f gs (Locking tr m False) \<Longrightarrow> flags_ok f gs Running"
  "flags_ok f gs (Restoring True) \<Longrightarrow> flags_ok True gs Running" "flags_ok f gs (Restoring False) \<Longrightarrow> flags_ok f gs Running"
  by (cases gs; auto simp: flags_ok_def)+

text \<open>A step changes the flag, the guards and the point of one CPU.\<close>

lemma maskedI:
  assumes "masked s" and "\<And>d. d \<noteq> c \<Longrightarrow> iflags s' d = iflags s d \<and> guards s' d = guards s d \<and> irq_pcs s' d = irq_pcs s d"
    and "flags_ok (iflags s' c) (guards s' c) (irq_pcs s' c)"
  shows "masked s'"
proof -
  have "flags_ok (iflags s' d) (guards s' d) (irq_pcs s' d)" for d
    using assms by (cases "d = c") (auto simp: masked_def)
  then show ?thesis by (simp add: masked_def)
qed

lemma masked_step: "irq_step True s s' \<Longrightarrow> masked s \<Longrightarrow> masked s'"
proof (induction rule: irq_step.induct)
  case (call s tr m c)
  have "flags_ok (iflags s c) (guards s c) (irq_pcs s c)" using call by (simp add: masked_def)
  then show ?case using flags_ok_steps(1)
    by (intro maskedI [OF call, of c]) (auto simp: lock_call_def save_and_disable_interrupts_def split: irq_pc.splits)
next
  case (acquire s spurious c)
  have "flags_ok (iflags s c) (guards s c) (irq_pcs s c)" using acquire by (simp add: masked_def)
  then show ?case using flags_ok_steps(2,4,5)
    by (intro maskedI [OF acquire, of c])
       (auto simp: lock_step_def restore_interrupts_def split: irq_pc.splits)
next
  case (access s f k c)
  then show ?case by (simp add: guard_update_def Let_def masked_def)
next
  case (drop k s c)
  have "flags_ok (iflags s c) (guards s c) (irq_pcs s c)" using drop by (simp add: masked_def)
  then show ?case using drop(1) flags_ok_steps(3)
    by (intro maskedI [OF drop(2), of c]) (cases "guards s c"; auto simp: irq_guard_drop_def split: irq_pc.splits)+
next
  case (restore s c)
  have "flags_ok (iflags s c) (guards s c) (irq_pcs s c)" using restore by (simp add: masked_def)
  then show ?case using flags_ok_steps(6,7)
    by (intro maskedI [OF restore, of c]) (auto simp: restore_step_def restore_interrupts_def split: irq_pc.splits)
qed

lemma reachable_exclusive: "irq_reachable nested s \<Longrightarrow> exclusive s"
  by (induction rule: irq_reachable.induct) (simp add: exclusive_def held_def, rule exclusive_step)

lemma reachable_masked: "irq_reachable True s \<Longrightarrow> masked s"
  by (induction rule: irq_reachable.induct) (simp add: masked_def flags_ok_def, rule masked_step)

lemma with_interrupts_disabled_flag:
  "iflags (fst (f (s\<lparr>iflags := (iflags s)(c := False)\<rparr>))) c = False \<Longrightarrow>
     iflags (fst (with_interrupts_disabled c f s)) c = iflags s c"
  by (auto simp: with_interrupts_disabled_def save_and_disable_interrupts_def restore_interrupts_def split: prod.splits)

text \<open>A guard dropped before a newer one turns interrupts on while the newer mutex is held.\<close>

definition two_mutexes :: "unit irq_system" where
  "two_mutexes = \<lparr>mutexes = (\<lambda>_. im_new ()), iflags = (\<lambda>_. True), guards = (\<lambda>_. []), irq_pcs = (\<lambda>_. Running)\<rparr>"

definition out_of_order :: "unit irq_system" where
  "out_of_order = restore_step 0 (irq_guard_drop 1 0 (lock_step False 0 (lock_call False 1 0 (lock_step False 0 (lock_call False 0 0 two_mutexes)))))"

lemma two_mutexes_reachable: "irq_reachable nested two_mutexes"
  by (rule irq_reachable.start) (simp_all add: two_mutexes_def im_new_def)

lemmas reach_intros = two_mutexes_reachable irq_reachable.step [OF _ irq_step.call] irq_reachable.step [OF _ irq_step.acquire]
  irq_reachable.step [OF _ irq_step.drop] irq_reachable.step [OF _ irq_step.restore]

lemma out_of_order_unmasks: "irq_reachable False out_of_order \<and> iflags out_of_order 0 \<and> guards out_of_order 0 = [(1, False)]"
proof -
  have "irq_reachable False out_of_order"
    unfolding out_of_order_def by (intro reach_intros) simp
  moreover have "iflags out_of_order 0" "guards out_of_order 0 = [(1, False)]" by code_simp+
  ultimately show ?thesis by simp
qed

subsection \<open>Properties\<close>

text \<open>
  C12: In every reachable state a mutex is locked exactly when a CPU holds a guard for it, and never do two
  guards exist for one mutex, on whatever CPUs. When guards are dropped newest first, a CPU that holds
  a guard, or is waiting for one, has its interrupts off: no handler can interrupt it to wait for
  a mutex it holds itself.
\<close>

theorem irq_mutex_exclusive:
  assumes "irq_reachable nested s"
  shows "(is_locked (mutexes s m) \<longleftrightarrow> (\<exists>c. m \<in> fst ` set (guards s c))) \<and>
    (m \<in> fst ` set (guards s c) \<and> m \<in> fst ` set (guards s c') \<longrightarrow> c = c') \<and> distinct (map fst (guards s c)) \<and>
    (nested \<and> interrupts_enabled c s \<longrightarrow> guards s c = [] \<and> irq_pcs s c = Running)"
proof -
  have e: "exclusive s" using assms by (rule reachable_exclusive)
  have "masked s" if nested using reachable_masked assms that by simp
  then have "nested \<and> iflags s c \<longrightarrow> guards s c = [] \<and> irq_pcs s c = Running"
    by (cases "irq_pcs s c") (auto simp: masked_def flags_ok_def dest!: spec [of _ c])
  with e show ?thesis unfolding exclusive_def held_def is_locked_def interrupts_enabled_def by blast
qed

theorem irq_mutex_exclusive_witness:
  "is_locked (mutexes (lock_step False 1 (lock_call False 5 1 two_mutexes)) 5) \<and>
   \<not> interrupts_enabled 1 (lock_step False 1 (lock_call False 5 1 two_mutexes))"
  (is "is_locked (mutexes ?s 5) \<and> _")
proof -
  have r: "irq_reachable True ?s" by (intro reach_intros)
  have g: "guards ?s 1 = [(5, True)]" by code_simp
  note T = irq_mutex_exclusive [OF r, of 5 1 1]
  have "5 \<in> fst ` set (guards ?s 1)" "guards ?s 1 \<noteq> []" unfolding g by simp_all
  with T show ?thesis by blast
qed

end
