(* ===== verification/Elf.thy ===== *)
theory Elf
  imports Bytes
begin

text \<open>
  The ELF parser and loader of cells (\<open>src/src/loader/elf.rs\<close>). A file is its list of bytes and memory a function from
  addresses to bytes. Arithmetic on offsets taken from the file wraps around, as in the release build. A
  result \<open>None\<close> is what no caller can handle: a raw read outside the file, or a slice with its ends
  crossed; \<open>Some (Inl e)\<close> is an error returned.
\<close>

subsection \<open>Results\<close>

text \<open>Errors of the loader (\<open>src/src/loader/mod.rs\<close>). Strings read from a file are their UTF-8 bytes.\<close>

datatype LoadError =
  InvalidFormat string
| InvalidSignature
| UnresolvedDependency "u8 list"
| LoadOutOfMemory
| UnsafeNotAllowed
| AlreadyLoaded

type_synonym 'a load_result = "(LoadError + 'a) option"

definition load_bind :: "'a load_result \<Rightarrow> ('a \<Rightarrow> 'b load_result) \<Rightarrow> 'b load_result" where
  "load_bind m f = (case m of None \<Rightarrow> None | Some (Inl e) \<Rightarrow> Some (Inl e) | Some (Inr x) \<Rightarrow> f x)"

text \<open>A loop over indices that an error or a fault leaves.\<close>

fun load_each :: "('i \<Rightarrow> 's \<Rightarrow> 's load_result) \<Rightarrow> 'i list \<Rightarrow> 's \<Rightarrow> 's load_result" where
  "load_each f [] s = Some (Inr s)"
| "load_each f (i # is) s = load_bind (f i s) (load_each f is)"

subsection \<open>Layout of the file\<close>

definition ELF_MAGIC :: "u8 list" where "ELF_MAGIC = [0x7f, 0x45, 0x4c, 0x46]"
definition ELFCLASS64 :: u8 where "ELFCLASS64 = 2"
definition ELFDATA2LSB :: u8 where "ELFDATA2LSB = 1"
definition PT_LOAD :: u32 where "PT_LOAD = 1"
definition SHT_SYMTAB :: u32 where "SHT_SYMTAB = 2"
definition SHT_RELA :: u32 where "SHT_RELA = 4"
definition SHT_DYNSYM :: u32 where "SHT_DYNSYM = 11"
definition STB_GLOBAL :: nat where "STB_GLOBAL = 1"

record Elf64Header =
  e_ident :: "u8 list"
  e_type :: nat
  e_machine :: nat
  e_version :: u32
  e_entry :: u64
  e_phoff :: u64
  e_shoff :: u64
  e_flags :: u32
  e_ehsize :: nat
  e_phentsize :: nat
  e_phnum :: nat
  e_shentsize :: nat
  e_shnum :: nat
  e_shstrndx :: nat

definition EHDR_SIZE :: usize where "EHDR_SIZE = 64"

definition elf_header :: "u8 list \<Rightarrow> Elf64Header" where
  "elf_header b = \<lparr>e_ident = take 16 b, e_type = le_field b 16 2, e_machine = le_field b 18 2, e_version = le_field b 20 4,
     e_entry = le_field b 24 8, e_phoff = le_field b 32 8, e_shoff = le_field b 40 8, e_flags = le_field b 48 4,
     e_ehsize = le_field b 52 2, e_phentsize = le_field b 54 2, e_phnum = le_field b 56 2, e_shentsize = le_field b 58 2,
     e_shnum = le_field b 60 2, e_shstrndx = le_field b 62 2\<rparr>"

record Elf64ProgramHeader =
  p_type :: u32
  p_flags :: u32
  p_offset :: u64
  p_vaddr :: u64
  p_paddr :: u64
  p_filesz :: u64
  p_memsz :: u64
  p_align :: u64

definition PHDR_SIZE :: usize where "PHDR_SIZE = 56"

definition elf_program_header :: "u8 list \<Rightarrow> Elf64ProgramHeader" where
  "elf_program_header b = \<lparr>p_type = le_field b 0 4, p_flags = le_field b 4 4, p_offset = le_field b 8 8, p_vaddr = le_field b 16 8,
     p_paddr = le_field b 24 8, p_filesz = le_field b 32 8, p_memsz = le_field b 40 8, p_align = le_field b 48 8\<rparr>"

record Elf64SectionHeader =
  sh_name :: u32
  sh_type :: u32
  sh_flags :: u64
  sh_addr :: u64
  sh_offset :: u64
  sh_size :: u64
  sh_link :: u32
  sh_info :: u32
  sh_addralign :: u64
  sh_entsize :: u64

definition SHDR_SIZE :: usize where "SHDR_SIZE = 64"

definition elf_section_header :: "u8 list \<Rightarrow> Elf64SectionHeader" where
  "elf_section_header b = \<lparr>sh_name = le_field b 0 4, sh_type = le_field b 4 4, sh_flags = le_field b 8 8, sh_addr = le_field b 16 8,
     sh_offset = le_field b 24 8, sh_size = le_field b 32 8, sh_link = le_field b 40 4, sh_info = le_field b 44 4,
     sh_addralign = le_field b 48 8, sh_entsize = le_field b 56 8\<rparr>"

record Elf64Symbol =
  st_name :: u32
  st_info :: nat
  st_other :: nat
  st_shndx :: nat
  st_value :: u64
  st_size :: u64

definition SYM_SIZE :: usize where "SYM_SIZE = 24"

definition elf_symbol :: "u8 list \<Rightarrow> Elf64Symbol" where
  "elf_symbol b = \<lparr>st_name = le_field b 0 4, st_info = le_field b 4 1, st_other = le_field b 5 1, st_shndx = le_field b 6 2,
     st_value = le_field b 8 8, st_size = le_field b 16 8\<rparr>"

definition sym_binding :: "Elf64Symbol \<Rightarrow> nat" where "sym_binding s = st_info s div 16"
definition symbol_type :: "Elf64Symbol \<Rightarrow> nat" where "symbol_type s = st_info s mod 16"

text \<open>The addend is kept as its 64 bits.\<close>

record Elf64Rela =
  r_offset :: u64
  r_info :: u64
  r_addend :: u64

definition RELA_SIZE :: usize where "RELA_SIZE = 24"

definition elf_rela :: "u8 list \<Rightarrow> Elf64Rela" where
  "elf_rela b = \<lparr>r_offset = le_field b 0 8, r_info = le_field b 8 8, r_addend = le_field b 16 8\<rparr>"

definition rela_symbol :: "Elf64Rela \<Rightarrow> u32" where "rela_symbol r = r_info r div 2 ^ 32"
definition reloc_type :: "Elf64Rela \<Rightarrow> u32" where "reloc_type r = r_info r mod 2 ^ 32"

text \<open>A raw read of a structure at an offset of the file.\<close>

definition read_raw :: "(u8 list \<Rightarrow> 'a) \<Rightarrow> usize \<Rightarrow> u8 list \<Rightarrow> usize \<Rightarrow> 'a load_result" where
  "read_raw conv sz data off = (if off + sz \<le> length data then Some (Inr (conv (drop off data))) else None)"

text \<open>The slice \<open>data[start..end]\<close>, a panic unless \<open>start \<le> end \<le> len\<close>.\<close>

definition slice_range :: "u8 list \<Rightarrow> usize \<Rightarrow> usize \<Rightarrow> u8 list load_result" where
  "slice_range data start stop =
     (if start \<le> stop \<and> stop \<le> length data then Some (Inr (take (stop - start) (drop start data))) else None)"

subsection \<open>UTF-8\<close>

text \<open>Whether \<open>core::str::from_utf8\<close> accepts the bytes: shortest forms only, no surrogates, nothing above \<open>0x10FFFF\<close>.\<close>

definition is_cont :: "u8 \<Rightarrow> bool" where "is_cont b = (0x80 \<le> b \<and> b \<le> 0xBF)"

fun utf8_ok :: "u8 list \<Rightarrow> bool" where
  "utf8_ok [] = True"
| "utf8_ok (b # bs) =
     (if b \<le> 0x7F then utf8_ok bs
      else if 0xC2 \<le> b \<and> b \<le> 0xDF then (case bs of c1 # r \<Rightarrow> is_cont c1 \<and> utf8_ok r | _ \<Rightarrow> False)
      else if 0xE0 \<le> b \<and> b \<le> 0xEF then
        (case bs of
           c1 # c2 # r \<Rightarrow> is_cont c1 \<and> is_cont c2 \<and> (b = 0xE0 \<longrightarrow> 0xA0 \<le> c1) \<and> (b = 0xED \<longrightarrow> c1 \<le> 0x9F) \<and> utf8_ok r
         | _ \<Rightarrow> False)
      else if 0xF0 \<le> b \<and> b \<le> 0xF4 then
        (case bs of
           c1 # c2 # c3 # r \<Rightarrow> is_cont c1 \<and> is_cont c2 \<and> is_cont c3 \<and> (b = 0xF0 \<longrightarrow> 0x90 \<le> c1) \<and> (b = 0xF4 \<longrightarrow> c1 \<le> 0x8F) \<and> utf8_ok r
         | _ \<Rightarrow> False)
      else False)"

subsection \<open>The parser\<close>

record LoadedCell =
  base_address :: usize
  lc_size :: usize
  lc_entry_point :: "usize option"

record SegmentInfo =
  file_offset :: usize
  vaddr :: usize
  file_size :: usize
  mem_size :: usize
  seg_flags :: u32

record CellInfo =
  entry_offset :: u64
  memory_size :: usize
  ci_alignment :: usize
  ci_exports :: "u8 list list"
  ci_imports :: "u8 list list"
  segments :: "SegmentInfo list"

record ElfLoader =
  el_data :: "u8 list"
  el_header :: Elf64Header

definition elf_new :: "u8 list \<Rightarrow> ElfLoader load_result" where
  "elf_new data =
     (if length data < EHDR_SIZE then Some (Inl (InvalidFormat ''File too small''))
      else load_bind (read_raw elf_header EHDR_SIZE data 0) (\<lambda>header.
        if take 4 (e_ident header) \<noteq> ELF_MAGIC then Some (Inl (InvalidFormat ''Invalid ELF magic''))
        else if e_ident header ! 4 \<noteq> ELFCLASS64 then Some (Inl (InvalidFormat ''Not 64-bit ELF''))
        else if e_ident header ! 5 \<noteq> ELFDATA2LSB then Some (Inl (InvalidFormat ''Not little endian''))
        else if e_machine header \<noteq> 0x3E then Some (Inl (InvalidFormat ''Not x86_64''))
        else Some (Inr \<lparr>el_data = data, el_header = header\<rparr>)))"

definition ph_offset :: "ElfLoader \<Rightarrow> nat \<Rightarrow> usize" where
  "ph_offset l i = wadd64 (e_phoff (el_header l)) (i * e_phentsize (el_header l))"

definition shdr_offset :: "ElfLoader \<Rightarrow> nat \<Rightarrow> usize" where
  "shdr_offset l i = wadd64 (e_shoff (el_header l)) (i * e_shentsize (el_header l))"

text \<open>One round of the loop over the program headers, on the segments, the highest address and the alignment.\<close>

definition parse_program_header ::
  "ElfLoader \<Rightarrow> nat \<Rightarrow> SegmentInfo list \<times> usize \<times> usize \<Rightarrow> (SegmentInfo list \<times> usize \<times> usize) load_result" where
  "parse_program_header l i acc =
     (case acc of (segs, max_addr, alignment) \<Rightarrow>
        if length (el_data l) < wadd64 (ph_offset l i) PHDR_SIZE then Some (Inl (InvalidFormat ''Program header out of bounds''))
        else load_bind (read_raw elf_program_header PHDR_SIZE (el_data l) (ph_offset l i)) (\<lambda>ph.
          if p_type ph = PT_LOAD then
            (let end_addr = wadd64 (p_vaddr ph) (p_memsz ph)
             in Some (Inr (segs @ [\<lparr>file_offset = p_offset ph, vaddr = p_vaddr ph, file_size = p_filesz ph, mem_size = p_memsz ph,
                                    seg_flags = p_flags ph\<rparr>], max max_addr end_addr, max alignment (p_align ph))))
          else Some (Inr acc)))"

definition get_string_table :: "ElfLoader \<Rightarrow> nat \<Rightarrow> u8 list load_result" where
  "get_string_table l index =
     (if length (el_data l) < wadd64 (shdr_offset l index) SHDR_SIZE then Some (Inl (InvalidFormat ''String table section out of bounds''))
      else load_bind (read_raw elf_section_header SHDR_SIZE (el_data l) (shdr_offset l index)) (\<lambda>sh.
        let start = sh_offset sh; stop = wadd64 start (sh_size sh)
        in if length (el_data l) < stop then Some (Inl (InvalidFormat ''String table data out of bounds''))
           else slice_range (el_data l) start stop))"

definition get_string :: "u8 list \<Rightarrow> usize \<Rightarrow> u8 list option" where
  "get_string strtab offset =
     (if length strtab \<le> offset then None
      else let name = takeWhile (\<lambda>b. b \<noteq> 0) (drop offset strtab) in if utf8_ok name then Some name else None)"

text \<open>One symbol of a table: a global one is exported when defined and imported when not.\<close>

definition process_symbol ::
  "ElfLoader \<Rightarrow> Elf64SectionHeader \<Rightarrow> u8 list \<Rightarrow> nat \<Rightarrow> u8 list list \<times> u8 list list \<Rightarrow> (u8 list list \<times> u8 list list) load_result" where
  "process_symbol l sh strtab j acc =
     (case acc of (exports, imports) \<Rightarrow>
        (let sym_offset = wadd64 (sh_offset sh) (j * SYM_SIZE)
         in if length (el_data l) < wadd64 sym_offset SYM_SIZE then Some (Inr acc)
            else load_bind (read_raw elf_symbol SYM_SIZE (el_data l) sym_offset) (\<lambda>sym.
              if sym_binding sym = STB_GLOBAL \<and> st_name sym \<noteq> 0 then
                (case get_string strtab (st_name sym) of
                   None \<Rightarrow> Some (Inr acc)
                 | Some name \<Rightarrow> Some (Inr (if st_shndx sym = 0 then (exports, imports @ [name]) else (exports @ [name], imports))))
              else Some (Inr acc))))"

definition process_symbol_table ::
  "ElfLoader \<Rightarrow> Elf64SectionHeader \<Rightarrow> u8 list list \<times> u8 list list \<Rightarrow> (u8 list list \<times> u8 list list) load_result" where
  "process_symbol_table l sh acc =
     load_bind (get_string_table l (sh_link sh)) (\<lambda>strtab.
       load_each (process_symbol l sh strtab) [0..<sh_size sh div SYM_SIZE] acc)"

definition parse_section :: "ElfLoader \<Rightarrow> nat \<Rightarrow> u8 list list \<times> u8 list list \<Rightarrow> (u8 list list \<times> u8 list list) load_result" where
  "parse_section l i acc =
     (if length (el_data l) < wadd64 (shdr_offset l i) SHDR_SIZE then Some (Inr acc)
      else load_bind (read_raw elf_section_header SHDR_SIZE (el_data l) (shdr_offset l i)) (\<lambda>sh.
        if sh_type sh = SHT_SYMTAB \<or> sh_type sh = SHT_DYNSYM then process_symbol_table l sh acc else Some (Inr acc)))"

definition parse_symbols :: "ElfLoader \<Rightarrow> (u8 list list \<times> u8 list list) load_result" where
  "parse_symbols l = load_each (parse_section l) [0..<e_shnum (el_header l)] ([], [])"

definition elf_parse :: "ElfLoader \<Rightarrow> CellInfo load_result" where
  "elf_parse l =
     load_bind (load_each (parse_program_header l) [0..<e_phnum (el_header l)] ([], 0, 4096)) (\<lambda>(segs, max_addr, alignment).
       load_bind (parse_symbols l) (\<lambda>(exports, imports).
         Some (Inr \<lparr>entry_offset = e_entry (el_header l), memory_size = max_addr, ci_alignment = alignment, ci_exports = exports,
                    ci_imports = imports, segments = segs\<rparr>)))"

subsection \<open>Loading\<close>

type_synonym memory = "usize \<Rightarrow> u8"

definition mem_write :: "usize \<Rightarrow> u8 list \<Rightarrow> memory \<Rightarrow> memory" where
  "mem_write a bs m = (\<lambda>x. let k = wsub64 x a in if k < length bs then bs ! k else m x)"

text \<open>\<open>allocate_memory\<close>: the layout is refused when its size rounded up passes the range of \<open>isize\<close>; the memory comes zeroed from the global allocator, a parameter.\<close>

definition allocate_memory :: "(usize \<Rightarrow> usize option) \<Rightarrow> usize \<Rightarrow> usize \<Rightarrow> memory \<Rightarrow> (memory \<times> usize) load_result" where
  "allocate_memory alloc sz alignment m =
     (if 2 ^ 63 - 4096 < sz then Some (Inl LoadOutOfMemory)
      else case alloc sz of
             None \<Rightarrow> Some (Inl LoadOutOfMemory)
           | Some ptr \<Rightarrow> Some (Inr (mem_write ptr (replicate sz 0) m, ptr)))"

definition load_segment :: "u8 list \<Rightarrow> usize \<Rightarrow> SegmentInfo \<Rightarrow> memory \<Rightarrow> memory load_result" where
  "load_segment data base seg m =
     (let dest = wadd64 base (vaddr seg); src_start = file_offset seg; src_end = wadd64 src_start (file_size seg)
      in if length data < src_end then Some (Inl (InvalidFormat ''Segment data out of bounds''))
         else load_bind (read_raw (take (file_size seg)) (file_size seg) data src_start) (\<lambda>bytes.
           let m1 = mem_write dest bytes m
           in Some (Inr (if file_size seg < mem_size seg
                         then mem_write (wadd64 dest (file_size seg)) (replicate (mem_size seg - file_size seg) 0) m1 else m1))))"

definition elf_load :: "(usize \<Rightarrow> usize option) \<Rightarrow> ElfLoader \<Rightarrow> CellInfo \<Rightarrow> memory \<Rightarrow> (memory \<times> LoadedCell) load_result" where
  "elf_load alloc l info m =
     load_bind (allocate_memory alloc (memory_size info) (ci_alignment info) m) (\<lambda>(m0, base).
       load_bind (load_each (load_segment (el_data l) base) (segments info) m0) (\<lambda>m1.
         Some (Inr (m1, \<lparr>base_address = base, lc_size = memory_size info,
           lc_entry_point = (if entry_offset info \<noteq> 0 then Some (wadd64 base (entry_offset info)) else None)\<rparr>))))"

subsection \<open>Relocation\<close>

definition get_section_header :: "ElfLoader \<Rightarrow> nat \<Rightarrow> Elf64SectionHeader load_result" where
  "get_section_header l index =
     (if length (el_data l) < wadd64 (shdr_offset l index) SHDR_SIZE then Some (Inl (InvalidFormat ''Section header out of bounds''))
      else read_raw elf_section_header SHDR_SIZE (el_data l) (shdr_offset l index))"

definition apply_relocation :: "Elf64Rela \<Rightarrow> usize \<Rightarrow> usize \<Rightarrow> memory \<Rightarrow> memory" where
  "apply_relocation rela base sym_value m =
     (let target = wadd64 base (r_offset rela); v = wadd64 sym_value (r_addend rela)
      in if reloc_type rela = 1 then mem_write target (to_le 8 v) m
         else if reloc_type rela = 2 then mem_write target (to_le 4 (wsub64 v target)) m
         else if reloc_type rela = 10 then mem_write target (to_le 4 v) m
         else m)"

definition relocate_entry ::
  "ElfLoader \<Rightarrow> LoadedCell \<Rightarrow> (u8 list \<Rightarrow> usize option) \<Rightarrow> Elf64SectionHeader \<Rightarrow> Elf64SectionHeader \<Rightarrow> u8 list \<Rightarrow> nat \<Rightarrow> memory \<Rightarrow> memory load_result" where
  "relocate_entry l loaded resolve sh symtab_sh strtab j m =
     (let rela_offset = wadd64 (sh_offset sh) (j * RELA_SIZE)
      in if length (el_data l) < wadd64 rela_offset RELA_SIZE then Some (Inr m)
         else load_bind (read_raw elf_rela RELA_SIZE (el_data l) rela_offset) (\<lambda>rela.
           let sym_offset = wadd64 (sh_offset symtab_sh) (rela_symbol rela * SYM_SIZE)
           in if length (el_data l) < wadd64 sym_offset SYM_SIZE then Some (Inr m)
              else load_bind (read_raw elf_symbol SYM_SIZE (el_data l) sym_offset) (\<lambda>sym.
                load_bind
                  (if st_shndx sym = 0 then
                     (case get_string strtab (st_name sym) of
                        None \<Rightarrow> Some (Inl (InvalidFormat ''Invalid symbol name''))
                      | Some name \<Rightarrow> (case resolve name of None \<Rightarrow> Some (Inl (UnresolvedDependency name)) | Some v \<Rightarrow> Some (Inr v)))
                   else Some (Inr (wadd64 (base_address loaded) (st_value sym))))
                  (\<lambda>sym_value. Some (Inr (apply_relocation rela (base_address loaded) sym_value m))))))"

definition apply_relocations ::
  "ElfLoader \<Rightarrow> LoadedCell \<Rightarrow> (u8 list \<Rightarrow> usize option) \<Rightarrow> Elf64SectionHeader \<Rightarrow> memory \<Rightarrow> memory load_result" where
  "apply_relocations l loaded resolve sh m =
     load_bind (get_section_header l (sh_link sh)) (\<lambda>symtab_sh.
       load_bind (get_string_table l (sh_link symtab_sh)) (\<lambda>strtab.
         load_each (relocate_entry l loaded resolve sh symtab_sh strtab) [0..<sh_size sh div RELA_SIZE] m))"

definition relocate_section ::
  "ElfLoader \<Rightarrow> LoadedCell \<Rightarrow> (u8 list \<Rightarrow> usize option) \<Rightarrow> nat \<Rightarrow> memory \<Rightarrow> memory load_result" where
  "relocate_section l loaded resolve i m =
     (if length (el_data l) < wadd64 (shdr_offset l i) SHDR_SIZE then Some (Inr m)
      else load_bind (read_raw elf_section_header SHDR_SIZE (el_data l) (shdr_offset l i)) (\<lambda>sh.
        if sh_type sh = SHT_RELA then apply_relocations l loaded resolve sh m else Some (Inr m)))"

definition relocate :: "ElfLoader \<Rightarrow> LoadedCell \<Rightarrow> (u8 list \<Rightarrow> usize option) \<Rightarrow> memory \<Rightarrow> memory load_result" where
  "relocate l loaded resolve m = load_each (relocate_section l loaded resolve) [0..<e_shnum (el_header l)] m"

subsection \<open>Results of loops\<close>

lemma load_bind_simps [simp]:
  "load_bind None f = None" "load_bind (Some (Inl e)) f = Some (Inl e)" "load_bind (Some (Inr x)) f = f x"
  by (simp_all add: load_bind_def)

lemma load_bind_Ok: "load_bind m f = Some (Inr y) \<longleftrightarrow> (\<exists>x. m = Some (Inr x) \<and> f x = Some (Inr y))"
  by (cases m) (auto simp: load_bind_def split: sum.splits)

lemma load_bind_None: "load_bind m f = None \<longleftrightarrow> m = None \<or> (\<exists>x. m = Some (Inr x) \<and> f x = None)"
  by (cases m) (auto simp: load_bind_def split: sum.splits)

lemma load_bind_total: "m \<noteq> None \<Longrightarrow> (\<And>x. m = Some (Inr x) \<Longrightarrow> f x \<noteq> None) \<Longrightarrow> load_bind m f \<noteq> None"
  unfolding load_bind_None by blast

text \<open>An invariant of a loop, and a loop without faults.\<close>

lemma load_each_invariant:
  assumes "load_each f is s = Some (Inr s')" and "P s" and "\<And>i t t'. i \<in> set is \<Longrightarrow> P t \<Longrightarrow> f i t = Some (Inr t') \<Longrightarrow> P t'"
  shows "P s'"
  using assms by (induction "is" arbitrary: s) (auto simp: load_bind_Ok)

lemma load_each_total:
  assumes "\<And>i t. i \<in> set is \<Longrightarrow> f i t \<noteq> None"
  shows "load_each f is s \<noteq> None"
  using assms by (induction "is" arbitrary: s) (auto simp: load_bind_None)

lemma load_each_append: "load_each f (xs @ ys) s = load_bind (load_each f xs s) (load_each f ys)"
  by (induction xs arbitrary: s) (auto simp: load_bind_def split: option.splits sum.splits)

subsection \<open>Loading, exactly\<close>

lemma mem_write_exact:
  assumes "a + length bs \<le> U64_MOD" and "x < U64_MOD"
  shows "mem_write a bs m x = (if a \<le> x \<and> x < a + length bs then bs ! (x - a) else m x)"
proof (cases "a \<le> x")
  case True
  with assms show ?thesis by (auto simp: mem_write_def wsub64_exact Let_def)
next
  case False
  with assms have "wsub64 x a = x + U64_MOD - a" by (simp add: wsub64_def)
  moreover have "\<not> x + U64_MOD - a < length bs" using assms(1) by linarith
  ultimately have "\<not> wsub64 x a < length bs" by presburger
  with False show ?thesis by (simp add: mem_write_def Let_def)
qed

text \<open>A segment that lies in the file and in the cell's memory, and the byte it puts at an offset of the cell.\<close>

definition seg_fits :: "u8 list \<Rightarrow> usize \<Rightarrow> SegmentInfo \<Rightarrow> bool" where
  "seg_fits data sz s = (file_offset s + file_size s \<le> length data \<and> file_size s \<le> mem_size s \<and> vaddr s + mem_size s \<le> sz)"

definition in_segment :: "SegmentInfo \<Rightarrow> usize \<Rightarrow> bool" where
  "in_segment s k = (vaddr s \<le> k \<and> k < vaddr s + mem_size s)"

definition seg_byte :: "u8 list \<Rightarrow> SegmentInfo \<Rightarrow> usize \<Rightarrow> u8" where
  "seg_byte data s k = (if k - vaddr s < file_size s then data ! (file_offset s + (k - vaddr s)) else 0)"

text \<open>The image of a cell: an offset holds the byte of the last segment that covers it, and zero when none does.\<close>

definition cell_image :: "u8 list \<Rightarrow> SegmentInfo list \<Rightarrow> usize \<Rightarrow> u8" where
  "cell_image data segs k = (case find (\<lambda>s. in_segment s k) (rev segs) of Some s \<Rightarrow> seg_byte data s k | None \<Rightarrow> 0)"

lemma read_raw_take: "off + n \<le> length data \<Longrightarrow> read_raw (take n) n data off = Some (Inr (take n (drop off data)))"
  by (simp add: read_raw_def)

lemma load_segment_exact:
  assumes fits: "seg_fits data sz s" and room: "base + sz \<le> U64_MOD" and len: "length data < U64_MOD"
  obtains m' where "load_segment data base s m = Some (Inr m')"
    and "\<And>x. x < U64_MOD \<Longrightarrow> m' x = (if base \<le> x \<and> in_segment s (x - base) then seg_byte data s (x - base) else m x)"
proof -
  have inside: "file_offset s + file_size s \<le> length data" "wadd64 (file_offset s) (file_size s) = file_offset s + file_size s"
    using fits len by (auto simp: seg_fits_def wadd64_exact)
  show thesis
  proof (cases "mem_size s = 0")
    case True
    with fits have z: "file_size s = 0" by (simp add: seg_fits_def)
    show thesis
      by (rule that [of m]) (use True z inside in \<open>auto simp: load_segment_def read_raw_def in_segment_def mem_write_def Let_def\<close>)
  next
    case False
    then have dest: "wadd64 base (vaddr s) = base + vaddr s" "base + vaddr s + mem_size s \<le> U64_MOD" "file_size s \<le> mem_size s"
      using fits room by (auto simp: seg_fits_def wadd64_exact)
    show thesis
    proof (cases "file_size s < mem_size s")
      case True
      with dest have bss: "wadd64 (base + vaddr s) (file_size s) = base + vaddr s + file_size s" by (simp add: wadd64_exact)
      show thesis
        by (rule that [of "mem_write (base + vaddr s + file_size s) (replicate (mem_size s - file_size s) 0)
              (mem_write (base + vaddr s) (take (file_size s) (drop (file_offset s) data)) m)"],
            simp add: load_segment_def Let_def inside dest(1) read_raw_take True bss)
          (use dest(2) True inside(1) in \<open>auto simp: mem_write_exact in_segment_def seg_byte_def\<close>)
    next
      case False
      show thesis
        by (rule that [of "mem_write (base + vaddr s) (take (file_size s) (drop (file_offset s) data)) m"],
            simp add: load_segment_def Let_def inside dest(1) read_raw_take False)
          (use dest(2,3) False inside(1) in \<open>auto simp: mem_write_exact in_segment_def seg_byte_def\<close>)
    qed
  qed
qed

lemma load_segments_exact:
  assumes "\<forall>s\<in>set segs. seg_fits data sz s" and "base + sz \<le> U64_MOD" and "length data < U64_MOD"
  obtains m' where "load_each (load_segment data base) segs m = Some (Inr m')"
    and "\<And>x. x < U64_MOD \<Longrightarrow> m' x = (if base \<le> x then
           (case find (\<lambda>s. in_segment s (x - base)) (rev segs) of Some s \<Rightarrow> seg_byte data s (x - base) | None \<Rightarrow> m x) else m x)"
  using assms(1)
proof (induction segs arbitrary: thesis rule: rev_induct)
  case Nil
  show ?case by (rule Nil(1) [of m]) simp_all
next
  case (snoc s segs)
  obtain m1 where m1: "load_each (load_segment data base) segs m = Some (Inr m1)"
    "\<And>x. x < U64_MOD \<Longrightarrow> m1 x = (if base \<le> x then
       (case find (\<lambda>s. in_segment s (x - base)) (rev segs) of Some s \<Rightarrow> seg_byte data s (x - base) | None \<Rightarrow> m x) else m x)"
    using snoc.IH snoc.prems(2) by auto
  obtain m2 where m2: "load_segment data base s m1 = Some (Inr m2)"
    "\<And>x. x < U64_MOD \<Longrightarrow> m2 x = (if base \<le> x \<and> in_segment s (x - base) then seg_byte data s (x - base) else m1 x)"
    using load_segment_exact [of data sz s base m1] snoc.prems(2) assms(2,3) by auto
  show ?case
    by (rule snoc.prems(1) [of m2]) (auto simp: load_each_append m1 m2)
qed

lemma allocate_memory_ok:
  assumes "alloc sz = Some base" and "sz \<le> 2 ^ 63 - 4096"
  shows "allocate_memory alloc sz al m = Some (Inr (mem_write base (replicate sz 0) m, base))"
  using assms by (simp add: allocate_memory_def)

subsection \<open>What the parser bounds\<close>

lemma parse_program_header_bound:
  assumes "parse_program_header l i (segs, hi, al) = Some (Inr (segs', hi', al'))"
    and "\<forall>s\<in>set segs. wadd64 (vaddr s) (mem_size s) \<le> hi"
  shows "\<forall>s\<in>set segs'. wadd64 (vaddr s) (mem_size s) \<le> hi'"
  using assms
  by (auto simp: parse_program_header_def load_bind_Ok Let_def le_max_iff_disj split: if_splits)

lemma elf_parse_bound:
  assumes "elf_parse l = Some (Inr info)" and "s \<in> set (segments info)"
  shows "wadd64 (vaddr s) (mem_size s) \<le> memory_size info"
proof -
  obtain segs hi al where r: "load_each (parse_program_header l) [0..<e_phnum (el_header l)] ([], 0, 4096) = Some (Inr (segs, hi, al))"
    and i: "segments info = segs" "memory_size info = hi"
    using assms(1) by (auto simp: elf_parse_def load_bind_Ok)
  have "case (segs, hi, al) of (segs, hi, al) \<Rightarrow> \<forall>s\<in>set segs. wadd64 (vaddr s) (mem_size s) \<le> hi"
    by (rule load_each_invariant [OF r]) (use parse_program_header_bound in \<open>auto split: prod.splits\<close>)
  with assms(2) i show ?thesis by simp
qed

subsection \<open>Reads inside the file\<close>

text \<open>A file whose tables start below \<open>2 ^ 63\<close>, and whose section headers inside the file name sections below \<open>2 ^ 63\<close>: no sum of offsets wraps.\<close>

definition plain_sections :: "ElfLoader \<Rightarrow> bool" where
  "plain_sections l = (\<forall>i<2 ^ 32. shdr_offset l i + SHDR_SIZE \<le> length (el_data l) \<longrightarrow>
     (let sh = elf_section_header (drop (shdr_offset l i) (el_data l)) in sh_offset sh < 2 ^ 63 \<and> sh_size sh < 2 ^ 63))"

lemmas elf_sizes = EHDR_SIZE_def PHDR_SIZE_def SHDR_SIZE_def SYM_SIZE_def RELA_SIZE_def

lemma elf_new_header: "elf_new data = Some (Inr l) \<Longrightarrow> el_header l = elf_header (el_data l)"
  by (auto simp: elf_new_def load_bind_Ok read_raw_def split: if_splits)

lemma header_fields:
  "e_phnum (elf_header b) < 2 ^ 16" "e_phentsize (elf_header b) < 2 ^ 16"
  "e_shnum (elf_header b) < 2 ^ 16" "e_shentsize (elf_header b) < 2 ^ 16"
  using le_field_less [of b _ 2] by (simp_all add: elf_header_def)

lemma sh_link_less: "sh_link (elf_section_header b) < 2 ^ 32"
  using le_field_less [of b 40 4] by (simp add: elf_section_header_def)

lemma rela_symbol_less: "rela_symbol (elf_rela b) < 2 ^ 32"
  using le_field_less [of b 8 8] by (simp add: elf_rela_def rela_symbol_def div_less_iff_less_mult)

lemma table_offset_exact:
  assumes "base < 2 ^ 63" and "i < 2 ^ 32" and "esz < 2 ^ 16"
  shows "wadd64 base (i * esz) = base + i * esz" and "base + i * esz + 64 < U64_MOD"
proof -
  have "i * esz < 2 ^ 32 * 2 ^ 16" using assms(2,3) by (intro mult_strict_mono) auto
  with assms(1) show "base + i * esz + 64 < U64_MOD" by (simp add: U64_MOD_def)
  then show "wadd64 base (i * esz) = base + i * esz" by (simp add: wadd64_exact)
qed

lemma shdr_offset_exact:
  assumes "el_header l = elf_header (el_data l)" and "e_shoff (el_header l) < 2 ^ 63" and "i < 2 ^ 32"
  shows "wadd64 (shdr_offset l i) SHDR_SIZE = shdr_offset l i + SHDR_SIZE"
  using table_offset_exact [of "e_shoff (el_header l)" i "e_shentsize (el_header l)"] assms header_fields(4)
  by (simp add: shdr_offset_def elf_sizes wadd64_exact)

lemma ph_offset_exact:
  assumes "el_header l = elf_header (el_data l)" and "e_phoff (el_header l) < 2 ^ 63" and "i < 2 ^ 16"
  shows "wadd64 (ph_offset l i) PHDR_SIZE = ph_offset l i + PHDR_SIZE"
  using table_offset_exact [of "e_phoff (el_header l)" i "e_phentsize (el_header l)"] assms header_fields(2)
  by (simp add: ph_offset_def elf_sizes wadd64_exact)

text \<open>Entries of a table inside its section.\<close>

lemma entry_offset_exact:
  assumes "off < 2 ^ 63" and "len < 2 ^ 63" and "j < len div 24"
  shows "wadd64 (wadd64 off (j * 24)) 24 = off + j * 24 + 24" and "wadd64 off (j * 24) = off + j * 24"
proof -
  have "j * 24 + 24 \<le> len" using assms(3) by linarith
  with assms(1,2) have "off + j * 24 + 24 < U64_MOD" by (simp add: U64_MOD_def)
  then show "wadd64 (wadd64 off (j * 24)) 24 = off + j * 24 + 24" "wadd64 off (j * 24) = off + j * 24"
    by (simp_all add: wadd64_exact)
qed

lemma index_offset_exact:
  assumes "off < 2 ^ 63" and "j < 2 ^ 32"
  shows "wadd64 (wadd64 off (j * 24)) 24 = off + j * 24 + 24" and "wadd64 off (j * 24) = off + j * 24"
proof -
  from assms have "off + j * 24 + 24 < U64_MOD" by (simp add: U64_MOD_def)
  then show "wadd64 (wadd64 off (j * 24)) 24 = off + j * 24 + 24" "wadd64 off (j * 24) = off + j * 24"
    by (simp_all add: wadd64_exact)
qed

text \<open>What the proofs below have in common: the header of the file, small offsets.\<close>

definition plain_file :: "ElfLoader \<Rightarrow> bool" where
  "plain_file l = (el_header l = elf_header (el_data l) \<and> e_phoff (el_header l) < 2 ^ 63 \<and> e_shoff (el_header l) < 2 ^ 63 \<and> plain_sections l)"

lemma section_header_read:
  assumes "plain_file l" and "i < 2 ^ 32" and "\<not> length (el_data l) < wadd64 (shdr_offset l i) SHDR_SIZE"
  obtains sh where "read_raw elf_section_header SHDR_SIZE (el_data l) (shdr_offset l i) = Some (Inr sh)"
    and "sh_offset sh < 2 ^ 63" and "sh_size sh < 2 ^ 63" and "sh_link sh < 2 ^ 32"
proof -
  have "wadd64 (shdr_offset l i) SHDR_SIZE = shdr_offset l i + SHDR_SIZE"
    using assms(1,2) shdr_offset_exact unfolding plain_file_def by blast
  with assms(3) have fits: "shdr_offset l i + SHDR_SIZE \<le> length (el_data l)" by linarith
  let ?sh = "elf_section_header (drop (shdr_offset l i) (el_data l))"
  have "sh_offset ?sh < 2 ^ 63 \<and> sh_size ?sh < 2 ^ 63"
    using assms(1,2) fits unfolding plain_file_def plain_sections_def Let_def by blast
  with fits sh_link_less that [of ?sh] show thesis by (simp add: read_raw_def)
qed

lemma get_string_table_total:
  assumes "plain_file l" and "i < 2 ^ 32"
  shows "get_string_table l i \<noteq> None"
proof (cases "length (el_data l) < wadd64 (shdr_offset l i) SHDR_SIZE")
  case False
  then obtain sh where sh: "read_raw elf_section_header SHDR_SIZE (el_data l) (shdr_offset l i) = Some (Inr sh)"
    "sh_offset sh < 2 ^ 63" "sh_size sh < 2 ^ 63"
    using section_header_read [OF assms] by metis
  have "wadd64 (sh_offset sh) (sh_size sh) = sh_offset sh + sh_size sh"
    using sh(2,3) by (intro wadd64_exact) (simp add: U64_MOD_def)
  then show ?thesis by (simp add: get_string_table_def sh slice_range_def Let_def)
qed (simp add: get_string_table_def)

lemma process_symbol_total:
  assumes "sh_offset sh < 2 ^ 63" and "sh_size sh < 2 ^ 63" and "j < sh_size sh div SYM_SIZE"
  shows "process_symbol l sh strtab j acc \<noteq> None"
  using entry_offset_exact [OF assms(1,2), of j] assms(3)
  by (auto simp: process_symbol_def elf_sizes read_raw_def Let_def split: prod.split option.split)

lemma parse_section_total:
  assumes "plain_file l" and "i < 2 ^ 32"
  shows "parse_section l i acc \<noteq> None"
proof (cases "length (el_data l) < wadd64 (shdr_offset l i) SHDR_SIZE")
  case False
  then obtain sh where sh: "read_raw elf_section_header SHDR_SIZE (el_data l) (shdr_offset l i) = Some (Inr sh)"
    "sh_offset sh < 2 ^ 63" "sh_size sh < 2 ^ 63" "sh_link sh < 2 ^ 32"
    using section_header_read [OF assms] by metis
  have "load_each (process_symbol l sh strtab) [0..<sh_size sh div SYM_SIZE] acc \<noteq> None" for strtab
    by (rule load_each_total) (use process_symbol_total sh(2,3) in auto)
  then have "process_symbol_table l sh acc \<noteq> None"
    unfolding process_symbol_table_def using get_string_table_total [OF assms(1) sh(4)] by (intro load_bind_total)
  then show ?thesis using False by (simp add: parse_section_def sh(1))
qed (simp add: parse_section_def)

lemma elf_parse_total:
  assumes "plain_file l"
  shows "elf_parse l \<noteq> None"
proof -
  have few: "e_phnum (el_header l) < 2 ^ 16" "e_shnum (el_header l) < 2 ^ 16"
    using assms header_fields by (simp_all add: plain_file_def)
  have "parse_program_header l i acc \<noteq> None" if "i \<in> set [0..<e_phnum (el_header l)]" for i acc
  proof -
    have "i < 2 ^ 16" using that few(1) by simp
    then have "wadd64 (ph_offset l i) PHDR_SIZE = ph_offset l i + PHDR_SIZE"
      using assms ph_offset_exact unfolding plain_file_def by blast
    then show ?thesis by (auto simp: parse_program_header_def read_raw_def Let_def split: prod.split)
  qed
  then have "load_each (parse_program_header l) [0..<e_phnum (el_header l)] ([], 0, 4096) \<noteq> None"
    by (intro load_each_total)
  moreover have "parse_symbols l \<noteq> None"
    unfolding parse_symbols_def by (rule load_each_total) (use parse_section_total [OF assms] few(2) in auto)
  ultimately show ?thesis by (auto simp: elf_parse_def load_bind_None)
qed

lemma relocate_entry_total:
  assumes "sh_offset sh < 2 ^ 63" and "sh_size sh < 2 ^ 63" and "j < sh_size sh div RELA_SIZE" and "sh_offset symtab < 2 ^ 63"
  shows "relocate_entry l loaded resolve sh symtab strtab j m \<noteq> None"
  using entry_offset_exact [OF assms(1,2), of j] assms(3) index_offset_exact [OF assms(4) rela_symbol_less]
  by (auto simp: relocate_entry_def elf_sizes read_raw_def Let_def split: option.split)

lemma apply_relocations_total:
  assumes "plain_file l" and "sh_offset sh < 2 ^ 63" and "sh_size sh < 2 ^ 63" and "sh_link sh < 2 ^ 32"
  shows "apply_relocations l loaded resolve sh m \<noteq> None"
proof (cases "length (el_data l) < wadd64 (shdr_offset l (sh_link sh)) SHDR_SIZE")
  case False
  then obtain st where st: "read_raw elf_section_header SHDR_SIZE (el_data l) (shdr_offset l (sh_link sh)) = Some (Inr st)"
    "sh_offset st < 2 ^ 63" "sh_link st < 2 ^ 32"
    using section_header_read [OF assms(1,4)] by metis
  have "load_each (relocate_entry l loaded resolve sh st strtab) [0..<sh_size sh div RELA_SIZE] m \<noteq> None" for strtab
    by (rule load_each_total) (use relocate_entry_total assms(2,3) st(2) in auto)
  then have "load_bind (get_string_table l (sh_link st)) (\<lambda>strtab.
      load_each (relocate_entry l loaded resolve sh st strtab) [0..<sh_size sh div RELA_SIZE] m) \<noteq> None"
    using get_string_table_total [OF assms(1) st(3)] by (intro load_bind_total)
  then show ?thesis using False by (simp add: apply_relocations_def get_section_header_def st(1))
qed (simp add: apply_relocations_def get_section_header_def)

lemma relocate_section_total:
  assumes "plain_file l" and "i < 2 ^ 32"
  shows "relocate_section l loaded resolve i m \<noteq> None"
proof (cases "length (el_data l) < wadd64 (shdr_offset l i) SHDR_SIZE")
  case False
  then obtain sh where sh: "read_raw elf_section_header SHDR_SIZE (el_data l) (shdr_offset l i) = Some (Inr sh)"
    "sh_offset sh < 2 ^ 63" "sh_size sh < 2 ^ 63" "sh_link sh < 2 ^ 32"
    using section_header_read [OF assms] by metis
  from apply_relocations_total [OF assms(1) sh(2-4)] False show ?thesis
    by (simp add: relocate_section_def sh(1))
qed (simp add: relocate_section_def)

lemma relocate_total:
  assumes "plain_file l"
  shows "relocate l loaded resolve m \<noteq> None"
proof -
  have "e_shnum (el_header l) < 2 ^ 16" using assms header_fields by (simp add: plain_file_def)
  then show ?thesis
    unfolding relocate_def by (intro load_each_total) (use relocate_section_total [OF assms] in auto)
qed

subsection \<open>A file\<close>

text \<open>A file with one loadable segment whose six bytes stand at offset 120.\<close>

definition tiny_elf :: "u64 \<Rightarrow> u64 \<Rightarrow> u8 list" where
  "tiny_elf phoff memsz =
     ELF_MAGIC @ [2, 1, 1] @ replicate 9 0 @ to_le 2 3 @ to_le 2 0x3E @ to_le 4 1 @ to_le 8 0 @ to_le 8 phoff @ to_le 8 0 @ to_le 4 0
       @ to_le 2 64 @ to_le 2 56 @ to_le 2 1 @ to_le 2 64 @ to_le 2 0 @ to_le 2 0
     @ to_le 4 1 @ to_le 4 5 @ to_le 8 120 @ to_le 8 0 @ to_le 8 0 @ to_le 8 6 @ to_le 8 memsz @ to_le 8 4096
     @ [0xB8, 0x2A, 0, 0, 0, 0xC3]"

definition tiny_loader :: "u64 \<Rightarrow> u64 \<Rightarrow> ElfLoader" where
  "tiny_loader phoff memsz = \<lparr>el_data = tiny_elf phoff memsz, el_header = elf_header (tiny_elf phoff memsz)\<rparr>"

definition tiny_info :: "u64 \<Rightarrow> CellInfo" where
  "tiny_info memsz = \<lparr>entry_offset = 0, memory_size = memsz, ci_alignment = 4096, ci_exports = [], ci_imports = [],
     segments = [\<lparr>file_offset = 120, vaddr = 0, file_size = 6, mem_size = memsz, seg_flags = 5\<rparr>]\<rparr>"

lemma tiny_new: "elf_new (tiny_elf 64 8) = Some (Inr (tiny_loader 64 8))"
  by code_simp

lemma tiny_parse: "elf_parse (tiny_loader 64 8) = Some (Inr (tiny_info 8))"
  by code_simp

lemma tiny_parse_short: "elf_parse (tiny_loader 64 4) = Some (Inr (tiny_info 4))"
  by code_simp

text \<open>A program header table at \<open>2 ^ 64 - 28\<close>: its end wraps to 28, the check passes and the read is 28 bytes before the file.\<close>

lemma crafted_phoff_reads_outside:
  "elf_new (tiny_elf (2 ^ 64 - 28) 8) = Some (Inr (tiny_loader (2 ^ 64 - 28) 8)) \<and> elf_parse (tiny_loader (2 ^ 64 - 28) 8) = None"
  by (rule conjI; code_simp)

lemma tiny_plain: "plain_sections (tiny_loader 64 8)"
proof -
  have off: "shdr_offset (tiny_loader 64 8) i = 64 * i" if "i < 2 ^ 32" for i
  proof -
    have "e_shoff (el_header (tiny_loader 64 8)) = 0 \<and> e_shentsize (el_header (tiny_loader 64 8)) = 64" by code_simp
    then show ?thesis using that by (simp add: shdr_offset_def wadd64_def U64_MOD_def)
  qed
  have len: "length (el_data (tiny_loader 64 8)) = 126" by code_simp
  have first: "sh_offset (elf_section_header (el_data (tiny_loader 64 8))) < 2 ^ 63 \<and>
      sh_size (elf_section_header (el_data (tiny_loader 64 8))) < 2 ^ 63" by code_simp
  have "i = 0" if "64 * i + 64 \<le> (126 :: nat)" for i using that by linarith
  then show ?thesis using off len first unfolding plain_sections_def Let_def SHDR_SIZE_def
    by (metis drop_0 mult_zero_right)
qed

subsection \<open>The properties of the loader\<close>



text \<open>C16: The parser does not compare a segment's size in the file with its size in memory, and the loader copies the former into memory
  sized by the latter. When the last segment ends the cell and is longer in the file, the load succeeds, reports the smaller
  size, and has written the rest of the segment past the end of the allocation.\<close>

theorem elf_load_overruns:
  assumes segs: "segments info = ss @ [s]" "\<forall>t\<in>set ss. seg_fits (el_data l) (memory_size info) t"
    and top: "vaddr s + mem_size s = memory_size info" and longer: "mem_size s < file_size s"
    and inside: "file_offset s + file_size s \<le> length (el_data l)" "length (el_data l) < U64_MOD"
    and mem: "alloc (memory_size info) = Some base" "base + vaddr s + file_size s \<le> U64_MOD" "memory_size info \<le> 2 ^ 63 - 4096"
  shows "\<exists>m' c. elf_load alloc l info m = Some (Inr (m', c)) \<and> base_address c = base \<and> lc_size c = memory_size info \<and>
           (\<forall>k. memory_size info \<le> k \<and> k < vaddr s + file_size s \<longrightarrow> m' (base + k) = el_data l ! (file_offset s + (k - vaddr s)))"
proof -
  have room: "base + memory_size info \<le> U64_MOD" using top longer mem(2) by linarith
  obtain m1 where m1: "load_each (load_segment (el_data l) base) ss (mem_write base (replicate (memory_size info) 0) m) = Some (Inr m1)"
    using load_segments_exact [OF segs(2) room inside(2)] by blast
  let ?bytes = "take (file_size s) (drop (file_offset s) (el_data l))"
  have len: "length ?bytes = file_size s" using inside(1) by simp
  have "wadd64 base (vaddr s) = base + vaddr s" "wadd64 (file_offset s) (file_size s) = file_offset s + file_size s"
    using mem(2) longer inside by (simp_all add: wadd64_exact)
  then have m2: "load_segment (el_data l) base s m1 = Some (Inr (mem_write (base + vaddr s) ?bytes m1))"
    using inside(1) longer by (simp add: load_segment_def read_raw_take Let_def)
  have over: "mem_write (base + vaddr s) ?bytes m1 (base + k) = el_data l ! (file_offset s + (k - vaddr s))"
    if "memory_size info \<le> k" "k < vaddr s + file_size s" for k
    using that top mem(2) len inside(1) mem_write_exact [of "base + vaddr s" ?bytes "base + k" m1]
    by (auto simp: nth_append)
  show ?thesis
    using allocate_memory_ok [of alloc "memory_size info" base] mem(1,3) m1 m2 over
    by (auto simp: elf_load_def segs(1) load_each_append)
qed

theorem elf_load_overruns_witness:
  "elf_parse (tiny_loader 64 4) = Some (Inr (tiny_info 4)) \<and>
   (\<exists>m' c. elf_load (\<lambda>_. Some 0x10000) (tiny_loader 64 4) (tiny_info 4) (\<lambda>_. 0) = Some (Inr (m', c)) \<and> lc_size c = 4 \<and> m' 0x10005 = 0xC3)"
proof -
  have d: "length (el_data (tiny_loader 64 4)) = 126 \<and> el_data (tiny_loader 64 4) ! 125 = 0xC3" by code_simp
  have "\<exists>m' c. elf_load (\<lambda>_. Some 0x10000) (tiny_loader 64 4) (tiny_info 4) (\<lambda>_. 0) = Some (Inr (m', c)) \<and> base_address c = 0x10000 \<and>
      lc_size c = memory_size (tiny_info 4) \<and> (\<forall>k. memory_size (tiny_info 4) \<le> k \<and> k < 0 + 6 \<longrightarrow>
        m' (0x10000 + k) = el_data (tiny_loader 64 4) ! (120 + (k - 0)))"
    using elf_load_overruns [of "tiny_info 4" "[]" "\<lparr>file_offset = 120, vaddr = 0, file_size = 6, mem_size = 4, seg_flags = 5\<rparr>"
        "tiny_loader 64 4" "\<lambda>_. Some 0x10000" "0x10000" "\<lambda>_. 0"] d
    by (simp add: tiny_info_def U64_MOD_def)
  then obtain m' c where r: "elf_load (\<lambda>_. Some 0x10000) (tiny_loader 64 4) (tiny_info 4) (\<lambda>_. 0) = Some (Inr (m', c))"
    "lc_size c = memory_size (tiny_info 4)"
    "\<forall>k. memory_size (tiny_info 4) \<le> k \<and> k < 0 + 6 \<longrightarrow> m' (0x10000 + k) = el_data (tiny_loader 64 4) ! (120 + (k - 0))"
    by blast
  from r(3) [rule_format, of 5] d have "m' 0x10005 = 0xC3" by (simp add: tiny_info_def)
  with r(1,2) tiny_parse_short show ?thesis by (auto simp: tiny_info_def)
qed

text \<open>C15: On a file accepted by \<open>new\<close> whose tables and sections start and end below \<open>2 ^ 63\<close>, so that no check of a bound wraps around,
  parsing and relocation read nothing outside the file and cut no slice with crossed ends: both return, with a result or an error.\<close>

theorem elf_reads_inside:
  assumes "elf_new data = Some (Inr l)" and "e_phoff (el_header l) < 2 ^ 63" and "e_shoff (el_header l) < 2 ^ 63" and "plain_sections l"
  shows "elf_parse l \<noteq> None \<and> relocate l loaded resolve m \<noteq> None"
proof -
  have "plain_file l" using assms elf_new_header by (simp add: plain_file_def)
  then show ?thesis by (simp add: elf_parse_total relocate_total del: not_None_eq)
qed

theorem elf_reads_inside_witness:
  "elf_parse (tiny_loader 64 8) \<noteq> None \<and>
   relocate (tiny_loader 64 8) \<lparr>base_address = 0x10000, lc_size = 8, lc_entry_point = None\<rparr> (\<lambda>_. None) (\<lambda>_. 0) \<noteq> None"
proof -
  have "e_phoff (el_header (tiny_loader 64 8)) < 2 ^ 63 \<and> e_shoff (el_header (tiny_loader 64 8)) < 2 ^ 63" by code_simp
  then show ?thesis using elf_reads_inside [OF tiny_new _ _ tiny_plain] by blast
qed

end
