(* ===== verification/CellSig.thy ===== *)
theory CellSig
  imports Elf
begin

text \<open>
  Signatures of cells (\<open>src/src/loader/signature.rs\<close>, with the wrappers \<open>sha256.rs\<close> and \<open>ed25519.rs\<close>): the section that carries a
  signature, the verifier with its trusted keys and counters, and the global verifier.
  The hash of the crate \<open>sha2\<close> and the keys of the crate \<open>ed25519_dalek\<close> are the fields of a
  record that the definitions take; the build feature \<open>require_signatures\<close> is a flag. Lines written
  to the log are left out.
\<close>

subsection \<open>Signatures\<close>

definition SIGNATURE_SECTION_NAME :: "u8 list" where
  "SIGNATURE_SECTION_NAME = [0x2E, 0x65, 0x78, 0x6F, 0x72, 0x75, 0x73, 0x74, 0x5F, 0x73, 0x69, 0x67]"

definition SIGNATURE_MAGIC :: "u8 list" where
  "SIGNATURE_MAGIC = [0x45, 0x58, 0x4F, 0x52, 0x53, 0x49, 0x47, 0]"

definition SIGNATURE_VERSION :: u32 where "SIGNATURE_VERSION = 1"
definition ED25519_SIGNATURE_SIZE :: usize where "ED25519_SIGNATURE_SIZE = 64"

record CellSignature =
  sg_version :: u32
  contains_unsafe :: bool
  uses_framework_only :: bool
  compiler_version :: "u8 list"
  sg_build_timestamp :: u64
  sg_hash :: "u8 list"
  sg_signature :: "u8 list"
  public_key :: "u8 list"

definition zero_key :: "u8 list" where "zero_key = replicate 32 0"

definition signature_default :: CellSignature where
  "signature_default = \<lparr>sg_version = SIGNATURE_VERSION, contains_unsafe = False, uses_framework_only = True, compiler_version = [],
     sg_build_timestamp = 0, sg_hash = zero_key, sg_signature = [], public_key = zero_key\<rparr>"

definition is_well_formed :: "CellSignature \<Rightarrow> bool" where
  "is_well_formed s = (sg_version s = SIGNATURE_VERSION \<and> length (sg_signature s) = ED25519_SIGNATURE_SIZE \<and> public_key s \<noteq> zero_key)"

text \<open>The bytes of \<open>"dev"\<close>.\<close>

definition dev_version :: "u8 list" where "dev_version = [0x64, 0x65, 0x76]"

definition is_dev_signature :: "CellSignature \<Rightarrow> bool" where
  "is_dev_signature s = (compiler_version s = dev_version \<or> sg_signature s = [])"

record SignatureHeader =
  sig_magic :: "u8 list"
  sig_version :: u32
  sig_flags :: u32
  compiler_version_offset :: u32
  compiler_version_len :: u32
  sig_build_timestamp :: u64
  sig_hash :: "u8 list"
  sig_public_key :: "u8 list"
  signature_len :: u32
  sig_reserved :: u32

definition SIG_HEADER_SIZE :: usize where "SIG_HEADER_SIZE = 104"

definition signature_header :: "u8 list \<Rightarrow> SignatureHeader" where
  "signature_header b = \<lparr>sig_magic = take 8 b, sig_version = le_field b 8 4, sig_flags = le_field b 12 4,
     compiler_version_offset = le_field b 16 4, compiler_version_len = le_field b 20 4, sig_build_timestamp = le_field b 24 8,
     sig_hash = take 32 (drop 32 b), sig_public_key = take 32 (drop 64 b), signature_len = le_field b 96 4, sig_reserved = le_field b 100 4\<rparr>"

text \<open>A flag of the header is a bit of the word.\<close>

definition CONTAINS_UNSAFE :: u32 where "CONTAINS_UNSAFE = 2 ^ 0"
definition FRAMEWORK_ONLY :: u32 where "FRAMEWORK_ONLY = 2 ^ 1"

definition has_flag :: "u32 \<Rightarrow> u32 \<Rightarrow> bool" where "has_flag f b = odd (f div b)"

subsection \<open>The libraries\<close>

record 'k crypto =
  sha2_digest :: "u8 list \<Rightarrow> u8 list"
  key_from_bytes :: "u8 list \<Rightarrow> 'k option"
  key_verify :: "'k \<Rightarrow> u8 list \<Rightarrow> u8 list \<Rightarrow> bool"

definition sha256_compute :: "'k crypto \<Rightarrow> u8 list \<Rightarrow> u8 list" where
  "sha256_compute c data = sha2_digest c data"

definition verify_message :: "'k crypto \<Rightarrow> u8 list \<Rightarrow> u8 list \<Rightarrow> u8 list \<Rightarrow> bool" where
  "verify_message c pk message sig = (case key_from_bytes c pk of None \<Rightarrow> False | Some k \<Rightarrow> key_verify c k message sig)"

definition ed25519_verify :: "'k crypto \<Rightarrow> u8 list \<Rightarrow> u8 list \<Rightarrow> u8 list \<Rightarrow> bool" where
  "ed25519_verify c pk message sig = verify_message c pk message sig"

definition is_valid_public_key :: "'k crypto \<Rightarrow> u8 list \<Rightarrow> bool" where
  "is_valid_public_key c pk = (key_from_bytes c pk \<noteq> None)"

subsection \<open>The verifier\<close>

datatype VerificationError = MalformedSignature | UntrustedKey | SignatureInvalid | HashMismatch | VersionMismatch

record VerifierStats =
  verification_attempts :: u64
  successful_verifications :: u64
  failed_verifications :: u64
  dev_mode_bypasses :: u64

record SignatureVerifier =
  trusted_keys :: "u8 list list"
  allow_dev_mode :: bool
  sv_stats :: VerifierStats

definition verifier_stats_default :: VerifierStats where
  "verifier_stats_default =
     \<lparr>verification_attempts = 0, successful_verifications = 0, failed_verifications = 0, dev_mode_bypasses = 0\<rparr>"

definition verifier_new :: "bool \<Rightarrow> SignatureVerifier" where
  "verifier_new require_signatures = \<lparr>trusted_keys = [], allow_dev_mode = (\<not> require_signatures), sv_stats = verifier_stats_default\<rparr>"

definition verifier_production :: SignatureVerifier where
  "verifier_production = \<lparr>trusted_keys = [], allow_dev_mode = False, sv_stats = verifier_stats_default\<rparr>"

definition add_trusted_key :: "u8 list \<Rightarrow> SignatureVerifier \<Rightarrow> SignatureVerifier" where
  "add_trusted_key key v = (if key \<notin> set (trusted_keys v) then v\<lparr>trusted_keys := trusted_keys v @ [key]\<rparr> else v)"

definition set_dev_mode :: "bool \<Rightarrow> SignatureVerifier \<Rightarrow> SignatureVerifier" where
  "set_dev_mode allow v = v\<lparr>allow_dev_mode := allow\<rparr>"

definition is_trusted_key :: "SignatureVerifier \<Rightarrow> u8 list \<Rightarrow> bool" where
  "is_trusted_key v key = (key \<in> set (trusted_keys v))"

definition verify_ed25519 :: "'k crypto \<Rightarrow> u8 list \<Rightarrow> u8 list \<Rightarrow> u8 list \<Rightarrow> bool" where
  "verify_ed25519 c pk message sig =
     (if length sig \<noteq> ED25519_SIGNATURE_SIZE then False
      else if list_all (\<lambda>b. b = 0) pk then False
      else if list_all (\<lambda>b. b = 0) message then False
      else ed25519_verify c pk message sig)"

definition count_attempt :: "SignatureVerifier \<Rightarrow> SignatureVerifier" where
  "count_attempt v = v\<lparr>sv_stats := (sv_stats v)\<lparr>verification_attempts := wadd64 (verification_attempts (sv_stats v)) 1\<rparr>\<rparr>"

definition count_failed :: "SignatureVerifier \<Rightarrow> SignatureVerifier" where
  "count_failed v = v\<lparr>sv_stats := (sv_stats v)\<lparr>failed_verifications := wadd64 (failed_verifications (sv_stats v)) 1\<rparr>\<rparr>"

definition count_success :: "SignatureVerifier \<Rightarrow> SignatureVerifier" where
  "count_success v = v\<lparr>sv_stats := (sv_stats v)\<lparr>successful_verifications := wadd64 (successful_verifications (sv_stats v)) 1\<rparr>\<rparr>"

definition count_bypass :: "SignatureVerifier \<Rightarrow> SignatureVerifier" where
  "count_bypass v = v\<lparr>sv_stats := (sv_stats v)\<lparr>dev_mode_bypasses := wadd64 (dev_mode_bypasses (sv_stats v)) 1\<rparr>\<rparr>"

definition verify :: "'k crypto \<Rightarrow> SignatureVerifier \<Rightarrow> CellSignature \<Rightarrow> u8 list \<Rightarrow> SignatureVerifier \<times> (VerificationError + unit)" where
  "verify c v0 sig data =
     (let v = count_attempt v0
      in if allow_dev_mode v \<and> is_dev_signature sig then (count_success (count_bypass v), Inr ())
         else if \<not> is_well_formed sig then (count_failed v, Inl MalformedSignature)
         else if trusted_keys v \<noteq> [] \<and> \<not> is_trusted_key v (public_key sig) then (count_failed v, Inl UntrustedKey)
         else if sha256_compute c data \<noteq> sg_hash sig then (count_failed v, Inl HashMismatch)
         else if \<not> verify_ed25519 c (public_key sig) (sg_hash sig) (sg_signature sig) then (count_failed v, Inl SignatureInvalid)
         else (count_success v, Inr ()))"

subsection \<open>Extraction\<close>

text \<open>The loop over the sections: the first one with the name and with its end inside the file.\<close>

fun scan_sections :: "u8 list \<Rightarrow> Elf64Header \<Rightarrow> u8 list \<Rightarrow> nat list \<Rightarrow> (u8 list option) load_result" where
  "scan_sections data h shstrtab [] = Some (Inr None)"
| "scan_sections data h shstrtab (i # is) =
     (let off = wadd64 (e_shoff h) (i * e_shentsize h)
      in if length data < wadd64 off SHDR_SIZE then scan_sections data h shstrtab is
         else load_bind (read_raw elf_section_header SHDR_SIZE data off) (\<lambda>sh.
           if length shstrtab \<le> sh_name sh then scan_sections data h shstrtab is
           else if takeWhile (\<lambda>b. b \<noteq> 0) (drop (sh_name sh) shstrtab) = SIGNATURE_SECTION_NAME \<and>
                   wadd64 (sh_offset sh) (sh_size sh) \<le> length data
           then load_bind (slice_range data (sh_offset sh) (wadd64 (sh_offset sh) (sh_size sh))) (\<lambda>b. Some (Inr (Some b)))
           else scan_sections data h shstrtab is))"

definition find_signature_section :: "u8 list \<Rightarrow> (u8 list option) load_result" where
  "find_signature_section data =
     (if length data < EHDR_SIZE then Some (Inr None)
      else load_bind (read_raw elf_header EHDR_SIZE data 0) (\<lambda>h.
        if take 4 (e_ident h) \<noteq> ELF_MAGIC then Some (Inr None)
        else let off = wadd64 (e_shoff h) (e_shstrndx h * e_shentsize h)
             in if length data < wadd64 off SHDR_SIZE then Some (Inr None)
                else load_bind (read_raw elf_section_header SHDR_SIZE data off) (\<lambda>sh.
                  let start = sh_offset sh; stop = wadd64 start (sh_size sh)
                  in if length data < stop then Some (Inr None)
                     else load_bind (slice_range data start stop) (\<lambda>shstrtab.
                       scan_sections data h shstrtab [0..<e_shnum h]))))"

definition parse_signature_section :: "u8 list \<Rightarrow> CellSignature load_result" where
  "parse_signature_section data =
     (if length data < SIG_HEADER_SIZE then Some (Inl (InvalidFormat ''Signature section too small''))
      else load_bind (read_raw signature_header SIG_HEADER_SIZE data 0) (\<lambda>h.
        if sig_magic h \<noteq> SIGNATURE_MAGIC then Some (Inl InvalidSignature)
        else if sig_version h \<noteq> SIGNATURE_VERSION then Some (Inl (InvalidFormat ''Unsupported signature version''))
        else load_bind
          (if 0 < compiler_version_len h then
             (let start = compiler_version_offset h; stop = wadd64 start (compiler_version_len h)
              in if length data < stop then Some (Inl (InvalidFormat ''Invalid compiler version offset''))
                 else load_bind (slice_range data start stop) (\<lambda>b.
                   if utf8_ok b then Some (Inr b) else Some (Inl (InvalidFormat ''Invalid UTF-8 in compiler version''))))
           else Some (Inr []))
          (\<lambda>version.
            let sig_end = wadd64 SIG_HEADER_SIZE (signature_len h)
            in if length data < sig_end then Some (Inl (InvalidFormat ''Invalid signature data''))
               else load_bind (slice_range data SIG_HEADER_SIZE sig_end) (\<lambda>sg.
                 Some (Inr \<lparr>sg_version = sig_version h, contains_unsafe = has_flag (sig_flags h) CONTAINS_UNSAFE,
                   uses_framework_only = has_flag (sig_flags h) FRAMEWORK_ONLY, compiler_version = version,
                   sg_build_timestamp = sig_build_timestamp h, sg_hash = sig_hash h, sg_signature = sg, public_key = sig_public_key h\<rparr>)))))"

definition extract_signature :: "bool \<Rightarrow> u8 list \<Rightarrow> CellSignature load_result" where
  "extract_signature require_signatures data =
     (if length data < 64 then Some (Inl (InvalidFormat ''ELF too small''))
      else load_bind (find_signature_section data) (\<lambda>found.
        case found of
          Some b \<Rightarrow> parse_signature_section b
        | None \<Rightarrow> (if require_signatures then Some (Inl InvalidSignature)
                   else Some (Inr \<lparr>sg_version = SIGNATURE_VERSION, contains_unsafe = False, uses_framework_only = True,
                     compiler_version = dev_version, sg_build_timestamp = 0, sg_hash = zero_key, sg_signature = [], public_key = zero_key\<rparr>))))"

subsection \<open>The global verifier\<close>

definition init_verifier :: "bool \<Rightarrow> SignatureVerifier option \<Rightarrow> SignatureVerifier option" where
  "init_verifier require_signatures g = (if g = None then Some (verifier_new require_signatures) else g)"

definition init_verifier_production :: "SignatureVerifier option \<Rightarrow> SignatureVerifier option" where
  "init_verifier_production g = Some verifier_production"

definition global_add_trusted_key :: "u8 list \<Rightarrow> SignatureVerifier option \<Rightarrow> SignatureVerifier option" where
  "global_add_trusted_key key g = map_option (add_trusted_key key) g"

definition verify_signature ::
  "bool \<Rightarrow> 'k crypto \<Rightarrow> SignatureVerifier option \<Rightarrow> CellSignature \<Rightarrow> u8 list \<Rightarrow> SignatureVerifier option \<times> bool" where
  "verify_signature require_signatures c g sig data =
     (let v = (case g of None \<Rightarrow> verifier_new require_signatures | Some v \<Rightarrow> v)
      in case verify c v sig data of (v', r) \<Rightarrow> (Some v', case r of Inl e \<Rightarrow> False | Inr u \<Rightarrow> True))"

definition verify_cell ::
  "bool \<Rightarrow> 'k crypto \<Rightarrow> SignatureVerifier option \<Rightarrow> u8 list \<Rightarrow> (SignatureVerifier option \<times> (LoadError + bool)) option" where
  "verify_cell require_signatures c g data =
     (case extract_signature require_signatures data of
        None \<Rightarrow> None
      | Some (Inl e) \<Rightarrow> Some (g, Inl e)
      | Some (Inr sig) \<Rightarrow> (case verify_signature require_signatures c g sig data of (g', b) \<Rightarrow> Some (g', Inr b)))"

definition get_verifier_stats :: "SignatureVerifier option \<Rightarrow> VerifierStats option" where
  "get_verifier_stats g = map_option sv_stats g"

subsection \<open>What the verifier accepts\<close>

lemma count_simps [simp]:
  "trusted_keys (count_attempt v) = trusted_keys v" "allow_dev_mode (count_attempt v) = allow_dev_mode v"
  "trusted_keys (count_failed v) = trusted_keys v" "allow_dev_mode (count_failed v) = allow_dev_mode v"
  "trusted_keys (count_success v) = trusted_keys v" "allow_dev_mode (count_success v) = allow_dev_mode v"
  "trusted_keys (count_bypass v) = trusted_keys v" "allow_dev_mode (count_bypass v) = allow_dev_mode v"
  by (simp_all add: count_attempt_def count_failed_def count_success_def count_bypass_def)

lemma verify_keeps_policy:
  "trusted_keys (fst (verify c v sig data)) = trusted_keys v \<and> allow_dev_mode (fst (verify c v sig data)) = allow_dev_mode v"
  by (simp add: verify_def Let_def)

text \<open>A signature the verifier vouches for: the key is among the trusted ones, the hash is the hash of the file and the key signed it.\<close>

definition vouched :: "'k crypto \<Rightarrow> u8 list list \<Rightarrow> CellSignature \<Rightarrow> u8 list \<Rightarrow> bool" where
  "vouched c keys sig data =
     (public_key sig \<in> set keys \<and> length (sg_signature sig) = 64 \<and> sg_hash sig = sha2_digest c data \<and>
      (\<exists>k. key_from_bytes c (public_key sig) = Some k \<and> key_verify c k (sha2_digest c data) (sg_signature sig)))"

lemma verify_vouched:
  assumes "\<not> allow_dev_mode v" and "trusted_keys v \<noteq> []" and "snd (verify c v sig data) = Inr u"
  shows "vouched c (trusted_keys v) sig data"
  using assms
  by (auto simp: verify_def Let_def vouched_def is_trusted_key_def is_well_formed_def sha256_compute_def verify_ed25519_def
      ed25519_verify_def verify_message_def ED25519_SIGNATURE_SIZE_def split: if_splits option.splits)

text \<open>With no trusted key at all the check of the key is skipped: any key the caller brings will do.\<close>

lemma empty_trust_accepts_any_key:
  assumes "trusted_keys v = []" and "is_well_formed sig" and "sg_hash sig = sha2_digest c data"
    and "verify_ed25519 c (public_key sig) (sg_hash sig) (sg_signature sig)"
  shows "snd (verify c v sig data) = Inr ()"
  using assms by (simp add: verify_def Let_def sha256_compute_def)

text \<open>Every attempt is counted once more, as a success or as a failure.\<close>

definition counts_balance :: "SignatureVerifier \<Rightarrow> bool" where
  "counts_balance v = (verification_attempts (sv_stats v) =
     wadd64 (successful_verifications (sv_stats v)) (failed_verifications (sv_stats v)))"

lemma wadd64_Suc0:
  "wadd64 (wadd64 a (Suc 0)) b = wadd64 (wadd64 a b) (Suc 0)" "wadd64 a (wadd64 b (Suc 0)) = wadd64 (wadd64 a b) (Suc 0)"
  by (simp_all add: wadd64_def mod_simps)

lemma verify_counts: "counts_balance v \<Longrightarrow> counts_balance (fst (verify c v sig data))"
  by (simp add: verify_def Let_def counts_balance_def count_attempt_def count_failed_def count_success_def count_bypass_def
      wadd64_Suc0)

subsection \<open>Files without a signature\<close>

definition unsigned_signature :: CellSignature where
  "unsigned_signature = signature_default\<lparr>compiler_version := dev_version\<rparr>"

lemma extract_unsigned:
  assumes "find_signature_section data = Some (Inr None)" and "64 \<le> length data"
  shows "extract_signature require_signatures data = (if require_signatures then Some (Inl InvalidSignature) else Some (Inr unsigned_signature))"
  using assms by (simp add: extract_signature_def unsigned_signature_def signature_default_def)

lemma unsigned_verifies: "allow_dev_mode v \<Longrightarrow> snd (verify c v unsigned_signature data) = Inr ()"
  by (simp add: verify_def Let_def is_dev_signature_def unsigned_signature_def signature_default_def)

text \<open>With the verifier of the build without \<open>require_signatures\<close>, still unset or set by \<open>init_verifier\<close>.\<close>

lemma unsigned_accepted:
  assumes "case g of None \<Rightarrow> True | Some v \<Rightarrow> allow_dev_mode v"
  shows "snd (verify_signature False c g unsigned_signature data)"
proof -
  define v where "v = (case g of None \<Rightarrow> verifier_new False | Some v \<Rightarrow> v)"
  have "allow_dev_mode v" using assms by (cases g) (simp_all add: v_def verifier_new_def)
  then have "snd (verify c v unsigned_signature data) = Inr ()" by (rule unsigned_verifies)
  then show ?thesis by (auto simp: verify_signature_def v_def [symmetric] split: prod.split)
qed

lemma verify_signature_vouched:
  assumes "\<not> allow_dev_mode v" and "trusted_keys v \<noteq> []" and "verify_signature rs c (Some v) sig data = (g, True)"
  shows "vouched c (trusted_keys v) sig data"
proof -
  obtain v' r where r: "verify c v sig data = (v', r)" by (cases "verify c v sig data")
  with assms(3) obtain u where "r = Inr u" by (auto simp: verify_signature_def split: sum.splits)
  with r verify_vouched [OF assms(1,2), of c sig data u] show ?thesis by simp
qed

end
