(* ===== verification/CellLoader.thy ===== *)
theory CellLoader
  imports CellSig BTreeMap "HOL-Library.List_Lexorder"
begin

text \<open>
  The registry of cells and the loading of a cell (\<open>src/src/loader/mod.rs\<close>). Names are their UTF-8 bytes, ordered as \<open>String\<close> is.
  Loading threads the global verifier, the registry and memory; a load that ends in an error leaves
  the registry as it was and says nothing of memory, where an allocation may be left behind.
\<close>

subsection \<open>Cells and the registry\<close>

datatype CellState = CellPending | CellLoading | CellLoaded | CellRunning | CellStopped | CellError

type_synonym CellId = nat

record CellEntry =
  ce_id :: CellId
  ce_name :: "u8 list"
  ce_state :: CellState
  load_address :: usize
  load_size :: usize
  ce_entry_point :: "usize option"
  ce_exports :: "u8 list list"
  ce_imports :: "u8 list list"
  ce_dependencies :: "CellId list"
  is_safe :: bool
  signature_verified :: bool

record CellRegistry =
  cr_cells :: "(CellId, CellEntry) btree"
  symbol_table :: "(u8 list, usize) btree"
  cr_next_id :: u64

definition registry_new :: CellRegistry where
  "registry_new = \<lparr>cr_cells = [], symbol_table = [], cr_next_id = 1\<rparr>"

definition registry_allocate_id :: "CellRegistry \<Rightarrow> CellRegistry \<times> CellId" where
  "registry_allocate_id r = (r\<lparr>cr_next_id := wadd64 (cr_next_id r) 1\<rparr>, cr_next_id r)"

definition cell_register :: "CellEntry \<Rightarrow> CellRegistry \<Rightarrow> CellRegistry" where
  "cell_register e r =
     r\<lparr>cr_cells := bt_insert (ce_id e) e (cr_cells r),
       symbol_table := foldl (\<lambda>t s. bt_insert s (load_address e) t) (symbol_table r) (ce_exports e)\<rparr>"

definition cell_get :: "CellRegistry \<Rightarrow> CellId \<Rightarrow> CellEntry option" where
  "cell_get r i = bt_get (cr_cells r) i"

definition cell_get_mut :: "CellId \<Rightarrow> (CellEntry \<Rightarrow> CellEntry) \<Rightarrow> CellRegistry \<Rightarrow> CellRegistry" where
  "cell_get_mut i f r = r\<lparr>cr_cells := bt_modify i f (cr_cells r)\<rparr>"

definition resolve_symbol :: "CellRegistry \<Rightarrow> u8 list \<Rightarrow> usize option" where
  "resolve_symbol r s = bt_get (symbol_table r) s"

definition cell_unload :: "CellId \<Rightarrow> CellRegistry \<Rightarrow> CellRegistry \<times> CellEntry option" where
  "cell_unload i r =
     (case bt_get (cr_cells r) i of
        Some e \<Rightarrow> (r\<lparr>cr_cells := bt_remove i (cr_cells r),
                      symbol_table := foldl (\<lambda>t s. bt_remove s t) (symbol_table r) (ce_exports e)\<rparr>, Some e)
      | None \<Rightarrow> (r, None))"

definition find_by_name :: "CellRegistry \<Rightarrow> u8 list \<Rightarrow> CellEntry option" where
  "find_by_name r name = find (\<lambda>e. ce_name e = name) (map snd (cr_cells r))"

definition all_cells :: "CellRegistry \<Rightarrow> CellEntry list" where
  "all_cells r = map snd (cr_cells r)"

definition cells_by_state :: "CellRegistry \<Rightarrow> CellState \<Rightarrow> CellEntry list" where
  "cells_by_state r st = filter (\<lambda>e. ce_state e = st) (map snd (cr_cells r))"

subsection \<open>Loading and unloading\<close>

definition ascii :: "string \<Rightarrow> u8 list" where
  "ascii s = map of_char s"

definition check_imports :: "CellRegistry \<Rightarrow> u8 list list \<Rightarrow> unit load_result" where
  "check_imports r names =
     (case find (\<lambda>i. resolve_symbol r i = None) names of Some i \<Rightarrow> Some (Inl (UnresolvedDependency i)) | None \<Rightarrow> Some (Inr ()))"

text \<open>The entry made for a loaded cell, and the last step, registration under a new identifier.\<close>

definition loaded_entry :: "CellId \<Rightarrow> u8 list \<Rightarrow> CellSignature \<Rightarrow> CellInfo \<Rightarrow> LoadedCell \<Rightarrow> CellEntry" where
  "loaded_entry i name sig info loaded =
     \<lparr>ce_id = i, ce_name = name, ce_state = CellLoaded, load_address = base_address loaded, load_size = lc_size loaded,
      ce_entry_point = lc_entry_point loaded, ce_exports = ci_exports info, ce_imports = ci_imports info, ce_dependencies = [],
      is_safe = (\<not> contains_unsafe sig), signature_verified = True\<rparr>"

definition register_loaded :: "u8 list \<Rightarrow> CellSignature \<Rightarrow> CellInfo \<Rightarrow> LoadedCell \<Rightarrow> CellRegistry \<Rightarrow> CellRegistry \<times> CellId" where
  "register_loaded name sig info loaded r =
     (case registry_allocate_id r of (r', i) \<Rightarrow> (cell_register (loaded_entry i name sig info loaded) r', i))"

text \<open>The steps of \<open>load_cell\<close> after the signature.\<close>

definition load_verified ::
  "(usize \<Rightarrow> usize option) \<Rightarrow> u8 list \<Rightarrow> u8 list \<Rightarrow> CellSignature \<Rightarrow> CellRegistry \<Rightarrow> memory \<Rightarrow> (CellRegistry \<times> memory \<times> CellId) load_result" where
  "load_verified alloc name data sig r m =
     load_bind (elf_new data) (\<lambda>l.
       load_bind (elf_parse l) (\<lambda>info.
         load_bind (check_imports r (ci_imports info)) (\<lambda>u.
           load_bind (elf_load alloc l info m) (\<lambda>(m1, loaded).
             load_bind (relocate l loaded (resolve_symbol r) m1) (\<lambda>m2.
               case register_loaded name sig info loaded r of (r', i) \<Rightarrow> Some (Inr (r', m2, i)))))))"

definition load_cell ::
  "bool \<Rightarrow> 'k crypto \<Rightarrow> (usize \<Rightarrow> usize option) \<Rightarrow> u8 list \<Rightarrow> u8 list \<Rightarrow> bool \<Rightarrow> SignatureVerifier option \<Rightarrow> CellRegistry \<Rightarrow> memory \<Rightarrow>
     (SignatureVerifier option \<times> (LoadError + CellRegistry \<times> memory \<times> CellId)) option" where
  "load_cell require_signatures c alloc name data allow_unsafe g r m =
     (case extract_signature require_signatures data of
        None \<Rightarrow> None
      | Some (Inl e) \<Rightarrow> Some (g, Inl e)
      | Some (Inr sig) \<Rightarrow>
          (case verify_signature require_signatures c g sig data of (g', ok) \<Rightarrow>
             if \<not> ok then Some (g', Inl InvalidSignature)
             else if \<not> allow_unsafe \<and> contains_unsafe sig then Some (g', Inl UnsafeNotAllowed)
             else map_option (\<lambda>res. (g', res)) (load_verified alloc name data sig r m)))"

definition unload_cell :: "CellId \<Rightarrow> CellRegistry \<Rightarrow> CellRegistry \<times> (LoadError + unit)" where
  "unload_cell i r =
     (if list_ex (\<lambda>e. i \<in> set (ce_dependencies e)) (all_cells r)
      then (r, Inl (UnresolvedDependency (ascii ''Cell has active dependents'')))
      else (fst (cell_unload i r), Inr ()))"

definition kernel_entry :: CellEntry where
  "kernel_entry = \<lparr>ce_id = 0, ce_name = ascii ''kernel'', ce_state = CellRunning, load_address = 0, load_size = 0, ce_entry_point = None,
     ce_exports = [], ce_imports = [], ce_dependencies = [], is_safe = False, signature_verified = True\<rparr>"

definition init_kernel_cell :: "CellRegistry \<Rightarrow> CellRegistry" where
  "init_kernel_cell r = cell_register kernel_entry r"

subsection \<open>The symbol table\<close>

lemma wf_insert_fold: "bt_wf t \<Longrightarrow> bt_wf (foldl (\<lambda>t s. bt_insert s a t) t ss)"
  by (induction ss arbitrary: t) (auto simp: wf_insert)

lemma wf_remove_fold: "bt_wf t \<Longrightarrow> bt_wf (foldl (\<lambda>t s. bt_remove s t) t ss)"
  by (induction ss arbitrary: t) (auto simp: wf_remove)

lemma insert_fold: "bt_wf t \<Longrightarrow> bt_get (foldl (\<lambda>t s. bt_insert s a t) t ss) s = (if s \<in> set ss then Some a else bt_get t s)"
  by (induction ss arbitrary: t) (auto simp: wf_insert)

lemma remove_fold: "bt_wf t \<Longrightarrow> bt_get (foldl (\<lambda>t s. bt_remove s t) t ss) s = (if s \<in> set ss then None else bt_get t s)"
  by (induction ss arbitrary: t) (auto simp: wf_remove)

definition registry_wf :: "CellRegistry \<Rightarrow> bool" where
  "registry_wf r = (bt_wf (cr_cells r) \<and> bt_wf (symbol_table r))"

lemma registry_wf_ops [inv_intros]:
  "registry_wf registry_new" "registry_wf r \<Longrightarrow> registry_wf (cell_register e r)" "registry_wf r \<Longrightarrow> registry_wf (fst (cell_unload i r))"
  "registry_wf r \<Longrightarrow> registry_wf (cell_get_mut i f r)" "registry_wf r \<Longrightarrow> registry_wf (fst (registry_allocate_id r))"
  by (auto simp: registry_wf_def registry_new_def cell_register_def cell_unload_def cell_get_mut_def registry_allocate_id_def
      wf_insert wf_remove wf_modify wf_insert_fold wf_remove_fold split: option.split)

lemma cell_get_register: "registry_wf r \<Longrightarrow> cell_get (cell_register e r) j = (if j = ce_id e then Some e else cell_get r j)"
  by (simp add: registry_wf_def cell_get_def cell_register_def)

lemma resolve_register:
  "registry_wf r \<Longrightarrow> resolve_symbol (cell_register e r) s = (if s \<in> set (ce_exports e) then Some (load_address e) else resolve_symbol r s)"
  by (simp add: registry_wf_def resolve_symbol_def cell_register_def insert_fold)

lemma cell_get_unload: "registry_wf r \<Longrightarrow> cell_get (fst (cell_unload i r)) j = (if j = i then None else cell_get r j)"
  by (auto simp: registry_wf_def cell_get_def cell_unload_def split: option.split)

lemma resolve_unload:
  assumes "registry_wf r" and "cell_get r i = Some e"
  shows "resolve_symbol (fst (cell_unload i r)) s = (if s \<in> set (ce_exports e) then None else resolve_symbol r s)"
  using assms by (simp add: registry_wf_def cell_get_def cell_unload_def resolve_symbol_def remove_fold)

text \<open>Two ordered maps with the same entries are the same list.\<close>

lemma bt_ext: "bt_wf s \<Longrightarrow> bt_wf t \<Longrightarrow> map_of s = map_of t \<Longrightarrow> s = t"
proof -
  assume wf: "bt_wf s" "bt_wf t" and eq: "map_of s = map_of t"
  have "set s = set t" using bt_mem_iff [OF wf(1)] bt_mem_iff [OF wf(2)] eq by auto
  moreover have "inj_on fst (set t)" using bt_wf_distinct [OF wf(2)] by (simp add: distinct_map)
  moreover have "sorted (map fst s) \<and> distinct (map fst s)" "sorted (map fst t) \<and> distinct (map fst t)"
    using wf by (simp_all add: bt_wf_def strict_sorted_iff)
  ultimately show "s = t" by (intro map_sorted_distinct_set_unique [of fst]) auto
qed

subsection \<open>A successful load\<close>

lemma load_verified_ok:
  assumes "load_verified alloc name data sig r m = Some (Inr (r', m', i))"
  obtains info loaded where "i = cr_next_id r" and "\<forall>s\<in>set (ci_imports info). resolve_symbol r s \<noteq> None"
    and "r' = cell_register (loaded_entry i name sig info loaded) (fst (registry_allocate_id r))"
  using assms
  by (auto simp: load_verified_def load_bind_Ok check_imports_def register_loaded_def registry_allocate_id_def find_None_iff
      split: option.splits prod.splits)

lemma load_cell_ok:
  assumes "load_cell rs c alloc name data allow_unsafe g r m = Some (g', Inr (r', m', i))"
  obtains sig where "extract_signature rs data = Some (Inr sig)" and "verify_signature rs c g sig data = (g', True)"
    and "contains_unsafe sig \<longrightarrow> allow_unsafe" and "load_verified alloc name data sig r m = Some (Inr (r', m', i))"
  using assms by (auto simp: load_cell_def split: option.splits sum.splits prod.splits if_splits)

lemma load_cell_entry:
  assumes "registry_wf r" and "load_verified alloc name data sig r m = Some (Inr (r', m', i))"
  obtains e where "cell_get r' i = Some e" and "i = cr_next_id r" and "is_safe e = (\<not> contains_unsafe sig)" and "signature_verified e"
    and "ce_dependencies e = []" and "\<forall>s\<in>set (ce_imports e). resolve_symbol r s \<noteq> None"
    and "\<forall>j. j \<noteq> i \<longrightarrow> cell_get r' j = cell_get r j" and "registry_wf r'"
proof -
  obtain info loaded where r: "i = cr_next_id r" "\<forall>s\<in>set (ci_imports info). resolve_symbol r s \<noteq> None"
    "r' = cell_register (loaded_entry i name sig info loaded) (fst (registry_allocate_id r))"
    using load_verified_ok [OF assms(2)] by blast
  have wf: "registry_wf (fst (registry_allocate_id r))" using assms(1) by (rule registry_wf_ops)
  have same: "cell_get (fst (registry_allocate_id r)) = cell_get r" by (auto simp: cell_get_def registry_allocate_id_def)
  show thesis
    by (rule that [of "loaded_entry i name sig info loaded"])
      (use r(1,2) same in \<open>auto simp: r(3) cell_get_register [OF wf] registry_wf_ops(2) [OF wf] loaded_entry_def\<close>)
qed

text \<open>The registries that loading, unloading and the start of the kernel produce.\<close>

inductive registry_reachable :: "bool \<Rightarrow> 'k crypto \<Rightarrow> (usize \<Rightarrow> usize option) \<Rightarrow> CellRegistry \<Rightarrow> bool" for rs c alloc where
  reg_start: "registry_reachable rs c alloc registry_new"
| reg_kernel: "registry_reachable rs c alloc r \<Longrightarrow> registry_reachable rs c alloc (init_kernel_cell r)"
| reg_load: "registry_reachable rs c alloc r \<Longrightarrow> load_cell rs c alloc name data allow_unsafe g r m = Some (g', Inr (r', m', i)) \<Longrightarrow>
    registry_reachable rs c alloc r'"
| reg_unload: "registry_reachable rs c alloc r \<Longrightarrow> registry_reachable rs c alloc (fst (unload_cell i r))"

definition no_dependencies :: "CellRegistry \<Rightarrow> bool" where
  "no_dependencies r = (registry_wf r \<and> (\<forall>j e. cell_get r j = Some e \<longrightarrow> ce_dependencies e = []))"

lemma no_dependencies_load:
  assumes "no_dependencies r" and "load_cell rs c alloc name data allow_unsafe g r m = Some (g', Inr (r', m', i))"
  shows "no_dependencies r'"
proof -
  from assms(2) obtain sig where "load_verified alloc name data sig r m = Some (Inr (r', m', i))" by (rule load_cell_ok)
  from load_cell_entry [OF _ this] assms(1) obtain e where e: "cell_get r' i = Some e" "ce_dependencies e = []"
    "\<forall>j. j \<noteq> i \<longrightarrow> cell_get r' j = cell_get r j" "registry_wf r'" unfolding no_dependencies_def by blast
  have "ce_dependencies f = []" if "cell_get r' j = Some f" for j f
    using that e(1-3) assms(1) by (cases "j = i") (auto simp: no_dependencies_def)
  with e(4) show ?thesis by (simp add: no_dependencies_def)
qed

lemma unload_accepts:
  assumes "no_dependencies r"
  shows "unload_cell i r = (fst (cell_unload i r), Inr ())"
proof -
  have "ce_dependencies e = []" if "e \<in> set (all_cells r)" for e
    using that assms bt_mem_iff [of "cr_cells r"] by (auto simp: all_cells_def no_dependencies_def cell_get_def registry_wf_def)
  then show ?thesis by (auto simp: unload_cell_def list_ex_iff)
qed

lemma reachable_no_dependencies: "registry_reachable rs c alloc r \<Longrightarrow> no_dependencies r"
proof (induction rule: registry_reachable.induct)
  case reg_start
  show ?case by (simp add: no_dependencies_def registry_wf_ops) (simp add: cell_get_def registry_new_def)
next
  case (reg_kernel r)
  then show ?case
    by (auto simp: no_dependencies_def init_kernel_cell_def registry_wf_ops cell_get_register kernel_entry_def split: if_splits)
next
  case (reg_load r name data allow_unsafe g m g' r' m' i)
  show ?case by (rule no_dependencies_load [OF reg_load.IH reg_load.hyps(2)])
next
  case (reg_unload r i)
  then show ?case
    by (auto simp: unload_accepts) (auto simp: no_dependencies_def registry_wf_ops cell_get_unload split: if_splits)
qed

subsection \<open>A signed file\<close>

text \<open>A file of 446 bytes: the header, one program header, six bytes of code, the section with the signature, the names of the sections and two section headers.\<close>

definition section_bytes :: "nat \<Rightarrow> nat \<Rightarrow> nat \<Rightarrow> u8 list" where
  "section_bytes nm off sz = to_le 4 nm @ to_le 4 1 @ to_le 8 0 @ to_le 8 0 @ to_le 8 off @ to_le 8 sz @ to_le 4 0 @ to_le 4 0 @ to_le 8 1 @ to_le 8 0"

definition signature_bytes :: "u8 list" where
  "signature_bytes = SIGNATURE_MAGIC @ to_le 4 1 @ to_le 4 2 @ to_le 4 0 @ to_le 4 0 @ to_le 8 0 @ replicate 32 1 @ replicate 32 7 @ to_le 4 64
     @ to_le 4 0 @ replicate 64 9"

definition name_bytes :: "u8 list" where
  "name_bytes = 0 # SIGNATURE_SECTION_NAME @ 0 # replicate 10 0"

definition code_bytes :: "u8 list" where
  "code_bytes = [0xB8, 0x2A, 0, 0, 0, 0xC3]"

definition ident_bytes :: "u8 list" where
  "ident_bytes = ELF_MAGIC @ [2, 1, 1] @ replicate 9 0"

definition signed_elf :: "u8 list" where
  "signed_elf =
     ident_bytes @ to_le 2 3 @ to_le 2 0x3E @ to_le 4 1 @ to_le 8 0 @ to_le 8 64 @ to_le 8 318 @ to_le 4 0
       @ to_le 2 64 @ to_le 2 56 @ to_le 2 1 @ to_le 2 64 @ to_le 2 2 @ to_le 2 1
     @ to_le 4 1 @ to_le 4 5 @ to_le 8 120 @ to_le 8 0 @ to_le 8 0 @ to_le 8 6 @ to_le 8 8 @ to_le 8 4096
     @ code_bytes @ signature_bytes @ name_bytes @ section_bytes 1 126 168 @ section_bytes 14 294 24"

lemma piece_lengths [simp]:
  "length ident_bytes = 16" "length code_bytes = 6" "length signature_bytes = 168" "length name_bytes = 24" "length (section_bytes nm off sz) = 64"
  "length signed_elf = 446"
proof -
  show parts: "length ident_bytes = 16" "length code_bytes = 6" "length signature_bytes = 168" "length name_bytes = 24"
    "length (section_bytes nm off sz) = 64" for nm off sz
    by (simp_all add: ident_bytes_def code_bytes_def signature_bytes_def name_bytes_def section_bytes_def ELF_MAGIC_def SIGNATURE_MAGIC_def
        SIGNATURE_SECTION_NAME_def)
  show "length signed_elf = 446" by (simp add: signed_elf_def parts)
qed

text \<open>Libraries for the examples: the hash is constant and the key 7 has signed everything.\<close>

definition toy_crypto :: "u8 list crypto" where
  "toy_crypto = \<lparr>sha2_digest = (\<lambda>_. replicate 32 1), key_from_bytes = Some, key_verify = (\<lambda>k _ _. k = replicate 32 7)\<rparr>"

definition toy_verifier :: SignatureVerifier where
  "toy_verifier = add_trusted_key (replicate 32 7) verifier_production"

definition signed_signature :: CellSignature where
  "signed_signature = \<lparr>sg_version = 1, contains_unsafe = False, uses_framework_only = True, compiler_version = [], sg_build_timestamp = 0,
     sg_hash = replicate 32 1, sg_signature = replicate 64 9, public_key = replicate 32 7\<rparr>"

definition signed_header :: Elf64Header where
  "signed_header = \<lparr>e_ident = ident_bytes, e_type = 3, e_machine = 0x3E, e_version = 1, e_entry = 0, e_phoff = 64, e_shoff = 318, e_flags = 0,
     e_ehsize = 64, e_phentsize = 56, e_phnum = 1, e_shentsize = 64, e_shnum = 2, e_shstrndx = 1\<rparr>"

definition signed_loader :: ElfLoader where
  "signed_loader = \<lparr>el_data = signed_elf, el_header = signed_header\<rparr>"

lemma signed_elf_header: "elf_header signed_elf = signed_header"
  by (simp add: elf_header_def signed_elf_def signed_header_def le_field_simps)

lemma signed_program: "elf_program_header (drop 64 signed_elf)
  = \<lparr>p_type = 1, p_flags = 5, p_offset = 120, p_vaddr = 0, p_paddr = 0, p_filesz = 6, p_memsz = 8, p_align = 4096\<rparr>"
  by (simp add: elf_program_header_def signed_elf_def le_field_simps)

lemma signed_section:
  "elf_section_header (drop 318 signed_elf) = \<lparr>sh_name = 1, sh_type = 1, sh_flags = 0, sh_addr = 0, sh_offset = 126, sh_size = 168, sh_link = 0,
     sh_info = 0, sh_addralign = 1, sh_entsize = 0\<rparr>"
  "elf_section_header (drop 382 signed_elf) = \<lparr>sh_name = 14, sh_type = 1, sh_flags = 0, sh_addr = 0, sh_offset = 294, sh_size = 24, sh_link = 0,
     sh_info = 0, sh_addralign = 1, sh_entsize = 0\<rparr>"
  by (simp_all add: elf_section_header_def signed_elf_def section_bytes_def le_field_simps)

lemma signed_slices: "take 168 (drop 126 signed_elf) = signature_bytes" "take 24 (drop 294 signed_elf) = name_bytes"
  by (simp_all add: signed_elf_def)

lemma upt_0_2: "[0..<2] = [0, 1]"
  by (simp add: upt_rec)

lemma signed_signature_header: "signature_header signature_bytes
  = \<lparr>sig_magic = SIGNATURE_MAGIC, sig_version = 1, sig_flags = 2, compiler_version_offset = 0, compiler_version_len = 0, sig_build_timestamp = 0,
     sig_hash = replicate 32 1, sig_public_key = replicate 32 7, signature_len = 64, sig_reserved = 0\<rparr>"
proof -
  have "length SIGNATURE_MAGIC = 8" by (simp add: SIGNATURE_MAGIC_def)
  then show ?thesis by (simp add: signature_header_def signature_bytes_def le_field_simps)
qed

lemma signed_section_found: "find_signature_section signed_elf = Some (Inr (Some signature_bytes))"
proof -
  have name: "takeWhile (\<lambda>b. b \<noteq> 0) (drop (Suc 0) name_bytes) = SIGNATURE_SECTION_NAME"
    by (simp add: name_bytes_def SIGNATURE_SECTION_NAME_def)
  have magic: "take 4 (e_ident signed_header) = ELF_MAGIC" by (simp add: signed_header_def ident_bytes_def ELF_MAGIC_def)
  show ?thesis using magic
    by (simp add: find_signature_section_def EHDR_SIZE_def read_raw_def signed_elf_header)
      (simp add: signed_header_def wadd64_def U64_MOD_def SHDR_SIZE_def read_raw_def signed_section slice_range_def signed_slices upt_0_2 name Let_def)
qed

lemma signed_extract: "extract_signature rs signed_elf = Some (Inr signed_signature)"
proof -
  have "take 64 (drop 104 signature_bytes) = replicate 64 9" by (simp add: signature_bytes_def SIGNATURE_MAGIC_def)
  then have "parse_signature_section signature_bytes = Some (Inr signed_signature)"
    by (simp add: parse_signature_section_def SIG_HEADER_SIZE_def read_raw_def signed_signature_header SIGNATURE_VERSION_def wadd64_def
        U64_MOD_def slice_range_def signed_signature_def has_flag_def CONTAINS_UNSAFE_def FRAMEWORK_ONLY_def)
  then show ?thesis by (simp add: extract_signature_def signed_section_found)
qed

lemma signed_verifies: "snd (verify_signature rs toy_crypto (Some toy_verifier) signed_signature data)"
  by (simp add: verify_signature_def verify_def toy_verifier_def verifier_production_def add_trusted_key_def is_well_formed_def is_trusted_key_def
      signed_signature_def SIGNATURE_VERSION_def ED25519_SIGNATURE_SIZE_def zero_key_def sha256_compute_def toy_crypto_def verify_ed25519_def
      ed25519_verify_def verify_message_def Let_def list_all_iff)

lemma signed_new: "elf_new signed_elf = Some (Inr signed_loader)"
  by (simp add: elf_new_def EHDR_SIZE_def read_raw_def signed_elf_header signed_loader_def)
    (simp add: signed_header_def ident_bytes_def ELF_MAGIC_def ELFCLASS64_def ELFDATA2LSB_def)

lemma signed_sections:
  "read_raw elf_section_header SHDR_SIZE signed_elf (shdr_offset signed_loader 0) = Some (Inr (elf_section_header (drop 318 signed_elf)))"
  "read_raw elf_section_header SHDR_SIZE signed_elf (shdr_offset signed_loader (Suc 0)) = Some (Inr (elf_section_header (drop 382 signed_elf)))"
  by (simp_all add: read_raw_def shdr_offset_def signed_loader_def signed_header_def wadd64_def U64_MOD_def SHDR_SIZE_def)

text \<open>Its two sections hold neither symbols nor relocations.\<close>

lemma signed_parse: "elf_parse signed_loader = Some (Inr (tiny_info 8))"
proof -
  have "parse_program_header signed_loader 0 ([], 0, 4096)
    = Some (Inr ([\<lparr>file_offset = 120, vaddr = 0, file_size = 6, mem_size = 8, seg_flags = 5\<rparr>], 8, 4096))"
    by (simp add: parse_program_header_def ph_offset_def signed_loader_def signed_header_def wadd64_def U64_MOD_def PHDR_SIZE_def read_raw_def
        signed_program PT_LOAD_def)
  moreover have "parse_section signed_loader 0 acc = Some (Inr acc)" "parse_section signed_loader (Suc 0) acc = Some (Inr acc)" for acc
    using signed_sections
    by (simp_all add: parse_section_def signed_section SHT_SYMTAB_def SHT_DYNSYM_def) (simp_all add: signed_loader_def signed_section)
  moreover have "e_phnum (el_header signed_loader) = 1" "e_shnum (el_header signed_loader) = 2" "e_entry (el_header signed_loader) = 0"
    by (simp_all add: signed_loader_def signed_header_def)
  ultimately show ?thesis by (simp add: elf_parse_def parse_symbols_def upt_0_2 tiny_info_def)
qed

lemma signed_relocate: "relocate signed_loader loaded resolve m = Some (Inr m)"
proof -
  have "relocate_section signed_loader loaded resolve 0 m = Some (Inr m)" "relocate_section signed_loader loaded resolve (Suc 0) m = Some (Inr m)" for m
    using signed_sections
    by (simp_all add: relocate_section_def signed_section SHT_RELA_def) (simp_all add: signed_loader_def signed_section)
  moreover have "e_shnum (el_header signed_loader) = 2" by (simp add: signed_loader_def signed_header_def)
  ultimately show ?thesis by (simp add: relocate_def upt_0_2)
qed

text \<open>One segment of a file that is long enough: the load goes through.\<close>

lemma tiny_load:
  assumes "126 \<le> length (el_data l)"
  shows "\<exists>m'. elf_load (\<lambda>_. Some 0x10000) l (tiny_info 8) m
    = Some (Inr (m', \<lparr>base_address = 0x10000, lc_size = 8, lc_entry_point = None\<rparr>))"
  using assms by (simp add: elf_load_def allocate_memory_def tiny_info_def load_segment_def read_raw_def wadd64_def U64_MOD_def Let_def)

definition tiny_entry :: "u8 list \<Rightarrow> CellEntry" where
  "tiny_entry name = \<lparr>ce_id = 1, ce_name = name, ce_state = CellLoaded, load_address = 0x10000, load_size = 8, ce_entry_point = None,
     ce_exports = [], ce_imports = [], ce_dependencies = [], is_safe = True, signature_verified = True\<rparr>"

definition one_cell :: "u8 list \<Rightarrow> CellRegistry" where
  "one_cell name = \<lparr>cr_cells = [(1, tiny_entry name)], symbol_table = [], cr_next_id = 2\<rparr>"

lemma register_tiny:
  assumes "\<not> contains_unsafe sig"
  shows "register_loaded name sig (tiny_info 8) \<lparr>base_address = 0x10000, lc_size = 8, lc_entry_point = None\<rparr> registry_new = (one_cell name, 1)"
  using assms
  by (simp add: register_loaded_def registry_allocate_id_def registry_new_def cell_register_def loaded_entry_def tiny_info_def one_cell_def
      tiny_entry_def wadd64_def U64_MOD_def)

lemma tiny_load_verified:
  assumes "elf_new data = Some (Inr l)" and "elf_parse l = Some (Inr (tiny_info 8))" and "126 \<le> length (el_data l)"
    and "\<And>loaded resolve m. relocate l loaded resolve m = Some (Inr m)" and "\<not> contains_unsafe sig"
  shows "\<exists>m'. load_verified (\<lambda>_. Some 0x10000) name data sig registry_new m = Some (Inr (one_cell name, m', 1))"
proof -
  obtain m' where "elf_load (\<lambda>_. Some 0x10000) l (tiny_info 8) m = Some (Inr (m', \<lparr>base_address = 0x10000, lc_size = 8, lc_entry_point = None\<rparr>))"
    using tiny_load [OF assms(3)] by blast
  moreover have "check_imports registry_new (ci_imports (tiny_info 8)) = Some (Inr ())"
    by (simp add: check_imports_def tiny_info_def)
  ultimately show ?thesis
    using register_tiny [OF assms(5)] by (simp add: load_verified_def assms(1,2,4))
qed

lemma signed_loads:
  "\<exists>g m'. load_cell True toy_crypto (\<lambda>_. Some 0x10000) [0x61] signed_elf False (Some toy_verifier) registry_new (\<lambda>_. 0)
     = Some (g, Inr (one_cell [0x61], m', 1))"
proof -
  have len: "126 \<le> length (el_data signed_loader)" by (simp add: signed_loader_def)
  have safe: "\<not> contains_unsafe signed_signature" by (simp add: signed_signature_def)
  obtain m' where m': "load_verified (\<lambda>_. Some 0x10000) [0x61] signed_elf signed_signature registry_new (\<lambda>_. 0) = Some (Inr (one_cell [0x61], m', 1))"
    using tiny_load_verified [OF signed_new signed_parse len signed_relocate safe] by blast
  obtain g where g: "verify_signature True toy_crypto (Some toy_verifier) signed_signature signed_elf = (g, True)"
    using signed_verifies [of True signed_elf] by (metis prod.collapse)
  show ?thesis by (simp add: load_cell_def signed_extract g safe m')
qed

lemma tiny_loads_unsigned:
  "\<exists>m'. load_verified (\<lambda>_. Some 0x10000) [0x61] (tiny_elf 64 8) unsigned_signature registry_new (\<lambda>_. 0) = Some (Inr (one_cell [0x61], m', 1))"
proof (rule tiny_load_verified [OF tiny_new tiny_parse])
  show "126 \<le> length (el_data (tiny_loader 64 8))" by (simp add: tiny_loader_def tiny_elf_def ELF_MAGIC_def)
  show "\<not> contains_unsafe unsigned_signature" by (simp add: unsigned_signature_def signature_default_def)
  have "e_shnum (el_header (tiny_loader 64 8)) = 0" by code_simp
  then show "relocate (tiny_loader 64 8) loaded resolve m = Some (Inr m)" for loaded resolve m
    by (simp add: relocate_def)
qed

lemma tiny_unsigned: "find_signature_section (tiny_elf 64 8) = Some (Inr None)"
  by code_simp

subsection \<open>Symbols shared by cells\<close>

text \<open>Registering a cell with new exports under a new identifier and unloading it gives the registry back.\<close>

lemma register_unload_roundtrip:
  assumes "registry_wf r" and "cell_get r (ce_id e) = None" and "\<forall>s\<in>set (ce_exports e). resolve_symbol r s = None"
  shows "cell_unload (ce_id e) (cell_register e r) = (r, Some e)"
proof -
  have e: "cell_get (cell_register e r) (ce_id e) = Some e" using assms(1) by (simp add: cell_get_register)
  have "cr_cells (fst (cell_unload (ce_id e) (cell_register e r))) = cr_cells r"
  proof (rule bt_ext)
    show "map_of (cr_cells (fst (cell_unload (ce_id e) (cell_register e r)))) = map_of (cr_cells r)"
      using assms(1,2) cell_get_unload [OF registry_wf_ops(2) [OF assms(1)], of "ce_id e" e] cell_get_register [OF assms(1), of e]
      by (auto simp: cell_get_def fun_eq_iff)
  qed (use assms(1) registry_wf_ops(2,3) in \<open>auto simp: registry_wf_def\<close>)
  moreover have "symbol_table (fst (cell_unload (ce_id e) (cell_register e r))) = symbol_table r"
  proof (rule bt_ext)
    show "map_of (symbol_table (fst (cell_unload (ce_id e) (cell_register e r)))) = map_of (symbol_table r)"
      using assms(1,3) resolve_unload [OF registry_wf_ops(2) [OF assms(1)] e] resolve_register [OF assms(1), of e]
      by (auto simp: resolve_symbol_def fun_eq_iff)
  qed (use assms(1) registry_wf_ops(2,3) in \<open>auto simp: registry_wf_def\<close>)
  moreover have "cr_next_id (fst (cell_unload (ce_id e) (cell_register e r))) = cr_next_id r"
    by (simp add: cell_unload_def cell_register_def split: option.split)
  moreover have "snd (cell_unload (ce_id e) (cell_register e r)) = Some e"
    using e by (simp add: cell_unload_def cell_get_def)
  ultimately show ?thesis by (simp add: prod_eq_iff CellRegistry.equality)
qed

text \<open>A symbol that two cells export is gone for both when one of them is unloaded.\<close>

lemma shared_export_lost:
  assumes "registry_wf r" and "cell_get r i = Some e" and "cell_get r j = Some f" and "i \<noteq> j"
    and "s \<in> set (ce_exports e)" and "s \<in> set (ce_exports f)"
  shows "cell_get (fst (cell_unload i r)) j = Some f \<and> resolve_symbol (fst (cell_unload i r)) s = None"
  using assms by (simp add: cell_get_unload resolve_unload)

text \<open>Every export of a cell resolves to the cell's load address, whatever the symbol's own value is.\<close>

lemma exports_resolve_to_base:
  assumes "registry_wf r" and "s \<in> set (ce_exports e)" and "t \<in> set (ce_exports e)"
  shows "resolve_symbol (cell_register e r) s = Some (load_address e)" and "resolve_symbol (cell_register e r) s = resolve_symbol (cell_register e r) t"
  using assms by (simp_all add: resolve_register)

subsection \<open>The properties of loading\<close>

text \<open>C13: With a verifier outside development mode that trusts some key, a cell is loaded only when its signature section names a trusted key, carries the
  hash of the file and is signed by that key; a cell with unsafe code only when the caller allows it; and every symbol it
  imports was resolved. The cell is registered under the next identifier and no other cell is touched.\<close>

theorem load_cell_vouched:
  assumes "registry_wf r" and "\<not> allow_dev_mode v" and "trusted_keys v \<noteq> []"
    and "load_cell rs c alloc name data allow_unsafe (Some v) r m = Some (g, Inr (r', m', i))"
  shows "\<exists>sig e. extract_signature rs data = Some (Inr sig) \<and> vouched c (trusted_keys v) sig data \<and> (contains_unsafe sig \<longrightarrow> allow_unsafe) \<and>
           i = cr_next_id r \<and> cell_get r' i = Some e \<and> is_safe e = (\<not> contains_unsafe sig) \<and>
           (\<forall>s\<in>set (ce_imports e). resolve_symbol r s \<noteq> None) \<and> (\<forall>j. j \<noteq> i \<longrightarrow> cell_get r' j = cell_get r j)"
proof -
  from assms(4) obtain sig where sig: "extract_signature rs data = Some (Inr sig)" "verify_signature rs c (Some v) sig data = (g, True)"
    "contains_unsafe sig \<longrightarrow> allow_unsafe" "load_verified alloc name data sig r m = Some (Inr (r', m', i))"
    by (rule load_cell_ok)
  from load_cell_entry [OF assms(1) sig(4)] obtain e where "cell_get r' i = Some e" "i = cr_next_id r" "is_safe e = (\<not> contains_unsafe sig)"
    "\<forall>s\<in>set (ce_imports e). resolve_symbol r s \<noteq> None" "\<forall>j. j \<noteq> i \<longrightarrow> cell_get r' j = cell_get r j" by blast
  with sig(1,3) verify_signature_vouched [OF assms(2,3) sig(2)] show ?thesis by blast
qed

theorem load_cell_vouched_witness:
  "\<exists>g m'. load_cell True toy_crypto (\<lambda>_. Some 0x10000) [0x61] signed_elf False (Some toy_verifier) registry_new (\<lambda>_. 0)
       = Some (g, Inr (one_cell [0x61], m', 1)) \<and> vouched toy_crypto [replicate 32 7] signed_signature signed_elf"
proof -
  obtain g m' where l: "load_cell True toy_crypto (\<lambda>_. Some 0x10000) [0x61] signed_elf False (Some toy_verifier) registry_new (\<lambda>_. 0)
      = Some (g, Inr (one_cell [0x61], m', 1))" using signed_loads by blast
  have v: "\<not> allow_dev_mode toy_verifier" "trusted_keys toy_verifier = [replicate 32 7]"
    by (simp_all add: toy_verifier_def add_trusted_key_def verifier_production_def)
  have "trusted_keys toy_verifier \<noteq> []" using v(2) by simp
  from load_cell_vouched [OF registry_wf_ops(1) v(1) this l] show ?thesis using l signed_extract v(2) by auto
qed

text \<open>C17: In the build without \<open>require_signatures\<close>, and while the verifier allows development mode as it does from the start, a file with no signature section
  passes verification whatever it holds: loading goes straight to the ELF loader, and a cell so loaded is registered as safe and
  as having its signature verified, even when the caller does not allow unsafe code.\<close>

theorem unsigned_cell_marked_verified:
  assumes "registry_wf r" and "find_signature_section data = Some (Inr None)" and "64 \<le> length data"
    and "case g of None \<Rightarrow> True | Some v \<Rightarrow> allow_dev_mode v"
  shows "\<exists>g'. load_cell False c alloc name data allow_unsafe g r m
             = map_option (\<lambda>res. (g', res)) (load_verified alloc name data unsigned_signature r m) \<and>
         (\<forall>r' m' i. load_cell False c alloc name data allow_unsafe g r m = Some (g', Inr (r', m', i)) \<longrightarrow>
            (\<exists>e. cell_get r' i = Some e \<and> is_safe e \<and> signature_verified e))"
proof -
  have x: "extract_signature False data = Some (Inr unsigned_signature)" using extract_unsigned [OF assms(2,3), of False] by simp
  obtain h where h: "verify_signature False c g unsigned_signature data = (h, True)"
    using unsigned_accepted [OF assms(4), of c data] by (metis prod.collapse)
  have safe: "\<not> contains_unsafe unsigned_signature" by (simp add: unsigned_signature_def signature_default_def)
  have l: "load_cell False c alloc name data allow_unsafe g r m = map_option (\<lambda>res. (h, res)) (load_verified alloc name data unsigned_signature r m)"
    by (simp add: load_cell_def x h safe)
  have "\<exists>e. cell_get r' i = Some e \<and> is_safe e \<and> signature_verified e"
    if "load_cell False c alloc name data allow_unsafe g r m = Some (h, Inr (r', m', i))" for r' m' i
  proof -
    from that l have "load_verified alloc name data unsigned_signature r m = Some (Inr (r', m', i))" by auto
    from load_cell_entry [OF assms(1) this] safe show ?thesis by metis
  qed
  with l show ?thesis by blast
qed

theorem unsigned_cell_marked_verified_witness:
  "\<exists>g' m' e. load_cell False toy_crypto (\<lambda>_. Some 0x10000) [0x61] (tiny_elf 64 8) False None registry_new (\<lambda>_. 0)
       = Some (g', Inr (one_cell [0x61], m', 1)) \<and> cell_get (one_cell [0x61]) 1 = Some e \<and> is_safe e \<and> signature_verified e"
proof -
  have len: "64 \<le> length (tiny_elf 64 8)" by (simp add: tiny_elf_def ELF_MAGIC_def)
  obtain m' where "load_verified (\<lambda>_. Some 0x10000) [0x61] (tiny_elf 64 8) unsigned_signature registry_new (\<lambda>_. 0) = Some (Inr (one_cell [0x61], m', 1))"
    using tiny_loads_unsigned by blast
  with unsigned_cell_marked_verified [OF registry_wf_ops(1) tiny_unsigned len, of None toy_crypto "\<lambda>_. Some 0x10000" "[0x61]" False "\<lambda>_. 0"]
  show ?thesis by fastforce
qed

text \<open>C18: Nothing ever records a dependency of one cell on another: in every registry that starting the kernel, loading and unloading produce, unloading
  a cell is accepted, also when other cells import its symbols. Those cells stay registered and running, with
  imports that no longer resolve.\<close>

theorem unload_never_refused:
  assumes "registry_reachable rs c alloc r"
  shows "snd (unload_cell i r) = Inr () \<and> cell_get (fst (unload_cell i r)) i = None \<and>
         (\<forall>e j f s. cell_get r i = Some e \<and> cell_get r j = Some f \<and> j \<noteq> i \<and> s \<in> set (ce_exports e) \<and> s \<in> set (ce_imports f) \<longrightarrow>
            cell_get (fst (unload_cell i r)) j = Some f \<and> resolve_symbol (fst (unload_cell i r)) s = None)"
proof -
  have nd: "no_dependencies r" using assms by (rule reachable_no_dependencies)
  then have "registry_wf r" by (simp add: no_dependencies_def)
  then show ?thesis by (simp add: unload_accepts [OF nd] cell_get_unload resolve_unload)
qed

theorem unload_never_refused_witness:
  "registry_reachable True toy_crypto (\<lambda>_. Some 0x10000) (one_cell [0x61]) \<and> snd (unload_cell 1 (one_cell [0x61])) = Inr () \<and>
   cell_get (fst (unload_cell 1 (one_cell [0x61]))) 1 = None"
proof -
  have "registry_reachable True toy_crypto (\<lambda>_. Some 0x10000) (one_cell [0x61])"
    using signed_loads reg_load [OF reg_start] by blast
  with unload_never_refused [of True toy_crypto "\<lambda>_. Some 0x10000" "one_cell [0x61]" 1] show ?thesis by blast
qed

end
