(* ===== verification/Spec2Isabelle.thy ===== *)
theory Spec2Isabelle
  imports Prelude BTreeMap FramePool Buddy Frames HeapRegistry SasManager FreeChain ExchangeHeap Domains RRef Fifo Pipe Channel SharedMem AssocVec Capability Mac Policy AuditTrail Access Slab Scheduler Spsc Mpsc Mpmc Seqlock IrqMutex Bytes Elf CellSig CellLoader
begin

text \<open>
  A verification library for the Rany_OS kernel (\<open>src/src\<close>), a single address space operating system in Rust. Domains
  (cells) share one address space and one privilege level; they are kept apart by who owns which
  memory, by the kernel's tables and by checks at load time. The library models the parts that decide
  about memory, ownership, communication, rights and code, and the synchronisation they rest on.

  \<^bold>\<open>The parts and how they interact.\<close> Physical frames come from the buddy allocator or the bitmap allocator; slab caches and
  the exchange heap cut memory into objects. The registry of heap objects and the manager of the single address space
  record the owner of every object. The domain system keeps the domains and their tasks; when a domain
  ends, its objects are reclaimed from heap and registry. Remote references move values between domains
  by changing the owner; channels, pipes and shared memory carry values and bytes. Capabilities,
  mandatory levels, the rule policy and the audit log decide about and record accesses. The scheduler runs the
  tasks of a CPU. Lock-free rings, the sequence lock and the interrupt-disabling mutex are used between CPUs and
  handlers. The loader verifies the signature of a cell, loads its ELF file and registers its symbols.

  \<^bold>\<open>Theories and sources.\<close> State is a record with the fields of the struct, an operation a function from state to state and
  result, an error a value \<open>Inl\<close>, a panic or fault \<open>None\<close>.

  \<^item> \<open>Prelude\<close>: machine arithmetic with the wrap-around written out, powers of two, bits, lists. \<open>Bytes\<close>: numbers in little-
    and big-endian bytes. \<open>BTreeMap\<close>, \<open>AssocVec\<close>: the ordered map of Rust and vectors of pairs, with the laws of a
    map as the locales \<open>keyed_store\<close> and \<open>keyed_map\<close>.
  \<^item> \<open>FramePool\<close>: the contract of an allocator (\<open>frame_pool\<close>, \<open>returning_pool\<close>) and sequences of requests. \<open>Buddy\<close>
    (\<open>mm/buddy_allocator.rs\<close>), \<open>Frames\<close> (\<open>mm/frame_allocator.rs\<close>, \<open>mm/mod.rs\<close>), \<open>Slab\<close> (\<open>mm/slab_cache.rs\<close>,
    \<open>mm/mapping.rs\<close>) and \<open>ExchangeHeap\<close> (\<open>mm/exchange_heap.rs\<close>, over the free lists of \<open>FreeChain\<close>) are instances: live blocks
    are disjoint and inside the memory given to the allocator; the buddy operations are characterised exactly.
  \<^item> \<open>HeapRegistry\<close> (\<open>sas/heap_registry.rs\<close>, locale \<open>owner_registry\<close>), \<open>SasManager\<close> (\<open>sas/mod.rs\<close>, \<open>sas/memory_region.rs\<close>,
    \<open>sas/ownership.rs\<close>): only the owner changes what happens to an object, regions are disjoint, a transfer moves access.
  \<^item> \<open>Domains\<close> (\<open>domain_system.rs\<close>, \<open>domain/lifecycle.rs\<close>): reachable states are well-formed, termination releases exactly the
    objects of the domain, a crash is contained, the detailed life cycle refines the abstract one.
  \<^item> \<open>RRef\<close> (\<open>ipc/rref.rs\<close>): heap, registry and references agree on owners. \<open>Fifo\<close>: the contract of a queue, with
    instances in \<open>Pipe\<close> and \<open>Channel\<close> (\<open>ipc/pipe.rs\<close>), \<open>SharedMem\<close> (\<open>ipc/shared_mem.rs\<close>) and \<open>Spsc\<close>: nothing is lost, duplicated or
    reordered.
  \<^item> \<open>Spsc\<close>, \<open>Mpsc\<close>, \<open>Mpmc\<close>, \<open>Seqlock\<close> (\<open>sync/lockfree.rs\<close>) and \<open>IrqMutex\<close> (\<open>sync/irq_mutex.rs\<close>): the operations access by access
    under every schedule. The rings with one producer and with many producers and consumers behave as queues, the one with
    many producers can lose a value, reads of the sequence lock are whole, the mutex excludes.
  \<^item> \<open>Capability\<close>, \<open>Mac\<close> (locale \<open>flow_policy\<close>), \<open>Policy\<close>, \<open>AuditTrail\<close> (locale \<open>bounded_log\<close>), \<open>Access\<close> (\<open>security/\<close>):
    dropped rights stay dropped, information flows upwards, the early exit of the rule search agrees with the full
    search, the log keeps the latest records.
  \<^item> \<open>Scheduler\<close> (\<open>task/scheduler.rs\<close>, \<open>task/context.rs\<close>, \<open>task/work_stealing.rs\<close>): tasks of one priority take turns.
  \<^item> \<open>Elf\<close>, \<open>CellSig\<close>, \<open>CellLoader\<close> (\<open>loader/\<close>): parsing and relocation read inside a file whose offsets do not wrap, loading puts exactly
    the image of the file into memory, only vouched cells are loaded outside development mode; and where the
    loader fails: oversized segments, unsigned cells, cells unloaded under their importers.

  \<^bold>\<open>Bounds.\<close> An unsigned 64-bit number is a natural number, with the wrap-around written out where the code can reach it. No definition
  takes fuel: loops are structural or have a termination proof, and the first-fit search of the exchange heap, which
  follows pointers in memory, is a partial function shown to return on every heap with the invariant. Retry loops of
  the lock-free code are steps of a schedule.

  \<^bold>\<open>Parameters.\<close> The hash and signature crates, the global allocator, timers, the number of the current CPU and
  contents of futures are arguments. Locks around global instances are not modelled except where a theory
  says so: a call is one step.

  \<^bold>\<open>Not modelled.\<close> Page tables, per-CPU segments, interrupt tables, the start of processors, speculation
  barriers, device drivers, power and time: their effect is that of the hardware. Executors and proxies: they run arbitrary
  futures. Stack unwinding: it walks machine stacks. File systems, the network stack, graphics, the shell and applications:
  services above the parts modelled here, each a development of its own. Memory mappings, processes, signals
  and preemption: tables beside the modelled ones that no modelled part calls. Memory ordering is that of
  sequentially consistent interleavings.
\<close>

end
